(* ===== verification/Go_Prelude.thy ===== *)
theory Go_Prelude
  imports Main "HOL-Library.Word" "HOL-Library.Monad_Syntax" "HOL-Library.Multiset"
begin

text \<open>
  Shared vocabulary of the development. Go's \<open>uint64\<close> is the type \<open>u64\<close> of 64-bit words, on
  which \<open>+\<close>, \<open>-\<close> and \<open>*\<close> wrap as they do in Go; Go's \<open>int\<close> is the type \<^typ>\<open>int\<close>. Where the
  result of an \<open>int\<close> operation depends on data that a caller may choose at will, its wrap-around is
  written out with \<open>go_int\<close>; the clocks, counters and identifiers that the simulator itself advances by one
  are not wrapped. Every place where a conversion between \<open>int\<close> and \<open>uint64\<close> can lose information is written
  out with \<open>int_of_u64\<close>. A Go run-time panic (an index out of range, a nil dereference) is the
  value \<^const>\<open>None\<close> of an \<open>option\<close> result, so that the absence of panics is a theorem and not an
  assumption.
\<close>

unbundle bit_operations_syntax

type_synonym u64 = "64 word"

named_theorems go_simps \<open>Equations that evaluate the Go primitives of the model\<close>

section \<open>Go primitives\<close>

text \<open>The Go conversion \<open>int(x)\<close> of a \<open>uint64\<close>: the two's complement reading of the bits.\<close>

definition int_of_u64 :: "u64 \<Rightarrow> int" where
  "int_of_u64 w = sint w"

text \<open>The Go conversion \<open>uint64(x)\<close> of an \<open>int\<close>: reduction modulo \<open>2 ^ 64\<close>.\<close>

definition u64_of_int :: "int \<Rightarrow> u64" where
  "u64_of_int i = word_of_int i"

text \<open>The result of an \<open>int\<close> operation: the exact value, wrapped to 64 bits in two's complement.\<close>

definition go_int :: "int \<Rightarrow> int" where
  "go_int x = (x + 2 ^ 63) mod 2 ^ 64 - 2 ^ 63"

definition int64 :: "int \<Rightarrow> bool" where
  "int64 x \<longleftrightarrow> - (2 ^ 63) \<le> x \<and> x < 2 ^ 63"

text \<open>The index expression \<open>xs[i]\<close>: \<^const>\<open>None\<close> is the index-out-of-range panic.\<close>

definition go_index :: "'a list \<Rightarrow> int \<Rightarrow> 'a option" where
  "go_index xs i = (if 0 \<le> i \<and> i < int (length xs) then Some (xs ! nat i) else None)"

text \<open>The assignment \<open>xs[i] = v\<close>, with the same panic.\<close>

definition go_update :: "'a list \<Rightarrow> int \<Rightarrow> 'a \<Rightarrow> 'a list option" where
  "go_update xs i v = (if 0 \<le> i \<and> i < int (length xs) then Some (xs[nat i := v]) else None)"

text \<open>The idiom \<open>append(xs[:i], xs[i+1:]...)\<close> that deletes one element.\<close>

definition delete_at :: "nat \<Rightarrow> 'a list \<Rightarrow> 'a list" where
  "delete_at i xs = take i xs @ drop (Suc i) xs"

text \<open>The \<open>%d\<close> verb of \<open>fmt.Sprintf\<close> on an \<open>int\<close>.\<close>

fun dec_digits :: "nat \<Rightarrow> string" where
  "dec_digits n =
     (if n < 10 then [char_of (48 + n)] else dec_digits (n div 10) @ [char_of (48 + n mod 10)])"

declare dec_digits.simps [simp del]

definition itoa :: "int \<Rightarrow> string" where
  "itoa i = (if i < 0 then CHR ''-'' # dec_digits (nat (- i)) else dec_digits (nat i))"

section \<open>Lemmas shared by the components\<close>

lemma member_le_sum_list_int: "x \<in> set xs \<Longrightarrow> \<forall>y\<in>set xs. 0 \<le> y \<Longrightarrow> x \<le> sum_list (xs :: int list)"
proof (induction xs)
  case (Cons a xs)
  have "0 \<le> sum_list xs" using Cons.prems(2) by (intro sum_list_nonneg) simp
  with Cons show ?case by auto
qed simp

lemma go_int_exact: "int64 x \<Longrightarrow> go_int x = x"
  by (simp add: int64_def go_int_def)

lemma int64_go_int: "int64 (go_int x)"
proof -
  have "0 \<le> (x + 2 ^ 63) mod 2 ^ 64" "(x + 2 ^ 63) mod 2 ^ 64 < 2 ^ 64" by simp_all
  then show ?thesis by (simp add: int64_def go_int_def)
qed

lemma go_index_Some [go_simps]:
  "go_index xs i = Some x \<longleftrightarrow> 0 \<le> i \<and> i < int (length xs) \<and> xs ! nat i = x"
  by (auto simp: go_index_def)

lemma go_index_None [go_simps]: "go_index xs i = None \<longleftrightarrow> i < 0 \<or> int (length xs) \<le> i"
  by (auto simp: go_index_def)

lemma go_update_Some [go_simps]:
  "go_update xs i v = Some ys \<longleftrightarrow> 0 \<le> i \<and> i < int (length xs) \<and> ys = xs[nat i := v]"
  by (auto simp: go_update_def)

lemma int_of_u64_small: "unat w < 2 ^ 63 \<Longrightarrow> int_of_u64 w = int (unat w)"
proof -
  assume "unat w < 2 ^ 63"
  then have "uint w < 2 ^ 63"
    by (metis of_nat_less_numeral_power_cancel_iff uint_nat)
  moreover have "- (2 ^ 63) \<le> uint w"
    by (rule order_trans [OF _ uint_ge_0]) simp
  ultimately have "sint w = uint w"
    by (simp add: sint_uint signed_take_bit_int_eq_self_iff)
  then show ?thesis by (simp add: int_of_u64_def)
qed

lemma length_delete_at [simp]: "i < length xs \<Longrightarrow> length (delete_at i xs) = length xs - 1"
  by (simp add: delete_at_def)

lemma mset_delete_at: "i < length xs \<Longrightarrow> mset xs = add_mset (xs ! i) (mset (delete_at i xs))"
  by (subst id_take_nth_drop [of i xs]) (simp_all add: delete_at_def)

lemma set_delete_at_subset: "set (delete_at i xs) \<subseteq> set xs"
  by (auto simp: delete_at_def dest: in_set_takeD in_set_dropD)

lemma distinct_delete_at:
  assumes "distinct xs" and "i < length xs"
  shows "distinct (delete_at i xs) \<and> set (delete_at i xs) = set xs - {xs ! i}"
proof -
  have xs: "xs = take i xs @ xs ! i # drop (Suc i) xs"
    by (rule id_take_nth_drop [OF assms(2)])
  have d: "distinct (take i xs @ xs ! i # drop (Suc i) xs)"
    using assms(1) xs by simp
  have s: "set xs = insert (xs ! i) (set (take i xs) \<union> set (drop (Suc i) xs))"
    by (subst xs) auto
  from d s show ?thesis unfolding delete_at_def by auto
qed

lemma map_list_update: "map f (xs[i := x]) = (map f xs)[i := f x]"
  by (rule map_update)

lemma nth_list_update_if:
  "i < length xs \<Longrightarrow> xs[j := x] ! i = (if i = j then x else xs ! i)"
  by simp

lemma sum_list_update_int:
  fixes f :: "'a \<Rightarrow> int"
  assumes "i < length xs"
  shows "sum_list (map f (xs[i := x])) = sum_list (map f xs) - f (xs ! i) + f x"
proof -
  have "xs = take i xs @ xs ! i # drop (Suc i) xs"
    by (rule id_take_nth_drop [OF assms])
  then have 1: "sum_list (map f xs) =
      sum_list (map f (take i xs)) + f (xs ! i) + sum_list (map f (drop (Suc i) xs))"
    by (metis ab_semigroup_add_class.add_ac(1) list.simps(9) map_append sum_list.Cons sum_list.append)
  have "xs[i := x] = take i xs @ x # drop (Suc i) xs"
    by (rule upd_conv_take_nth_drop [OF assms])
  then have 2: "sum_list (map f (xs[i := x])) =
      sum_list (map f (take i xs)) + f x + sum_list (map f (drop (Suc i) xs))"
    by simp
  from 1 2 show ?thesis by simp
qed

text \<open>A table of equally long rows as one flat list.\<close>

lemma length_concat_uniform:
  "\<forall>r\<in>set rows. length r = n \<Longrightarrow> length (concat rows) = length rows * n"
  by (induction rows) auto

lemma concat_nth_uniform:
  assumes "\<forall>r\<in>set rows. length r = n" and "i < length rows" and "j < n"
  shows "concat rows ! (i * n + j) = rows ! i ! j"
  using assms
proof (induction rows arbitrary: i)
  case (Cons r rows)
  then show ?case by (cases i) (auto simp: nth_append add.assoc)
qed simp

lemma concat_update_uniform:
  assumes "\<forall>r\<in>set rows. length r = n" and "i < length rows" and "j < n"
  shows "concat (rows[i := (rows ! i)[j := y]]) = (concat rows)[i * n + j := y]"
  using assms
proof (induction rows arbitrary: i)
  case (Cons r rows)
  then show ?case by (cases i) (auto simp: list_update_append add.assoc)
qed simp

text \<open>Fields of a word cut out by a shift and a mask.\<close>

lemma unat_field:
  fixes w :: u64
  shows "unat (drop_bit k w AND mask n) = (unat w div 2 ^ k) mod 2 ^ n"
proof -
  have "take_bit LENGTH(64) (unat w) = unat w"
    using unsigned_less [of w] by (simp add: take_bit_nat_eq_self_iff)
  then have "unat (drop_bit k w AND mask n) = take_bit n (drop_bit k (unat w))"
    by (simp only: take_bit_eq_mask [symmetric] unsigned_take_bit_eq unsigned_drop_bit_eq)
  then show ?thesis by (simp only: take_bit_eq_mod drop_bit_eq_div)
qed

lemma uint_index_iff [simp, go_simps]:
  "uint (w :: u64) < int n \<longleftrightarrow> unat w < n" "int n \<le> uint w \<longleftrightarrow> n \<le> unat w"
  using nat_less_iff [OF uint_ge_0, of w n] by (simp_all flip: not_less)

lemma uint_index_numeral_iff [simp, go_simps]:
  "uint (w :: u64) < numeral k \<longleftrightarrow> unat w < numeral k"
  "numeral k \<le> uint w \<longleftrightarrow> numeral k \<le> unat w"
  using uint_index_iff [where w = w and n = "numeral k"] by (simp_all only: of_nat_numeral)

lemma unat_less_u64: "unat (w :: u64) < 2 ^ 64"
  using unsigned_less [of w] by simp

lemma unat_add_u64: "unat (v :: u64) + unat w < 2 ^ 64 \<Longrightarrow> unat (v + w) = unat v + unat w"
  using unat_add_lem [of v w] by simp

lemma uint_of_int_u64: "0 \<le> x \<Longrightarrow> x < 2 ^ 64 \<Longrightarrow> uint (word_of_int x :: u64) = x"
  by (simp add: unsigned_of_int take_bit_int_eq_self_iff)

lemma unat_of_nat_u64: "n < 2 ^ 64 \<Longrightarrow> unat (of_nat n :: u64) = n"
  by (simp add: unsigned_of_nat take_bit_nat_eq_self_iff)

end
