(* ===== verification/CPU_Process.thy ===== *)
theory CPU_Process
  imports Go_Prelude Complex_Main
begin

text \<open>
  The process and thread control blocks of \<open>pkg/cpu/process.go\<close> and \<open>pkg/cpu/thread.go\<close>, the
  scheduling metrics of \<open>pkg/cpu/scheduler.go\<close> and the context switcher of
  \<open>pkg/cpu/context_switch.go\<close>. A \<open>*Process\<close> is an index into the list of the process objects
  that are in use, so that two pointers to one object are two equal indices; the metrics, which
  Go computes in \<open>float64\<close>, are real numbers.
\<close>

section \<open>Control blocks\<close>

datatype ProcessState = StateNew | StateReady | StateRunning | StateBlocked | StateTerminated

datatype ThreadState =
  ThreadStateReady | ThreadStateRunning | ThreadStateBlocked | ThreadStateTerminated

record Registers =
  r_PC :: u64
  r_SP :: u64
  r_BP :: u64
  r_AX :: u64
  r_BX :: u64
  r_CX :: u64
  r_DX :: u64
  r_Flags :: u64

record Thread =
  t_TID :: int
  t_PID :: int
  t_Name :: string
  t_State :: ThreadState
  t_Registers :: Registers
  t_StackBase :: u64
  t_StackLimit :: u64
  t_StackSize :: u64

record Process =
  p_PID :: int
  p_Name :: string
  p_State :: ProcessState
  p_Priority :: int
  p_ArrivalTime :: int
  p_BurstTime :: int
  p_RemainingTime :: int
  p_StartTime :: int
  p_FinishTime :: int
  p_WaitingTime :: int
  p_Turnaround :: int
  p_ResponseTime :: int
  p_IOFrequency :: int
  p_IODuration :: int
  p_IOCounter :: int
  p_RunTicks :: int
  p_AllotmentUsed :: int
  p_CurrentQueue :: int
  p_Tickets :: int
  p_Registers :: Registers
  p_MemoryBase :: u64
  p_MemoryLimit :: u64
  p_Threads :: "Thread list"

text \<open>Go's zero value of \<open>Registers\<close>.\<close>

definition zero_Registers :: Registers where
  "zero_Registers = \<lparr>r_PC = 0, r_SP = 0, r_BP = 0, r_AX = 0, r_BX = 0, r_CX = 0, r_DX = 0,
     r_Flags = 0\<rparr>"

definition NewThread :: "int \<Rightarrow> int \<Rightarrow> string \<Rightarrow> u64 \<Rightarrow> u64 \<Rightarrow> Thread" where
  "NewThread tid pid name stackBase stackSize =
     \<lparr>t_TID = tid, t_PID = pid, t_Name = name, t_State = ThreadStateReady,
      t_Registers = zero_Registers\<lparr>r_PC := 0x00401000, r_SP := stackBase, r_BP := stackBase\<rparr>,
      t_StackBase = stackBase, t_StackLimit = stackBase - stackSize, t_StackSize = stackSize\<rparr>"

definition NewProcess :: "int \<Rightarrow> string \<Rightarrow> int \<Rightarrow> int \<Rightarrow> Process" where
  "NewProcess pid name arrivalTime burstTime =
     \<lparr>p_PID = pid, p_Name = name, p_State = StateNew, p_Priority = 0,
      p_ArrivalTime = arrivalTime, p_BurstTime = burstTime, p_RemainingTime = burstTime,
      p_StartTime = -1, p_FinishTime = -1, p_WaitingTime = 0, p_Turnaround = 0,
      p_ResponseTime = 0, p_IOFrequency = 0, p_IODuration = 0, p_IOCounter = 0, p_RunTicks = 0,
      p_AllotmentUsed = 0, p_CurrentQueue = 0, p_Tickets = 10,
      p_Registers = zero_Registers\<lparr>r_PC := 0x00400000, r_SP := 0x7FFFFFFF\<rparr>,
      p_MemoryBase = 0, p_MemoryLimit = 0, p_Threads = []\<rparr>"

definition Clone :: "Process \<Rightarrow> Process" where
  "Clone p = p\<lparr>p_State := StateNew, p_RemainingTime := p_BurstTime p, p_StartTime := -1,
     p_FinishTime := -1, p_WaitingTime := 0, p_Turnaround := 0, p_ResponseTime := 0,
     p_AllotmentUsed := 0, p_CurrentQueue := 0, p_RunTicks := 0, p_IOCounter := 0\<rparr>"

text \<open>One bar of the Gantt chart that the schedulers record (\<open>pkg/visualizer/gantt.go\<close>).\<close>

record GanttSegment =
  gs_EntityID :: string
  gs_StartTime :: int
  gs_EndTime :: int
  gs_Color :: string

section \<open>Metrics\<close>

record Metrics =
  m_TotalTime :: int
  m_AvgTurnaroundTime :: real
  m_AvgWaitingTime :: real
  m_AvgResponseTime :: real
  m_CPUUtilization :: real
  m_Throughput :: real
  m_TotalContextSwitches :: int

definition CalculateMetrics :: "Process list \<Rightarrow> int \<Rightarrow> int \<Rightarrow> int \<Rightarrow> Metrics" where
  "CalculateMetrics completed totalTime busyTime contextSwitches =
     (let n = length completed in
      if n = 0 then
        \<lparr>m_TotalTime = 0, m_AvgTurnaroundTime = 0, m_AvgWaitingTime = 0, m_AvgResponseTime = 0,
         m_CPUUtilization = 0, m_Throughput = 0, m_TotalContextSwitches = 0\<rparr>
      else
        let sumTurnaround = (\<Sum>p\<leftarrow>completed. p_Turnaround p);
            sumWaiting = (\<Sum>p\<leftarrow>completed. p_WaitingTime p);
            sumResponse = (\<Sum>p\<leftarrow>completed. p_ResponseTime p);
            utilization = (if totalTime > 0
              then (real_of_int busyTime / real_of_int totalTime) * 100 else 0);
            throughput = (if totalTime > 0 then real n / real_of_int totalTime else 0)
        in \<lparr>m_TotalTime = totalTime,
            m_AvgTurnaroundTime = real_of_int sumTurnaround / real n,
            m_AvgWaitingTime = real_of_int sumWaiting / real n,
            m_AvgResponseTime = real_of_int sumResponse / real n,
            m_CPUUtilization = utilization, m_Throughput = throughput,
            m_TotalContextSwitches = contextSwitches\<rparr>)"

section \<open>Context switches\<close>

datatype ContextSwitchType = SwitchProcess | SwitchThread

record SwitchRecord =
  sr_Timestamp :: int
  sr_Type :: ContextSwitchType
  sr_FromEntity :: string
  sr_ToEntity :: string
  sr_CyclesCost :: int
  sr_TLBFlushed :: bool
  sr_RegistersSaved :: Registers

record ContextSwitcher =
  cs_TotalSwitches :: int
  cs_TotalCyclesCost :: int
  cs_History :: "SwitchRecord list"
  cs_ThreadSwitchCycles :: int
  cs_ProcessSwitchCycles :: int

definition NewContextSwitcher :: ContextSwitcher where
  "NewContextSwitcher = \<lparr>cs_TotalSwitches = 0, cs_TotalCyclesCost = 0, cs_History = [],
     cs_ThreadSwitchCycles = 1000, cs_ProcessSwitchCycles = 6000\<rparr>"

text \<open>\<open>fmt.Sprintf("P%d(%s)", p.PID, p.Name)\<close>.\<close>

definition entity_name :: "Process \<Rightarrow> string" where
  "entity_name p = ''P'' @ itoa (p_PID p) @ ''('' @ p_Name p @ '')''"

definition SwitchProcessContext ::
  "ContextSwitcher \<Rightarrow> Process list \<Rightarrow> int \<Rightarrow> nat option \<Rightarrow> nat option
    \<Rightarrow> ContextSwitcher \<times> Process list \<times> SwitchRecord" where
  "SwitchProcessContext cs ps time from to =
     (let cs1 = cs\<lparr>cs_TotalSwitches := cs_TotalSwitches cs + 1,
                   cs_TotalCyclesCost := cs_TotalCyclesCost cs + cs_ProcessSwitchCycles cs\<rparr>;
          (ps1, fromName, savedRegs) =
            (case from of
               None \<Rightarrow> (ps, ''IDLE'', zero_Registers)
             | Some i \<Rightarrow>
                 let p = ps ! i;
                     regs = (p_Registers p)\<lparr>r_PC := r_PC (p_Registers p) + 4\<rparr>
                 in (ps[i := p\<lparr>p_State := StateReady, p_Registers := regs\<rparr>],
                     entity_name p, regs));
          (ps2, toName) =
            (case to of
               None \<Rightarrow> (ps1, ''IDLE'')
             | Some j \<Rightarrow>
                 let q = (ps1 ! j)\<lparr>p_State := StateRunning\<rparr>;
                     q' = (if p_StartTime q = -1
                           then q\<lparr>p_StartTime := time, p_ResponseTime := time - p_ArrivalTime q\<rparr>
                           else q)
                 in (ps1[j := q'], entity_name q));
          rec = \<lparr>sr_Timestamp = time, sr_Type = SwitchProcess, sr_FromEntity = fromName,
                 sr_ToEntity = toName, sr_CyclesCost = cs_ProcessSwitchCycles cs1,
                 sr_TLBFlushed = True, sr_RegistersSaved = savedRegs\<rparr>
      in (cs1\<lparr>cs_History := cs_History cs1 @ [rec]\<rparr>, ps2, rec))"

section \<open>Properties\<close>

lemma Clone_Clone [simp]: "Clone (Clone p) = Clone p"
  by (simp add: Clone_def)

lemma Clone_NewProcess [simp]:
  "Clone (NewProcess pid name a b) = NewProcess pid name a b"
  by (simp add: Clone_def NewProcess_def)

lemma Clone_fields [simp]:
  "p_State (Clone p) = StateNew" "p_RemainingTime (Clone p) = p_BurstTime p"
  "p_StartTime (Clone p) = -1" "p_WaitingTime (Clone p) = 0"
  "p_ArrivalTime (Clone p) = p_ArrivalTime p" "p_BurstTime (Clone p) = p_BurstTime p"
  "p_Tickets (Clone p) = p_Tickets p" "p_Name (Clone p) = p_Name p"
  by (simp_all add: Clone_def)

lemma NewProcess_fields [simp]:
  "p_State (NewProcess pid n a b) = StateNew" "p_RemainingTime (NewProcess pid n a b) = b"
  "p_StartTime (NewProcess pid n a b) = -1" "p_WaitingTime (NewProcess pid n a b) = 0"
  "p_ArrivalTime (NewProcess pid n a b) = a" "p_BurstTime (NewProcess pid n a b) = b"
  "p_Tickets (NewProcess pid n a b) = 10" "p_Name (NewProcess pid n a b) = n"
  "p_PID (NewProcess pid n a b) = pid"
  by (simp_all add: NewProcess_def)

end
