(* ===== verification/Sched_Spec.thy ===== *)
theory Sched_Spec
  imports CPU_Process
begin

text \<open>
  What every scheduler of \<open>pkg/cpu\<close> promises, independent of its policy. The interface
  \<open>Scheduler\<close> of \<open>pkg/cpu/scheduler.go\<close> is the locale \<open>cpu_scheduler\<close>: its operations are
  \<open>AddProcess\<close> and \<open>Tick\<close>, and its main law says that one \<open>Tick\<close> refines the abstract tick
  \<open>astep\<close> below, which leaves open which ready process is dispatched and whether the running one
  is preempted. The timing invariant, the absence of starvation and the accounting identities
  are proved once for \<open>astep\<close> and inherited by the six schedulers.
\<close>

section \<open>The abstract tick\<close>

text \<open>The fields of a process that the timing metrics depend on.\<close>

record account =
  a_st :: ProcessState
  a_arr :: int
  a_burst :: int
  a_rem :: int
  a_start :: int
  a_fin :: int
  a_wait :: int
  a_turn :: int
  a_resp :: int

definition account_of :: "Process \<Rightarrow> account" where
  "account_of p = \<lparr>a_st = p_State p, a_arr = p_ArrivalTime p, a_burst = p_BurstTime p,
     a_rem = p_RemainingTime p, a_start = p_StartTime p, a_fin = p_FinishTime p,
     a_wait = p_WaitingTime p, a_turn = p_Turnaround p, a_resp = p_ResponseTime p\<rparr>"

definition arrive1 :: "int \<Rightarrow> account \<Rightarrow> account" where
  "arrive1 t a = (if a_arr a = t \<and> a_st a = StateNew then a\<lparr>a_st := StateReady\<rparr> else a)"

definition age1 :: "account \<Rightarrow> account" where
  "age1 a = (if a_st a = StateReady then a\<lparr>a_wait := a_wait a + 1\<rparr> else a)"

definition preempt1 :: "account \<Rightarrow> account" where
  "preempt1 a = (if a_st a = StateRunning then a\<lparr>a_st := StateReady\<rparr> else a)"

definition start1 :: "int \<Rightarrow> account \<Rightarrow> account" where
  "start1 t a = (let b = a\<lparr>a_st := StateRunning\<rparr> in
     if a_start a = -1 then b\<lparr>a_start := t, a_resp := t - a_arr a\<rparr> else b)"

definition run1 :: "int \<Rightarrow> account \<Rightarrow> account" where
  "run1 t a =
     (if a_st a = StateRunning then
        let b = a\<lparr>a_rem := a_rem a - 1\<rparr> in
        if a_rem b = 0
        then b\<lparr>a_st := StateTerminated, a_fin := t + 1, a_turn := t + 1 - a_arr a\<rparr>
        else b
      else a)"

text \<open>
  The choice of a tick: keep the running process, or put it back and start a ready one, or stay
  idle. Staying idle is allowed only when nothing is ready: the schedulers conserve work.
\<close>

inductive dispatch :: "int \<Rightarrow> account list \<Rightarrow> account list \<Rightarrow> bool" for t where
  keep: "\<exists>a\<in>set as. a_st a = StateRunning \<Longrightarrow> dispatch t as as"
| pick: "j < length as \<Longrightarrow> a_st (preempt1 (as ! j)) = StateReady \<Longrightarrow>
     dispatch t as ((map preempt1 as)[j := start1 t (preempt1 (as ! j))])"
| idle: "\<forall>a\<in>set as. a_st a \<noteq> StateRunning \<and> a_st a \<noteq> StateReady \<Longrightarrow> dispatch t as as"

inductive_cases dispatchE: "dispatch t as bs"

definition astep :: "int \<Rightarrow> account list \<Rightarrow> account list \<Rightarrow> bool" where
  "astep t as bs \<longleftrightarrow>
     (\<exists>cs. dispatch t (map (\<lambda>a. age1 (arrive1 t a)) as) cs \<and> bs = map (run1 t) cs)"

fun asteps :: "int \<Rightarrow> nat \<Rightarrow> account list \<Rightarrow> account list \<Rightarrow> bool" where
  "asteps t 0 as bs = (bs = as)"
| "asteps t (Suc n) as bs = (\<exists>cs. astep t as cs \<and> asteps (t + 1) n cs bs)"

section \<open>The timing invariant\<close>

text \<open>
  What holds of one process before the tick at time \<open>t\<close>. The waiting time of a process that has
  run is one more than the time it spent ready, because \<open>Tick\<close> ages the ready queue before it
  dispatches from it.
\<close>

definition started :: "account \<Rightarrow> bool" where
  "started a \<longleftrightarrow> a_arr a \<le> a_start a \<and> a_resp a = a_start a - a_arr a"

definition acct_ok :: "int \<Rightarrow> account \<Rightarrow> bool" where
  "acct_ok t a \<longleftrightarrow> 0 \<le> a_arr a \<and> 0 < a_burst a \<and>
     (case a_st a of
        StateNew \<Rightarrow> t \<le> a_arr a \<and> a_wait a = 0 \<and> a_rem a = a_burst a \<and> a_start a = -1
      | StateReady \<Rightarrow> a_arr a < t \<and> 0 < a_rem a \<and> a_rem a \<le> a_burst a \<and>
          a_wait a + (a_burst a - a_rem a) = t - a_arr a \<and>
          (a_start a = -1 \<and> a_rem a = a_burst a \<or> started a \<and> a_start a < t)
      | StateRunning \<Rightarrow> a_arr a < t \<and> 0 < a_rem a \<and> a_rem a \<le> a_burst a \<and>
          a_wait a + (a_burst a - a_rem a) = t - a_arr a + 1 \<and> started a \<and> a_start a < t
      | StateTerminated \<Rightarrow> a_rem a = 0 \<and> a_fin a \<le> t \<and> a_turn a = a_fin a - a_arr a \<and>
          a_wait a + a_burst a = a_turn a + 1 \<and> started a \<and> a_start a < a_fin a
      | StateBlocked \<Rightarrow> False)"

text \<open>The same in the middle of the tick at \<open>t\<close>, after arrivals and aging.\<close>

definition acct_mid :: "int \<Rightarrow> account \<Rightarrow> bool" where
  "acct_mid t a \<longleftrightarrow> 0 \<le> a_arr a \<and> 0 < a_burst a \<and>
     (case a_st a of
        StateNew \<Rightarrow> t < a_arr a \<and> a_wait a = 0 \<and> a_rem a = a_burst a \<and> a_start a = -1
      | StateReady \<Rightarrow> a_arr a \<le> t \<and> 0 < a_rem a \<and> a_rem a \<le> a_burst a \<and>
          a_wait a + (a_burst a - a_rem a) = t + 1 - a_arr a \<and>
          (a_start a = -1 \<and> a_rem a = a_burst a \<or> started a \<and> a_start a \<le> t)
      | StateRunning \<Rightarrow> a_arr a \<le> t \<and> 0 < a_rem a \<and> a_rem a \<le> a_burst a \<and>
          a_wait a + (a_burst a - a_rem a) = t + 1 - a_arr a \<and> started a \<and> a_start a \<le> t
      | StateTerminated \<Rightarrow> a_rem a = 0 \<and> a_fin a \<le> t \<and> a_turn a = a_fin a - a_arr a \<and>
          a_wait a + a_burst a = a_turn a + 1 \<and> started a \<and> a_start a < a_fin a
      | StateBlocked \<Rightarrow> False)"

definition one_running :: "account list \<Rightarrow> bool" where
  "one_running as \<longleftrightarrow> (\<forall>i < length as. \<forall>j < length as.
     a_st (as ! i) = StateRunning \<longrightarrow> a_st (as ! j) = StateRunning \<longrightarrow> i = j)"

definition accts_ok :: "int \<Rightarrow> account list \<Rightarrow> bool" where
  "accts_ok t as \<longleftrightarrow> (\<forall>a\<in>set as. acct_ok t a) \<and> one_running as"

text \<open>The work that is left, and whether a process is finished.\<close>

definition total_rem :: "account list \<Rightarrow> int" where
  "total_rem as = (\<Sum>a\<leftarrow>as. a_rem a)"

definition all_done :: "account list \<Rightarrow> bool" where
  "all_done as \<longleftrightarrow> (\<forall>a\<in>set as. a_st a = StateTerminated)"

text \<open>A process as \<open>AddProcess\<close> receives it: never run, arriving at \<open>t\<close> or later.\<close>

definition fresh_acct :: "int \<Rightarrow> account \<Rightarrow> bool" where
  "fresh_acct t a \<longleftrightarrow> a_st a = StateNew \<and> 0 \<le> a_arr a \<and> t \<le> a_arr a \<and> 0 < a_burst a \<and>
     a_wait a = 0 \<and> a_rem a = a_burst a \<and> a_start a = -1"

section \<open>Preservation\<close>

lemma arrive_age_mid: "acct_ok t a \<Longrightarrow> acct_mid t (age1 (arrive1 t a))"
  by (cases "a_st a")
     (auto simp: acct_ok_def acct_mid_def arrive1_def age1_def started_def split: if_splits)

lemma preempt_mid: "acct_mid t a \<Longrightarrow> acct_mid t (preempt1 a)"
  by (cases "a_st a") (auto simp: acct_mid_def preempt1_def started_def)

lemma start_mid: "acct_mid t a \<Longrightarrow> a_st a = StateReady \<Longrightarrow> acct_mid t (start1 t a)"
  by (auto simp: acct_mid_def start1_def started_def Let_def split: if_splits)

lemma run_ok: "acct_mid t a \<Longrightarrow> acct_ok (t + 1) (run1 t a)"
  by (cases "a_st a") (auto simp: acct_ok_def acct_mid_def run1_def started_def Let_def)

lemma dispatch_mid:
  "dispatch t as bs \<Longrightarrow> \<forall>a\<in>set as. acct_mid t a \<Longrightarrow> \<forall>b\<in>set bs. acct_mid t b"
  by (erule dispatchE)
     (auto dest!: set_update_subset_insert [THEN subsetD] intro!: start_mid preempt_mid)

lemma preempt1_not_running [simp]: "a_st (preempt1 a) \<noteq> StateRunning"
  by (simp add: preempt1_def)

lemma one_running_dispatch: "dispatch t as bs \<Longrightarrow> one_running as \<Longrightarrow> one_running bs"
  by (erule dispatchE) (auto simp: one_running_def nth_list_update)

lemma one_running_map:
  assumes "one_running as" and "\<And>a. a_st (f a) = StateRunning \<Longrightarrow> a_st a = StateRunning"
  shows "one_running (map f as)"
  using assms by (auto simp: one_running_def)

lemma age_arrive_running:
  "a_st (age1 (arrive1 t a)) = StateRunning \<Longrightarrow> a_st a = StateRunning"
  by (auto simp: age1_def arrive1_def split: if_splits)

lemma run1_running: "a_st (run1 t a) = StateRunning \<Longrightarrow> a_st a = StateRunning"
  by (auto simp: run1_def Let_def split: if_splits)

lemma astep_ok:
  assumes "astep t as bs" and "accts_ok t as"
  shows "accts_ok (t + 1) bs"
proof -
  let ?ms = "map (\<lambda>a. age1 (arrive1 t a)) as"
  from assms(1) obtain cs where d: "dispatch t ?ms cs" and bs: "bs = map (run1 t) cs"
    by (auto simp: astep_def)
  have "\<forall>a\<in>set ?ms. acct_mid t a"
    using assms(2) by (auto simp: accts_ok_def intro: arrive_age_mid)
  with d have "\<forall>a\<in>set cs. acct_mid t a" by (rule dispatch_mid)
  moreover have "one_running cs"
    using assms(2) d by (auto simp: accts_ok_def intro!: one_running_map
      elim!: one_running_dispatch dest: age_arrive_running)
  ultimately show ?thesis
    unfolding bs accts_ok_def by (auto intro: run_ok one_running_map run1_running)
qed

lemma dispatch_length: "dispatch t as bs \<Longrightarrow> length bs = length as"
  by (erule dispatchE) auto

lemma astep_length: "astep t as bs \<Longrightarrow> length bs = length as"
  by (auto simp: astep_def dest: dispatch_length)


text \<open>The arrival and burst times of a process never change.\<close>

definition static_part :: "account \<Rightarrow> int \<times> int" where
  "static_part a = (a_arr a, a_burst a)"

lemma static_phases [simp]:
  "static_part (age1 a) = static_part a" "static_part (arrive1 t a) = static_part a"
  "static_part (preempt1 a) = static_part a" "static_part (start1 t a) = static_part a"
  "static_part (run1 t a) = static_part a"
  by (simp_all add: static_part_def age1_def arrive1_def preempt1_def start1_def run1_def Let_def)

lemma map_update_nth:
  "j < length xs \<Longrightarrow> f y = f (xs ! j) \<Longrightarrow> map f (xs[j := y]) = map f xs"
  by (metis list_update_id map_update nth_map)

lemma dispatch_static: "dispatch t as bs \<Longrightarrow> map static_part bs = map static_part as"
  by (erule dispatchE) (auto simp: map_update intro!: nth_equalityI simp: nth_list_update)

lemma astep_static: "astep t as bs \<Longrightarrow> map static_part bs = map static_part as"
  by (auto simp: astep_def comp_def dest!: dispatch_static)

section \<open>Progress\<close>

text \<open>A process that the tick at \<open>t\<close> can run.\<close>

definition active :: "int \<Rightarrow> account \<Rightarrow> bool" where
  "active t a \<longleftrightarrow> a_st a = StateReady \<or> a_st a = StateRunning \<or> a_st a = StateNew \<and> a_arr a = t"

lemma rem_phases [simp]:
  "a_rem (age1 a) = a_rem a" "a_rem (arrive1 t a) = a_rem a" "a_rem (preempt1 a) = a_rem a"
  "a_rem (start1 t a) = a_rem a"
  "a_rem (run1 t a) = (if a_st a = StateRunning then a_rem a - 1 else a_rem a)"
  by (simp_all add: age1_def arrive1_def preempt1_def start1_def run1_def Let_def)

lemma active_mid:
  "active t a \<longleftrightarrow> a_st (age1 (arrive1 t a)) = StateReady \<or> a_st (age1 (arrive1 t a)) = StateRunning"
  by (auto simp: active_def age1_def arrive1_def)

lemma dispatch_runs:
  assumes "dispatch t as bs"
    and "\<exists>a\<in>set as. a_st a = StateReady \<or> a_st a = StateRunning"
  shows "\<exists>b\<in>set bs. a_st b = StateRunning"
  using assms
proof (cases rule: dispatch.cases)
  case (pick j)
  then have "start1 t (preempt1 (as ! j)) \<in> set bs" by (simp add: set_update_memI)
  moreover have "a_st (start1 t (preempt1 (as ! j))) = StateRunning"
    by (simp add: start1_def Let_def)
  ultimately show ?thesis by blast
qed auto

lemma dispatch_rem:
  assumes "dispatch t as bs"
  shows "map a_rem bs = map a_rem as"
  using assms
proof (cases rule: dispatch.cases)
  case (pick j)
  then show ?thesis
    by (auto simp: map_update intro!: nth_equalityI simp: nth_list_update)
qed auto

lemma dispatch_total: "dispatch t as bs \<Longrightarrow> total_rem bs = total_rem as"
  by (simp add: total_rem_def dispatch_rem)

lemma total_rem_run:
  assumes "one_running as"
  shows "total_rem (map (run1 t) as) =
     total_rem as - (if \<exists>a\<in>set as. a_st a = StateRunning then 1 else 0)"
  using assms
proof (induction as)
  case Nil
  then show ?case by (simp add: total_rem_def)
next
  case (Cons a as)
  from Cons.prems have one: "one_running as"
    unfolding one_running_def by (metis Suc_inject Suc_mono length_Cons nth_Cons_Suc)
  have "a_st a = StateRunning \<Longrightarrow> \<not> (\<exists>b\<in>set as. a_st b = StateRunning)"
    using Cons.prems unfolding one_running_def
    by (metis Suc_mono in_set_conv_nth length_Cons nat.distinct(1) nth_Cons_0 nth_Cons_Suc
        zero_less_Suc)
  with Cons.IH [OF one] show ?case by (auto simp: total_rem_def)
qed

lemma astep_total:
  assumes "astep t as bs" and "one_running as"
  shows "total_rem bs \<le> total_rem as"
    and "\<exists>a\<in>set as. active t a \<Longrightarrow> total_rem bs = total_rem as - 1"
proof -
  let ?ms = "map (\<lambda>a. age1 (arrive1 t a)) as"
  from assms(1) obtain cs where d: "dispatch t ?ms cs" and bs: "bs = map (run1 t) cs"
    by (auto simp: astep_def)
  have "one_running ?ms" by (rule one_running_map [OF assms(2)]) (rule age_arrive_running)
  with d have one: "one_running cs" by (rule one_running_dispatch)
  have "total_rem cs = total_rem as"
    using dispatch_total [OF d] by (simp add: total_rem_def comp_def)
  with total_rem_run [OF one] have
    eq: "total_rem bs = total_rem as - (if \<exists>a\<in>set cs. a_st a = StateRunning then 1 else 0)"
    by (simp add: bs)
  then show "total_rem bs \<le> total_rem as" by simp
  assume "\<exists>a\<in>set as. active t a"
  then have "\<exists>a\<in>set ?ms. a_st a = StateReady \<or> a_st a = StateRunning"
    by (auto simp: active_mid)
  from dispatch_runs [OF d this] eq show "total_rem bs = total_rem as - 1" by simp
qed

lemma acct_ok_rem_nonneg: "acct_ok t a \<Longrightarrow> 0 \<le> a_rem a"
  by (cases "a_st a") (auto simp: acct_ok_def)

lemma acct_ok_rem_zero: "acct_ok t a \<Longrightarrow> a_rem a = 0 \<longleftrightarrow> a_st a = StateTerminated"
  by (cases "a_st a") (auto simp: acct_ok_def)

lemma total_rem_zero_done:
  assumes "\<forall>a\<in>set as. acct_ok t a"
  shows "0 \<le> total_rem as \<and> (total_rem as = 0 \<longleftrightarrow> all_done as)"
  using assms
proof (induction as)
  case Nil
  then show ?case by (simp add: total_rem_def all_done_def)
next
  case (Cons a as)
  then have "0 \<le> a_rem a" "a_rem a = 0 \<longleftrightarrow> a_st a = StateTerminated"
    by (auto intro: acct_ok_rem_nonneg simp: acct_ok_rem_zero)
  with Cons show ?case by (auto simp: total_rem_def all_done_def)
qed

text \<open>
  No starvation: once the last process has arrived, every tick does one unit of work, so any
  policy has finished everything after \<open>M - t\<close> ticks of waiting and one tick per unit of work.
\<close>

lemma asteps_complete:
  assumes "asteps t n as bs" and "accts_ok t as"
    and "\<forall>a\<in>set as. a_arr a \<le> M" and "max 0 (M - t) + total_rem as \<le> int n"
  shows "all_done bs"
  using assms
proof (induction n arbitrary: t as)
  case 0
  then have "total_rem as \<le> 0" by simp
  with 0 total_rem_zero_done [of as t] show ?case by (auto simp: accts_ok_def)
next
  case (Suc n)
  from Suc.prems(1) obtain cs where step: "astep t as cs" and rest: "asteps (t + 1) n cs bs"
    by auto
  have ok: "accts_ok (t + 1) cs" by (rule astep_ok [OF step Suc.prems(2)])
  have one: "one_running as" using Suc.prems(2) by (simp add: accts_ok_def)
  have "map a_arr cs = map a_arr as"
    using arg_cong [OF astep_static [OF step], of "map fst"] by (simp add: static_part_def comp_def)
  then have "a_arr ` set cs = a_arr ` set as" by (metis image_set)
  with Suc.prems(3) have arr: "\<forall>a\<in>set cs. a_arr a \<le> M" by (metis image_iff)
  have "max 0 (M - (t + 1)) + total_rem cs \<le> int n"
  proof (cases "t < M")
    case True
    with Suc.prems(4) astep_total(1) [OF step one] show ?thesis by simp
  next
    case False
    show ?thesis
    proof (cases "all_done as")
      case True
      have "total_rem as = 0" "0 \<le> total_rem cs"
        using total_rem_zero_done [of as t] total_rem_zero_done [of cs "t + 1"] True
          Suc.prems(2) ok by (auto simp: accts_ok_def)
      with astep_total(1) [OF step one] False show ?thesis by simp
    next
      case nd: False
      then obtain a where a: "a \<in> set as" "a_st a \<noteq> StateTerminated" by (auto simp: all_done_def)
      with Suc.prems(2,3) False have "active t a"
        by (cases "a_st a") (force simp: accts_ok_def acct_ok_def active_def)+
      with a(1) have "total_rem cs = total_rem as - 1" by (intro astep_total(2) [OF step one]) blast
      with Suc.prems(4) False show ?thesis by simp
    qed
  qed
  with Suc.IH [OF rest ok arr] show ?case .
qed

lemma asteps_ok: "asteps t n as bs \<Longrightarrow> accts_ok t as \<Longrightarrow> accts_ok (t + int n) bs"
proof (induction n arbitrary: t as)
  case (Suc n)
  then obtain cs where "astep t as cs" "asteps (t + 1) n cs bs" by auto
  with Suc have "accts_ok (t + 1 + int n) bs" by (blast intro: astep_ok)
  then show ?case by (simp add: ac_simps)
qed simp

lemma asteps_length: "asteps t n as bs \<Longrightarrow> length bs = length as"
  by (induction n arbitrary: t as) (auto dest: astep_length)

text \<open>A finished process stays finished and unchanged.\<close>

lemma astep_terminated:
  assumes "astep t as bs" and "i < length as" and "a_st (as ! i) = StateTerminated"
  shows "bs ! i = as ! i"
proof -
  have same: "age1 (arrive1 t (as ! i)) = as ! i" "run1 t (as ! i) = as ! i" "preempt1 (as ! i) = as ! i"
    using assms(3) by (simp_all add: age1_def arrive1_def run1_def preempt1_def)
  from assms(1) obtain cs where
    d: "dispatch t (map (\<lambda>a. age1 (arrive1 t a)) as) cs" and bs: "bs = map (run1 t) cs"
    by (auto simp: astep_def)
  from d have "cs ! i = as ! i"
    by (cases rule: dispatch.cases) (use assms same in \<open>auto simp: nth_list_update\<close>)
  with same assms(2) dispatch_length [OF d] show ?thesis by (simp add: bs)
qed

text \<open>A process whose arrival time has already passed when it is still new is never run.\<close>

lemma astep_missed:
  assumes "astep t as bs" and "\<forall>a\<in>set as. a_st a = StateNew \<and> a_arr a < t"
  shows "bs = as"
proof -
  have same: "map (\<lambda>a. age1 (arrive1 t a)) as = as"
    using assms(2) by (intro map_idI) (auto simp: age1_def arrive1_def)
  from assms(1) obtain cs where d: "dispatch t as cs" and bs: "bs = map (run1 t) cs"
    by (auto simp: astep_def same)
  from d have "cs = as"
  proof (cases rule: dispatch.cases)
    case (pick j)
    with assms(2) show ?thesis by (auto simp: preempt1_def dest!: nth_mem)
  qed auto
  moreover have "map (run1 t) as = as"
    using assms(2) by (intro map_idI) (auto simp: run1_def)
  ultimately show ?thesis by (simp add: bs)
qed

end
