(* ===== verification/Sched_Interface.thy ===== *)
theory Sched_Interface
  imports Sched_Spec
begin

text \<open>
  The interface \<open>Scheduler\<close> of \<open>pkg/cpu/scheduler.go\<close> as the locale \<open>cpu_scheduler\<close>, and the
  loop of \<open>cmd/os-sim/main.go\<close> that drives a scheduler to completion. \<open>Tick\<close> returns
  \<^const>\<open>None\<close> for a Go panic; that it never does is part of the law.
\<close>

section \<open>Driving a scheduler\<close>

text \<open>
  \<open>for t := 0; t < 100; t++ { _, done := s.Tick(t); if done { break } }\<close>, with the number of
  ticks as a parameter.
\<close>

fun run_loop :: "('s \<Rightarrow> int \<Rightarrow> ('s \<times> nat option \<times> bool) option) \<Rightarrow> nat \<Rightarrow> int \<Rightarrow> 's \<Rightarrow> 's option" where
  "run_loop tick 0 t s = Some s"
| "run_loop tick (Suc n) t s =
     (case tick s t of
        None \<Rightarrow> None
      | Some (s', _, done) \<Rightarrow> if done then Some s' else run_loop tick n (t + 1) s')"

text \<open>\<open>for _, p := range procs { s.AddProcess(p.Clone()) }\<close>\<close>

fun add_clones :: "('s \<Rightarrow> Process \<Rightarrow> 's) \<Rightarrow> Process list \<Rightarrow> 's \<Rightarrow> 's" where
  "add_clones add [] s = s"
| "add_clones add (p # ps) s = add_clones add ps (add s (Clone p))"

definition accounts :: "Process list \<Rightarrow> account list" where
  "accounts ps = map account_of ps"

text \<open>What the finished processes of a run satisfy.\<close>

definition finished_ok :: "Process \<Rightarrow> bool" where
  "finished_ok p \<longleftrightarrow> p_State p = StateTerminated \<and> p_RemainingTime p = 0 \<and>
     p_Turnaround p = p_FinishTime p - p_ArrivalTime p \<and>
     p_ResponseTime p = p_StartTime p - p_ArrivalTime p \<and>
     p_ArrivalTime p \<le> p_StartTime p \<and> p_StartTime p < p_FinishTime p \<and>
     p_WaitingTime p + p_BurstTime p = p_Turnaround p + 1"

definition workload :: "Process list \<Rightarrow> bool" where
  "workload ps \<longleftrightarrow> (\<forall>p\<in>set ps. 0 \<le> p_ArrivalTime p \<and> 0 < p_BurstTime p)"

definition enough_ticks :: "Process list \<Rightarrow> nat \<Rightarrow> bool" where
  "enough_ticks ps n \<longleftrightarrow>
     (\<forall>p\<in>set ps. p_ArrivalTime p + (\<Sum>q\<leftarrow>ps. p_BurstTime q) \<le> int n)"

lemma accts_ok_nth:
  "accts_ok t (accounts ps) \<Longrightarrow> i < length ps \<Longrightarrow> acct_ok t (account_of (ps ! i))"
  by (simp add: accts_ok_def accounts_def)

lemma accounts_arrival_cong:
  assumes "astep t (accounts ps) (accounts ps')"
  shows "map p_ArrivalTime ps' = map p_ArrivalTime ps"
  using arg_cong [OF astep_static [OF assms], of "map fst"]
  by (simp add: accounts_def static_part_def comp_def account_of_def)

section \<open>The contract\<close>

locale cpu_scheduler =
  fixes new :: 's
    and add :: "'s \<Rightarrow> Process \<Rightarrow> 's"
    and tick :: "'s \<Rightarrow> int \<Rightarrow> ('s \<times> nat option \<times> bool) option"
    and procs :: "'s \<Rightarrow> Process list"
    and completed :: "'s \<Rightarrow> nat list"
    and busy :: "'s \<Rightarrow> int"
    and gantt :: "'s \<Rightarrow> GanttSegment list"
    and admit :: "Process \<Rightarrow> bool"
    and inv :: "'s \<Rightarrow> bool"
  assumes new_law: "inv new \<and> procs new = [] \<and> busy new = 0 \<and> gantt new = []"
    and add_law: "inv s \<Longrightarrow> admit p \<Longrightarrow> p_State p = StateNew \<Longrightarrow>
          inv (add s p) \<and> procs (add s p) = procs s @ [p] \<and> busy (add s p) = busy s \<and>
          gantt (add s p) = gantt s"
    and tick_law: "inv s \<Longrightarrow> \<exists>s' r done. tick s t = Some (s', r, done) \<and> inv s' \<and>
          astep t (accounts (procs s)) (accounts (procs s')) \<and>
          (\<forall>i. r = Some i \<longleftrightarrow> i < length (procs s') \<and> p_State (procs s' ! i) = StateRunning) \<and>
          done = (length (completed s') = length (procs s') \<and> procs s' \<noteq> [])"
    and tick_trace: "inv s \<Longrightarrow> tick s t = Some (s', r, done) \<Longrightarrow>
          busy s' - busy s = total_rem (accounts (procs s)) - total_rem (accounts (procs s')) \<and>
          (\<exists>seg. gantt s' = gantt s @ [seg] \<and> gs_StartTime seg = t \<and> gs_EndTime seg = t + 1)"
    and completed_law: "inv s \<Longrightarrow> distinct (completed s) \<and>
          (\<forall>i. i \<in> set (completed s) \<longleftrightarrow>
             i < length (procs s) \<and> p_State (procs s ! i) = StateTerminated)"
begin

lemma length_completed:
  assumes "inv s"
  shows "length (completed s) = length (procs s) \<longleftrightarrow> all_done (accounts (procs s))"
proof -
  have c: "distinct (completed s)" "\<And>i. i \<in> set (completed s) \<longleftrightarrow>
      i < length (procs s) \<and> p_State (procs s ! i) = StateTerminated"
    using completed_law [OF assms] by auto
  have sub: "set (completed s) \<subseteq> {..<length (procs s)}" using c(2) by auto
  have "length (completed s) = length (procs s) \<longleftrightarrow> set (completed s) = {..<length (procs s)}"
    using c(1) sub card_subset_eq [OF _ sub] distinct_card [of "completed s"] by auto
  also have "\<dots> \<longleftrightarrow> (\<forall>i < length (procs s). p_State (procs s ! i) = StateTerminated)"
    using c(2) by auto
  also have "\<dots> \<longleftrightarrow> all_done (accounts (procs s))"
    by (auto simp: all_done_def accounts_def account_of_def all_set_conv_all_nth)
  finally show ?thesis .
qed

lemma add_clones_law:
  assumes "inv s" and "\<forall>p\<in>set ps. admit (Clone p)"
  shows "inv (add_clones add ps s) \<and> procs (add_clones add ps s) = procs s @ map Clone ps \<and>
     busy (add_clones add ps s) = busy s \<and> gantt (add_clones add ps s) = gantt s"
  using assms by (induction ps arbitrary: s) (auto simp: add_law)

text \<open>
  The loop returns, and it returns exactly when everything is done or the ticks are used up; in
  both cases the state is reached by abstract ticks.
\<close>

lemma run_loop_asteps:
  assumes "inv s"
  shows "\<exists>s' m. run_loop tick n t s = Some s' \<and> inv s' \<and> m \<le> n \<and>
     asteps t m (accounts (procs s)) (accounts (procs s')) \<and>
     (m = n \<or> all_done (accounts (procs s')))"
  using assms
proof (induction n arbitrary: t s)
  case 0
  then show ?case by (auto intro!: exI [of _ 0])
next
  case (Suc n)
  from tick_law [OF Suc.prems, of t] obtain s1 r d where
    s1: "tick s t = Some (s1, r, d)" "inv s1" "astep t (accounts (procs s)) (accounts (procs s1))"
    and d: "d = (length (completed s1) = length (procs s1) \<and> procs s1 \<noteq> [])"
    by blast
  show ?case
  proof (cases d)
    case True
    with s1 d length_completed [OF s1(2)] show ?thesis
      by (intro exI [of _ s1] exI [of _ 1]) auto
  next
    case False
    from Suc.IH [OF s1(2), of "t + 1"] obtain s' m where
      "run_loop tick n (t + 1) s1 = Some s'" "inv s'" "m \<le> n"
      "asteps (t + 1) m (accounts (procs s1)) (accounts (procs s'))"
      "m = n \<or> all_done (accounts (procs s'))"
      by blast
    with s1 False show ?thesis by (intro exI [of _ s'] exI [of _ "Suc m"]) auto
  qed
qed

text \<open>An invariant that may speak about the time holds at the end of the loop.\<close>

lemma run_loop_invariant:
  assumes "inv s" and "P t s" and "run_loop tick n t s = Some s'"
    and step: "\<And>t s s' r d. inv s \<Longrightarrow> P t s \<Longrightarrow> tick s t = Some (s', r, d) \<Longrightarrow> P (t + 1) s'"
  shows "\<exists>t'. P t' s'"
  using assms(1,2,3)
proof (induction n arbitrary: t s)
  case 0
  then show ?case by auto
next
  case (Suc n)
  from tick_law [OF Suc.prems(1), of t] obtain s1 r d where
    s1: "tick s t = Some (s1, r, d)" "inv s1" by blast
  have P1: "P (t + 1) s1" by (rule step [OF Suc.prems(1,2) s1(1)])
  show ?case
  proof (cases d)
    case True
    with Suc.prems(3) s1 P1 show ?thesis by auto
  next
    case False
    with Suc.prems(3) s1 have "run_loop tick n (t + 1) s1 = Some s'" by simp
    with Suc.IH [OF s1(2) P1] show ?thesis by blast
  qed
qed

lemma accounts_fresh:
  assumes "workload ps"
  shows "accts_ok 0 (accounts (map Clone ps))"
  using assms
  by (auto simp: accts_ok_def acct_ok_def accounts_def account_of_def workload_def one_running_def)

lemma finished_from_accounts:
  assumes "accts_ok t (accounts ps)" and "all_done (accounts ps)" and "p \<in> set ps"
  shows "finished_ok p"
  using assms
  by (auto simp: accts_ok_def acct_ok_def all_done_def accounts_def account_of_def
      finished_ok_def started_def)

text \<open>
  A scheduler that meets the contract finishes every workload, never panics, and leaves every
  process with consistent times.
\<close>

lemma run_completes:
  assumes "workload ps" and "\<forall>p\<in>set ps. admit (Clone p)" and "enough_ticks ps n"
  shows "\<exists>s. run_loop tick n 0 (add_clones add ps new) = Some s \<and> inv s \<and>
     length (procs s) = length ps \<and> (\<forall>p\<in>set (procs s). finished_ok p)"
proof -
  let ?s0 = "add_clones add ps new" and ?M = "Max (insert 0 (p_ArrivalTime ` set ps))"
  have s0: "inv ?s0" "procs ?s0 = map Clone ps"
    using add_clones_law [of new ps] new_law assms(2) by auto
  from run_loop_asteps [OF s0(1), of n 0] obtain s m where
    s: "run_loop tick n 0 ?s0 = Some s" "inv s" "m \<le> n"
      "asteps 0 m (accounts (map Clone ps)) (accounts (procs s))"
      "m = n \<or> all_done (accounts (procs s))"
    by (auto simp: s0)
  have ok0: "accts_ok 0 (accounts (map Clone ps))" by (rule accounts_fresh [OF assms(1)])
  have tot: "total_rem (accounts (map Clone ps)) = (\<Sum>q\<leftarrow>ps. p_BurstTime q)"
    by (simp add: total_rem_def accounts_def account_of_def comp_def)
  have M: "?M \<in> insert 0 (p_ArrivalTime ` set ps)" by (intro Max_in) auto
  have M0: "0 \<le> ?M" by simp
  have Mn: "?M + (\<Sum>q\<leftarrow>ps. p_BurstTime q) \<le> int n"
  proof (cases "ps = []")
    case False
    then obtain p where "p \<in> set ps" by (cases ps) auto
    with assms(1,3) M show ?thesis by (force simp: enough_ticks_def workload_def)
  qed simp
  have fin: "all_done (accounts (procs s))"
  proof (rule disjE [OF s(5)])
    assume "m = n"
    with s(4) have a: "asteps 0 n (accounts (map Clone ps)) (accounts (procs s))" by simp
    show ?thesis
      by (rule asteps_complete [OF a ok0, of ?M])
         (use M0 Mn tot in \<open>auto simp: accounts_def account_of_def\<close>)
  qed
  have len: "length (procs s) = length ps"
    using asteps_length [OF s(4)] by (simp add: accounts_def)
  from s(1,2) len finished_from_accounts [OF asteps_ok [OF s(4) ok0] fin] show ?thesis
    by blast
qed

end

end
