(* ===== verification/Sched_Phases.thy ===== *)
theory Sched_Phases
  imports Sched_Interface
begin

text \<open>
  The parts that the \<open>Tick\<close> methods of \<open>pkg/cpu/sched_*.go\<close> share. The schedulers own the
  process objects through \<open>allProcesses\<close>; the ready queue, the running process and the completed
  list hold references, here indices into \<open>allProcesses\<close>. Every call of \<open>AddProcess\<close> in the
  program passes a freshly made object (\<open>NewProcess\<close> or \<open>Clone\<close>), so the index of a process in
  \<open>allProcesses\<close> identifies it.
\<close>

section \<open>The shared state\<close>

record SchedBase =
  s_allProcesses :: "Process list"
  s_running :: "nat option"
  s_completed :: "nat list"
  s_gantt :: "GanttSegment list"
  s_contextSwitches :: int
  s_busyTime :: int
  s_totalTime :: int

record QueueSched = SchedBase +
  s_readyQueue :: "nat list"

definition upd_proc ::
  "nat \<Rightarrow> (Process \<Rightarrow> Process) \<Rightarrow> 'a SchedBase_scheme \<Rightarrow> 'a SchedBase_scheme" where
  "upd_proc i f s = s\<lparr>s_allProcesses := (s_allProcesses s)[i := f (s_allProcesses s ! i)]\<rparr>"

definition proc :: "'a SchedBase_scheme \<Rightarrow> nat \<Rightarrow> Process" where
  "proc s i = s_allProcesses s ! i"

section \<open>The phases of a tick\<close>

definition arrives :: "int \<Rightarrow> Process \<Rightarrow> bool" where
  "arrives t p \<longleftrightarrow> p_ArrivalTime p = t \<and> p_State p = StateNew"

fun arrive_loop :: "int \<Rightarrow> nat list \<Rightarrow> 'a QueueSched_scheme \<Rightarrow> 'a QueueSched_scheme" where
  "arrive_loop t [] s = s"
| "arrive_loop t (i # is) s = arrive_loop t is
     (if arrives t (proc s i)
      then (upd_proc i (\<lambda>p. p\<lparr>p_State := StateReady\<rparr>) s)\<lparr>s_readyQueue := s_readyQueue s @ [i]\<rparr>
      else s)"

definition arrive_all :: "int \<Rightarrow> 'a QueueSched_scheme \<Rightarrow> 'a QueueSched_scheme" where
  "arrive_all t s = arrive_loop t [0..<length (s_allProcesses s)] s"

fun age_loop :: "nat list \<Rightarrow> 'a SchedBase_scheme \<Rightarrow> 'a SchedBase_scheme" where
  "age_loop [] s = s"
| "age_loop (i # is) s =
     age_loop is (upd_proc i (\<lambda>p. p\<lparr>p_WaitingTime := p_WaitingTime p + 1\<rparr>) s)"

text \<open>The phases before the dispatch.\<close>

definition tick_begin :: "int \<Rightarrow> 'a QueueSched_scheme \<Rightarrow> 'a QueueSched_scheme" where
  "tick_begin t s =
     (let s1 = arrive_all t (s\<lparr>s_totalTime := t + 1\<rparr>) in age_loop (s_readyQueue s1) s1)"

text \<open>\<open>s.running\<close> becomes process \<open>i\<close>.\<close>

definition start_p :: "int \<Rightarrow> Process \<Rightarrow> Process" where
  "start_p t p = (let q = p\<lparr>p_State := StateRunning\<rparr> in
     if p_StartTime q = -1
     then q\<lparr>p_StartTime := t, p_ResponseTime := t - p_ArrivalTime q\<rparr> else q)"

definition start_process :: "int \<Rightarrow> nat \<Rightarrow> 'a SchedBase_scheme \<Rightarrow> 'a SchedBase_scheme" where
  "start_process t i s =
     upd_proc i (start_p t) (s\<lparr>s_running := Some i, s_contextSwitches := s_contextSwitches s + 1\<rparr>)"

text \<open>The running process goes back to \<open>StateReady\<close> and \<open>s.running\<close> becomes nil.\<close>

definition release_running :: "nat \<Rightarrow> 'a SchedBase_scheme \<Rightarrow> 'a SchedBase_scheme" where
  "release_running i s = upd_proc i (\<lambda>p. p\<lparr>p_State := StateReady\<rparr>) (s\<lparr>s_running := None\<rparr>)"

definition segment :: "string \<Rightarrow> int \<Rightarrow> GanttSegment" where
  "segment name t = \<lparr>gs_EntityID = name, gs_StartTime = t, gs_EndTime = t + 1, gs_Color = ''''\<rparr>"

definition finish_p :: "int \<Rightarrow> Process \<Rightarrow> Process" where
  "finish_p t p = p\<lparr>p_State := StateTerminated, p_FinishTime := t + 1,
     p_Turnaround := t + 1 - p_ArrivalTime p\<rparr>"

definition run_current ::
  "int \<Rightarrow> (Process \<Rightarrow> string) \<Rightarrow> 'a SchedBase_scheme \<Rightarrow> 'a SchedBase_scheme" where
  "run_current t label s =
     (case s_running s of
        Some i \<Rightarrow>
          let s1 = upd_proc i (\<lambda>p. p\<lparr>p_RemainingTime := p_RemainingTime p - 1\<rparr>)
                     (s\<lparr>s_busyTime := s_busyTime s + 1\<rparr>);
              s2 = s1\<lparr>s_gantt := s_gantt s1 @ [segment (label (proc s1 i)) t]\<rparr>
          in if p_RemainingTime (proc s2 i) = 0
             then (upd_proc i (finish_p t) s2)
                    \<lparr>s_completed := s_completed s2 @ [i], s_running := None\<rparr>
             else s2
      | None \<Rightarrow> s\<lparr>s_gantt := s_gantt s @ [segment ''IDLE'' t]\<rparr>)"

definition tick_done :: "'a SchedBase_scheme \<Rightarrow> bool" where
  "tick_done s \<longleftrightarrow> length (s_completed s) = length (s_allProcesses s) \<and> 0 < length (s_allProcesses s)"

text \<open>
  The time slice of the round robin and the lottery scheduler: giving up the processor when the
  quantum is used up, and counting the slice while a process runs.
\<close>

record SliceSched = QueueSched +
  s_Quantum :: int
  s_currentSlice :: int

definition slice_expire :: "'a SliceSched_scheme \<Rightarrow> 'a SliceSched_scheme" where
  "slice_expire s =
     (case s_running s of
        Some r \<Rightarrow>
          if s_currentSlice s \<ge> s_Quantum s
          then (release_running r s)\<lparr>s_readyQueue := s_readyQueue s @ [r], s_currentSlice := 0\<rparr>
          else s
      | None \<Rightarrow> s)"

definition slice_run :: "int \<Rightarrow> 'a SliceSched_scheme \<Rightarrow> 'a SliceSched_scheme" where
  "slice_run t s =
     (case s_running s of
        Some i \<Rightarrow>
          let s' = run_current t p_Name (s\<lparr>s_currentSlice := s_currentSlice s + 1\<rparr>)
          in if s_running s' = None then s'\<lparr>s_currentSlice := 0\<rparr> else s'
      | None \<Rightarrow> run_current t p_Name s)"

definition base_add :: "'a SchedBase_scheme \<Rightarrow> Process \<Rightarrow> 'a SchedBase_scheme" where
  "base_add s p = s\<lparr>s_allProcesses := s_allProcesses s @ [p]\<rparr>"

section \<open>References\<close>

text \<open>
  The state of a process says where its reference is: in the ready queue exactly once, in
  \<open>running\<close>, in the completed list exactly once, or nowhere when it has not arrived.
\<close>

definition refs_ok :: "'a SchedBase_scheme \<Rightarrow> nat list \<Rightarrow> bool" where
  "refs_ok s rdy \<longleftrightarrow> distinct rdy \<and> distinct (s_completed s) \<and>
     (\<forall>i. i \<in> set rdy \<longleftrightarrow> i < length (s_allProcesses s) \<and> p_State (proc s i) = StateReady) \<and>
     (\<forall>i. s_running s = Some i \<longleftrightarrow>
        i < length (s_allProcesses s) \<and> p_State (proc s i) = StateRunning) \<and>
     (\<forall>i. i \<in> set (s_completed s) \<longleftrightarrow>
        i < length (s_allProcesses s) \<and> p_State (proc s i) = StateTerminated)"

definition queue_inv :: "'a QueueSched_scheme \<Rightarrow> bool" where
  "queue_inv s \<longleftrightarrow> refs_ok s (s_readyQueue s)"

definition accts :: "'a SchedBase_scheme \<Rightarrow> account list" where
  "accts s = accounts (s_allProcesses s)"

text \<open>What a policy with a single ready queue has to show of its dispatch.\<close>

definition dispatch_ok :: "int \<Rightarrow> 'a QueueSched_scheme \<Rightarrow> 'a QueueSched_scheme \<Rightarrow> bool" where
  "dispatch_ok t s s' \<longleftrightarrow> refs_ok s' (s_readyQueue s') \<and> dispatch t (accts s) (accts s') \<and>
     s_gantt s' = s_gantt s \<and> s_busyTime s' = s_busyTime s"

lemma upd_proc_fields [simp]:
  "s_running (upd_proc i f s) = s_running s" "s_completed (upd_proc i f s) = s_completed s"
  "s_gantt (upd_proc i f s) = s_gantt s" "s_busyTime (upd_proc i f s) = s_busyTime s"
  "s_totalTime (upd_proc i f s) = s_totalTime s"
  "s_contextSwitches (upd_proc i f s) = s_contextSwitches s"
  "length (s_allProcesses (upd_proc i f s)) = length (s_allProcesses s)"
  by (simp_all add: upd_proc_def)

lemma upd_proc_queue [simp]: "s_readyQueue (upd_proc i f s) = s_readyQueue s"
  by (simp add: upd_proc_def)

lemma proc_upd_proc:
  "k < length (s_allProcesses s) \<Longrightarrow>
     proc (upd_proc i f s) k = (if k = i then f (proc s k) else proc s k)"
  by (simp add: proc_def upd_proc_def)

lemma length_accts [simp]: "length (accts s) = length (s_allProcesses s)"
  by (simp add: accts_def accounts_def)

lemma nth_accts: "k < length (s_allProcesses s) \<Longrightarrow> accts s ! k = account_of (proc s k)"
  by (simp add: accts_def accounts_def proc_def)

lemma accts_upd_proc:
  "i < length (s_allProcesses s) \<Longrightarrow> accts (upd_proc i f s) = (accts s)[i := account_of (f (proc s i))]"
  by (simp add: accts_def accounts_def upd_proc_def map_update proc_def)

lemma accts_eqI:
  "length (s_allProcesses s') = length (s_allProcesses s) \<Longrightarrow>
   (\<And>k. k < length (s_allProcesses s) \<Longrightarrow> account_of (proc s' k) = g (account_of (proc s k))) \<Longrightarrow>
   accts s' = map g (accts s)"
  by (intro nth_equalityI) (auto simp: nth_accts)

section \<open>What the phases do\<close>

lemma arrive_loop_spec:
  assumes "distinct is" and "set is \<subseteq> {..<length (s_allProcesses s)}"
  shows "length (s_allProcesses (arrive_loop t is s)) = length (s_allProcesses s) \<and>
     (\<forall>k < length (s_allProcesses s). proc (arrive_loop t is s) k =
        (if k \<in> set is \<and> arrives t (proc s k) then (proc s k)\<lparr>p_State := StateReady\<rparr> else proc s k)) \<and>
     s_readyQueue (arrive_loop t is s) =
        s_readyQueue s @ filter (\<lambda>k. arrives t (proc s k)) is \<and>
     s_running (arrive_loop t is s) = s_running s \<and> s_completed (arrive_loop t is s) = s_completed s \<and>
     s_gantt (arrive_loop t is s) = s_gantt s \<and> s_busyTime (arrive_loop t is s) = s_busyTime s \<and>
     QueueSched.more (arrive_loop t is s) = QueueSched.more s"
  using assms
proof (induction "is" arbitrary: s)
  case Nil
  then show ?case by simp
next
  case (Cons i "is")
  define s1 where "s1 = (if arrives t (proc s i)
      then (upd_proc i (\<lambda>p. p\<lparr>p_State := StateReady\<rparr>) s)\<lparr>s_readyQueue := s_readyQueue s @ [i]\<rparr> else s)"
  have pr: "proc s1 k = (if k = i \<and> arrives t (proc s k) then (proc s k)\<lparr>p_State := StateReady\<rparr> else proc s k)"
    if "k < length (s_allProcesses s)" for k
    using that by (auto simp: proc_def upd_proc_def s1_def)
  have other: "proc s1 k = proc s k" if "k \<in> set is" for k
    using that Cons.prems pr [of k] by auto
  have same: "length (s_allProcesses s1) = length (s_allProcesses s)" "s_running s1 = s_running s"
    "s_completed s1 = s_completed s" "s_gantt s1 = s_gantt s" "s_busyTime s1 = s_busyTime s"
    "QueueSched.more s1 = QueueSched.more s"
    "s_readyQueue s1 = s_readyQueue s @ (if arrives t (proc s i) then [i] else [])"
    by (simp_all add: s1_def upd_proc_def)
  have "filter (\<lambda>k. arrives t (proc s1 k)) is = filter (\<lambda>k. arrives t (proc s k)) is"
    by (intro filter_cong) (auto simp: other)
  moreover have "arrive_loop t (i # is) s = arrive_loop t is s1" by (simp add: s1_def)
  ultimately show ?case
    using Cons.IH [of s1] Cons.prems by (auto simp: same pr other)
qed

lemma age_loop_spec:
  assumes "distinct is" and "set is \<subseteq> {..<length (s_allProcesses s)}"
  shows "length (s_allProcesses (age_loop is s)) = length (s_allProcesses s) \<and>
     (\<forall>k < length (s_allProcesses s). proc (age_loop is s) k =
        (if k \<in> set is then (proc s k)\<lparr>p_WaitingTime := p_WaitingTime (proc s k) + 1\<rparr> else proc s k)) \<and>
     s_running (age_loop is s) = s_running s \<and> s_completed (age_loop is s) = s_completed s \<and>
     s_gantt (age_loop is s) = s_gantt s \<and> s_busyTime (age_loop is s) = s_busyTime s \<and>
     SchedBase.more (age_loop is s) = SchedBase.more s"
  using assms
proof (induction "is" arbitrary: s)
  case Nil
  then show ?case by simp
next
  case (Cons i "is")
  let ?s = "upd_proc i (\<lambda>p. p\<lparr>p_WaitingTime := p_WaitingTime p + 1\<rparr>) s"
  have "SchedBase.more ?s = SchedBase.more s" by (simp add: upd_proc_def)
  with Cons.IH [of ?s] Cons.prems show ?case by (auto simp: proc_upd_proc)
qed


text \<open>Arrivals: the new processes join the ready queue.\<close>

lemma account_of_simps [simp]:
  "a_st (account_of p) = p_State p" "a_arr (account_of p) = p_ArrivalTime p"
  "a_rem (account_of p) = p_RemainingTime p" "a_burst (account_of p) = p_BurstTime p"
  by (simp_all add: account_of_def)

lemma account_of_upd [simp]:
  "account_of (p\<lparr>p_State := x\<rparr>) = (account_of p)\<lparr>a_st := x\<rparr>"
  "account_of (p\<lparr>p_WaitingTime := w\<rparr>) = (account_of p)\<lparr>a_wait := w\<rparr>"
  "account_of (p\<lparr>p_RemainingTime := r\<rparr>) = (account_of p)\<lparr>a_rem := r\<rparr>"
  by (simp_all add: account_of_def)

lemma refs_okI:
  assumes "distinct rdy" and "distinct (s_completed s)"
    and "\<And>i. i \<in> set rdy \<longleftrightarrow> i < length (s_allProcesses s) \<and> p_State (proc s i) = StateReady"
    and "\<And>i. s_running s = Some i \<longleftrightarrow>
      i < length (s_allProcesses s) \<and> p_State (proc s i) = StateRunning"
    and "\<And>i. i \<in> set (s_completed s) \<longleftrightarrow>
      i < length (s_allProcesses s) \<and> p_State (proc s i) = StateTerminated"
  shows "refs_ok s rdy"
  using assms unfolding refs_ok_def by blast

lemma refs_ok_iff:
  assumes "refs_ok s rdy"
  shows "distinct rdy" "distinct (s_completed s)"
    "i \<in> set rdy \<longleftrightarrow> i < length (s_allProcesses s) \<and> p_State (proc s i) = StateReady"
    "s_running s = Some i \<longleftrightarrow> i < length (s_allProcesses s) \<and> p_State (proc s i) = StateRunning"
    "i \<in> set (s_completed s) \<longleftrightarrow>
      i < length (s_allProcesses s) \<and> p_State (proc s i) = StateTerminated"
  using assms unfolding refs_ok_def by blast+

lemma arrives_new: "arrives t p \<Longrightarrow> p_State p = StateNew"
  by (simp add: arrives_def)

lemma refs_okD:
  assumes "refs_ok s rdy"
  shows "i \<in> set rdy \<Longrightarrow> i < length (s_allProcesses s)"
    and "i \<in> set rdy \<Longrightarrow> p_State (proc s i) = StateReady"
    and "s_running s = Some i \<Longrightarrow> i < length (s_allProcesses s)"
    and "s_running s = Some i \<Longrightarrow> p_State (proc s i) = StateRunning"
    and "i < length (s_allProcesses s) \<Longrightarrow> p_State (proc s i) = StateRunning \<longleftrightarrow> s_running s = Some i"
  using assms by (auto simp: refs_ok_def)

lemma arrive_all_spec:
  assumes "refs_ok s (s_readyQueue s)"
  shows "refs_ok (arrive_all t s) (s_readyQueue (arrive_all t s)) \<and>
     accts (arrive_all t s) = map (arrive1 t) (accts s) \<and>
     s_gantt (arrive_all t s) = s_gantt s \<and> s_busyTime (arrive_all t s) = s_busyTime s \<and>
     length (s_allProcesses (arrive_all t s)) = length (s_allProcesses s) \<and>
     s_running (arrive_all t s) = s_running s \<and> s_completed (arrive_all t s) = s_completed s \<and>
     QueueSched.more (arrive_all t s) = QueueSched.more s"
proof -
  let ?is = "[0..<length (s_allProcesses s)]"
  have "set ?is \<subseteq> {..<length (s_allProcesses s)}" by auto
  note spec = arrive_loop_spec [OF distinct_upt this, of t, folded arrive_all_def]
  have len: "length (s_allProcesses (arrive_all t s)) = length (s_allProcesses s)"
    and pr: "\<And>k. k < length (s_allProcesses s) \<Longrightarrow> proc (arrive_all t s) k =
        (if arrives t (proc s k) then (proc s k)\<lparr>p_State := StateReady\<rparr> else proc s k)"
    and rq: "s_readyQueue (arrive_all t s) =
        s_readyQueue s @ filter (\<lambda>k. arrives t (proc s k)) ?is"
    and same: "s_running (arrive_all t s) = s_running s" "s_completed (arrive_all t s) = s_completed s"
      "s_gantt (arrive_all t s) = s_gantt s" "s_busyTime (arrive_all t s) = s_busyTime s"
      "QueueSched.more (arrive_all t s) = QueueSched.more s"
    using spec by simp_all
  have "accts (arrive_all t s) = map (arrive1 t) (accts s)"
    by (rule accts_eqI) (simp_all add: len pr arrive1_def arrives_def)
  moreover have "refs_ok (arrive_all t s) (s_readyQueue (arrive_all t s))"
  proof (rule refs_okI)
    have st: "p_State (proc (arrive_all t s) k) =
        (if arrives t (proc s k) then StateReady else p_State (proc s k))"
      if "k < length (s_allProcesses s)" for k using pr [OF that] by simp
    note ok = refs_ok_iff [OF assms]
    show "distinct (s_readyQueue (arrive_all t s))"
      by (auto simp: rq ok dest: arrives_new)
    show "distinct (s_completed (arrive_all t s))" by (simp add: same ok)
    fix i
    show "i \<in> set (s_readyQueue (arrive_all t s)) \<longleftrightarrow> i < length (s_allProcesses (arrive_all t s)) \<and>
        p_State (proc (arrive_all t s) i) = StateReady"
      by (auto simp: rq len st ok)
    show "s_running (arrive_all t s) = Some i \<longleftrightarrow> i < length (s_allProcesses (arrive_all t s)) \<and>
        p_State (proc (arrive_all t s) i) = StateRunning"
      using arrives_new [of t "proc s i"] by (auto simp: same len st ok split: if_splits)
    show "i \<in> set (s_completed (arrive_all t s)) \<longleftrightarrow> i < length (s_allProcesses (arrive_all t s)) \<and>
        p_State (proc (arrive_all t s) i) = StateTerminated"
      using arrives_new [of t "proc s i"] by (auto simp: same len st ok split: if_splits)
  qed
  ultimately show ?thesis using len same by simp
qed

text \<open>Aging: every process in the ready queue, which is every ready process, waits.\<close>

lemma age_all_spec:
  assumes "refs_ok s rdy"
  shows "refs_ok (age_loop rdy s) rdy \<and> accts (age_loop rdy s) = map age1 (accts s) \<and>
     s_gantt (age_loop rdy s) = s_gantt s \<and> s_busyTime (age_loop rdy s) = s_busyTime s \<and>
     length (s_allProcesses (age_loop rdy s)) = length (s_allProcesses s) \<and>
     s_running (age_loop rdy s) = s_running s \<and> s_completed (age_loop rdy s) = s_completed s \<and>
     SchedBase.more (age_loop rdy s) = SchedBase.more s"
proof -
  have d: "distinct rdy" "set rdy \<subseteq> {..<length (s_allProcesses s)}"
    and mem: "\<And>i. i \<in> set rdy \<longleftrightarrow> i < length (s_allProcesses s) \<and> p_State (proc s i) = StateReady"
    using assms by (auto simp: refs_ok_def)
  note spec = age_loop_spec [OF d]
  have "accts (age_loop rdy s) = map age1 (accts s)"
    using spec mem by (intro accts_eqI) (auto simp: age1_def account_of_def)
  moreover have "refs_ok (age_loop rdy s) rdy"
    using spec assms by (auto simp: refs_ok_def split: if_splits)
  ultimately show ?thesis using spec by simp
qed

text \<open>Putting the running process back, and starting a ready one.\<close>

lemma release_fields [simp]:
  "s_running (release_running r s) = None" "s_completed (release_running r s) = s_completed s"
  "s_gantt (release_running r s) = s_gantt s" "s_busyTime (release_running r s) = s_busyTime s"
  "length (s_allProcesses (release_running r s)) = length (s_allProcesses s)"
  by (simp_all add: release_running_def)

lemma start_fields [simp]:
  "s_running (start_process t i s) = Some i" "s_completed (start_process t i s) = s_completed s"
  "s_gantt (start_process t i s) = s_gantt s" "s_busyTime (start_process t i s) = s_busyTime s"
  "length (s_allProcesses (start_process t i s)) = length (s_allProcesses s)"
  by (simp_all add: start_process_def)

lemma release_spec:
  assumes "refs_ok s rdy" and "s_running s = Some r"
  shows "refs_ok (release_running r s) (rdy @ [r]) \<and>
     accts (release_running r s) = map preempt1 (accts s) \<and>
     s_running (release_running r s) = None"
proof -
  have r: "r < length (s_allProcesses s)" "p_State (proc s r) = StateRunning"
    and uniq: "\<And>k. k < length (s_allProcesses s) \<Longrightarrow> p_State (proc s k) = StateRunning \<longleftrightarrow> k = r"
    using refs_okD [OF assms(1)] assms(2) by auto
  have pr: "\<And>k. k < length (s_allProcesses s) \<Longrightarrow> proc (release_running r s) k =
      (if k = r then (proc s k)\<lparr>p_State := StateReady\<rparr> else proc s k)"
    by (auto simp: release_running_def proc_def upd_proc_def)
  have "accts (release_running r s) = map preempt1 (accts s)"
    using uniq by (intro accts_eqI) (simp_all add: pr preempt1_def)
  moreover have "refs_ok (release_running r s) (rdy @ [r])"
  proof (rule refs_okI)
    have st: "p_State (proc (release_running r s) k) =
        (if k = r then StateReady else p_State (proc s k))"
      if "k < length (s_allProcesses s)" for k using pr [OF that] by simp
    note ok = refs_ok_iff [OF assms(1)]
    show "distinct (rdy @ [r])" "distinct (s_completed (release_running r s))"
      by (auto simp: ok r)
    fix i
    show "i \<in> set (rdy @ [r]) \<longleftrightarrow> i < length (s_allProcesses (release_running r s)) \<and>
        p_State (proc (release_running r s) i) = StateReady"
      by (auto simp: st ok r split: if_splits)
    show "s_running (release_running r s) = Some i \<longleftrightarrow>
        i < length (s_allProcesses (release_running r s)) \<and>
        p_State (proc (release_running r s) i) = StateRunning"
      using uniq by (auto simp: st)
    show "i \<in> set (s_completed (release_running r s)) \<longleftrightarrow>
        i < length (s_allProcesses (release_running r s)) \<and>
        p_State (proc (release_running r s) i) = StateTerminated"
      by (auto simp: st ok r split: if_splits)
  qed
  ultimately show ?thesis by simp
qed

lemma account_of_start_p [simp]: "account_of (start_p t p) = start1 t (account_of p)"
  by (simp add: account_of_def start_p_def start1_def Let_def)

lemma upd_proc_keep:
  assumes "\<And>p. F (f p) = F p"
  shows "F (proc (upd_proc i f s) k) = F (proc s k)"
proof (cases "k < length (s_allProcesses s)")
  case True
  then show ?thesis by (simp add: proc_upd_proc assms)
next
  case False
  then show ?thesis
    by (cases "k = i") (auto simp: proc_def upd_proc_def list_update_beyond)
qed

lemma dispatch_keeps [simp]:
  "p_RemainingTime (proc (start_process t i s) k) = p_RemainingTime (proc s k)"
  "p_RemainingTime (proc (release_running r s) k) = p_RemainingTime (proc s k)"
  "p_BurstTime (proc (start_process t i s) k) = p_BurstTime (proc s k)"
  "p_BurstTime (proc (release_running r s) k) = p_BurstTime (proc s k)"
  "p_Tickets (proc (start_process t i s) k) = p_Tickets (proc s k)"
  "p_Tickets (proc (release_running r s) k) = p_Tickets (proc s k)"
  unfolding start_process_def release_running_def
  by (subst upd_proc_keep; simp add: start_p_def Let_def proc_def)+

lemma accts_start:
  "i < length (s_allProcesses s) \<Longrightarrow>
     accts (start_process t i s) = (accts s)[i := start1 t (accts s ! i)]"
  by (simp add: start_process_def accts_upd_proc nth_accts) (simp add: accts_def proc_def accounts_def)

lemma start_spec:
  assumes "refs_ok s rdy" and "s_running s = None" and "i \<in> set rdy"
    and "distinct rdy'" and "set rdy' = set rdy - {i}"
  shows "refs_ok (start_process t i s) rdy'"
proof -
  have i: "i < length (s_allProcesses s)" "p_State (proc s i) = StateReady"
    using refs_okD [OF assms(1)] assms(3) by auto
  have none: "\<And>k. k < length (s_allProcesses s) \<Longrightarrow> p_State (proc s k) \<noteq> StateRunning"
    using refs_okD(5) [OF assms(1)] assms(2) by simp
  have pr: "\<And>k. k < length (s_allProcesses s) \<Longrightarrow> proc (start_process t i s) k =
      (if k = i then start_p t (proc s k) else proc s k)"
    by (auto simp: start_process_def proc_def upd_proc_def)
  have st: "\<And>p. p_State (start_p t p) = StateRunning" by (simp add: start_p_def Let_def)
  show ?thesis
    using assms(1,4,5) i none by (auto simp: refs_ok_def pr st split: if_splits)
qed

lemma no_running_preempt:
  assumes "refs_ok s rdy" and "s_running s = None"
  shows "map preempt1 (accts s) = accts s"
proof (rule map_idI)
  fix a assume "a \<in> set (accts s)"
  then have "a_st a \<noteq> StateRunning"
    using assms by (auto simp: refs_ok_def in_set_conv_nth nth_accts)
  then show "preempt1 a = a" by (simp add: preempt1_def)
qed

lemma dispatch_start:
  assumes "refs_ok s rdy" and "s_running s = None" and "i \<in> set rdy"
  shows "dispatch t (accts s) (accts (start_process t i s))"
proof -
  have i: "i < length (accts s)" using assms by (auto simp: refs_ok_def)
  have pre: "map preempt1 (accts s) = accts s" by (rule no_running_preempt [OF assms(1,2)])
  then have pi: "preempt1 (accts s ! i) = accts s ! i" using i by (metis nth_map)
  have "a_st (accts s ! i) = StateReady" using assms i by (auto simp: refs_ok_def nth_accts)
  with dispatch.pick [OF i, of t] pre pi i show ?thesis by (simp add: accts_start)
qed

lemma dispatch_release_start:
  assumes "refs_ok s rdy" and "s_running s = Some r" and "i \<in> set (rdy @ [r])"
  shows "dispatch t (accts s) (accts (start_process t i (release_running r s)))"
proof -
  have rel: "refs_ok (release_running r s) (rdy @ [r])"
      "accts (release_running r s) = map preempt1 (accts s)"
    using release_spec [OF assms(1,2)] by auto
  have len: "length (s_allProcesses (release_running r s)) = length (s_allProcesses s)"
    by simp
  have i: "i < length (accts s)" using rel(1) assms(3) len by (auto simp: refs_ok_def)
  have "a_st (accts (release_running r s) ! i) = StateReady"
    using rel(1) assms(3) len i by (auto simp: refs_ok_def nth_accts)
  then have "a_st (preempt1 (accts s ! i)) = StateReady" using rel(2) i by simp
  from dispatch.pick [OF i this, of t] show ?thesis
    using i len rel(2) by (simp add: accts_start)
qed

lemma dispatch_keep:
  assumes "refs_ok s rdy" and "s_running s = Some r"
  shows "dispatch t (accts s) (accts s)"
proof -
  have "r < length (accts s)" "a_st (accts s ! r) = StateRunning"
    using refs_okD [OF assms(1)] assms(2) by (auto simp: nth_accts)
  then show ?thesis by (intro dispatch.keep bexI [of _ "accts s ! r"]) auto
qed

lemma dispatch_idle:
  assumes "refs_ok s []" and "s_running s = None"
  shows "dispatch t (accts s) (accts s)"
  using assms by (intro dispatch.idle) (auto simp: refs_ok_def in_set_conv_nth nth_accts)

text \<open>Running the chosen process for one tick.\<close>

lemma run_current_spec:
  assumes "refs_ok s rdy"
  shows "refs_ok (run_current t label s) rdy \<and>
     accts (run_current t label s) = map (run1 t) (accts s) \<and>
     (\<exists>seg. s_gantt (run_current t label s) = s_gantt s @ [seg] \<and>
        gs_StartTime seg = t \<and> gs_EndTime seg = t + 1) \<and>
     s_busyTime (run_current t label s) =
       s_busyTime s + (if \<exists>a\<in>set (accts s). a_st a = StateRunning then 1 else 0)"
proof (cases "s_running s")
  case None
  then have nr: "\<not> (\<exists>a\<in>set (accts s). a_st a = StateRunning)"
    using assms by (auto simp: refs_ok_def in_set_conv_nth nth_accts)
  have "map (run1 t) (accts s) = accts s"
    using nr by (intro map_idI) (auto simp: run1_def)
  moreover have "accts (run_current t label s) = accts s"
    using None by (simp add: run_current_def accts_def)
  moreover have "refs_ok (run_current t label s) rdy"
    using assms None by (simp add: refs_ok_def run_current_def proc_def)
  ultimately show ?thesis
    using None nr by (auto simp: run_current_def segment_def)
next
  case (Some i)
  then have i: "i < length (s_allProcesses s)" "p_State (proc s i) = StateRunning"
    and uniq: "\<And>k. k < length (s_allProcesses s) \<Longrightarrow> p_State (proc s k) = StateRunning \<longleftrightarrow> k = i"
    using refs_okD [OF assms] by auto
  have ex: "\<exists>a\<in>set (accts s). a_st a = StateRunning"
    using i nth_mem [of i "accts s"] by (intro bexI [of _ "accts s ! i"]) (auto simp: nth_accts)
  define p1 where "p1 = (proc s i)\<lparr>p_RemainingTime := p_RemainingTime (proc s i) - 1\<rparr>"
  let ?fin = "p_RemainingTime p1 = 0"
  have pr: "\<And>k. k < length (s_allProcesses s) \<Longrightarrow> proc (run_current t label s) k =
      (if k = i then (if ?fin then finish_p t p1 else p1) else proc s k)"
    using Some i by (auto simp: run_current_def Let_def proc_def upd_proc_def p1_def)
  have fields: "length (s_allProcesses (run_current t label s)) = length (s_allProcesses s)"
    "s_completed (run_current t label s) = s_completed s @ (if ?fin then [i] else [])"
    "s_running (run_current t label s) = (if ?fin then None else Some i)"
    "s_busyTime (run_current t label s) = s_busyTime s + 1"
    "s_gantt (run_current t label s) = s_gantt s @ [segment (label p1) t]"
    using Some i by (simp_all add: run_current_def Let_def proc_def upd_proc_def p1_def)
  have st: "p_State p1 = StateRunning" "p_State (finish_p t p1) = StateTerminated"
    using i by (simp_all add: p1_def finish_p_def)
  have "accts (run_current t label s) = map (run1 t) (accts s)"
    by (rule accts_eqI)
       (use i uniq in \<open>auto simp: pr fields run1_def p1_def finish_p_def account_of_def Let_def\<close>)
  moreover have "refs_ok (run_current t label s) rdy"
  proof (rule refs_okI)
    note ok = refs_ok_iff [OF assms]
    have stt: "p_State (proc (run_current t label s) k) =
        (if k = i \<and> ?fin then StateTerminated else p_State (proc s k))"
      if "k < length (s_allProcesses s)" for k using pr [OF that] i st by simp
    show "distinct rdy" by (rule ok)
    show "distinct (s_completed (run_current t label s))" using i by (auto simp: fields ok)
    fix k
    show "k \<in> set rdy \<longleftrightarrow> k < length (s_allProcesses (run_current t label s)) \<and>
        p_State (proc (run_current t label s) k) = StateReady"
      using i by (auto simp: fields ok stt split: if_splits)
    show "s_running (run_current t label s) = Some k \<longleftrightarrow>
        k < length (s_allProcesses (run_current t label s)) \<and>
        p_State (proc (run_current t label s) k) = StateRunning"
      using i uniq [of k] by (auto simp: fields stt split: if_splits)
    show "k \<in> set (s_completed (run_current t label s)) \<longleftrightarrow>
        k < length (s_allProcesses (run_current t label s)) \<and>
        p_State (proc (run_current t label s) k) = StateTerminated"
      using i by (auto simp: fields ok stt split: if_splits)
  qed
  ultimately show ?thesis
    using ex by (auto simp: fields segment_def)
qed

section \<open>A whole tick\<close>

lemma accts_cong: "s_allProcesses s' = s_allProcesses s \<Longrightarrow> accts s' = accts s"
  by (simp add: accts_def)

lemma refs_ok_cong:
  "s_allProcesses s' = s_allProcesses s \<Longrightarrow> s_running s' = s_running s \<Longrightarrow>
   s_completed s' = s_completed s \<Longrightarrow> distinct rdy' = distinct rdy \<Longrightarrow> set rdy' = set rdy \<Longrightarrow>
   refs_ok s' rdy' = refs_ok s rdy"
  by (simp add: refs_ok_def proc_def)

lemma readyQueue_more: "SchedBase.more s' = SchedBase.more s \<Longrightarrow> s_readyQueue s' = s_readyQueue s"
  by (metis QueueSched.surjective QueueSched.ext_inject SchedBase.surjective QueueSched.select_convs(1)
      SchedBase.select_convs(8))

lemma tick_begin_spec:
  assumes "refs_ok s (s_readyQueue s)"
  shows "refs_ok (tick_begin t s) (s_readyQueue (tick_begin t s)) \<and>
     accts (tick_begin t s) = map (\<lambda>a. age1 (arrive1 t a)) (accts s) \<and>
     s_gantt (tick_begin t s) = s_gantt s \<and> s_busyTime (tick_begin t s) = s_busyTime s \<and>
     s_running (tick_begin t s) = s_running s \<and>
     length (s_allProcesses (tick_begin t s)) = length (s_allProcesses s)"
proof -
  let ?s0 = "s\<lparr>s_totalTime := t + 1\<rparr>"
  let ?s1 = "arrive_all t ?s0"
  have "refs_ok ?s0 (s_readyQueue ?s0)"
    using assms by (simp add: refs_ok_def proc_def)
  note a = arrive_all_spec [OF this, of t]
  then have "refs_ok ?s1 (s_readyQueue ?s1)" by blast
  note b = age_all_spec [OF this]
  then have "s_readyQueue (age_loop (s_readyQueue ?s1) ?s1) = s_readyQueue ?s1"
    by (intro readyQueue_more) blast
  moreover have "accts ?s0 = accts s" by (rule accts_cong) simp
  ultimately show ?thesis
    using a b by (simp add: tick_begin_def Let_def comp_def)
qed

lemma refs_ok_one_running: "refs_ok s rdy \<Longrightarrow> one_running (accts s)"
  unfolding one_running_def by (auto simp: nth_accts refs_okD(5))

lemma accts_running:
  assumes "refs_ok s rdy"
  shows "s_running s = Some i \<longleftrightarrow>
     i < length (s_allProcesses s) \<and> p_State (s_allProcesses s ! i) = StateRunning"
  using refs_ok_iff(4) [OF assms] by (simp add: proc_def)

lemma run_current_queue [simp]: "s_readyQueue (run_current t label s) = s_readyQueue s"
  by (simp add: run_current_def Let_def split: option.split)

lemma start_process_queue [simp]: "s_readyQueue (start_process t i s) = s_readyQueue s"
  by (simp add: start_process_def)

lemma release_queue [simp]: "s_readyQueue (release_running r s) = s_readyQueue s"
  by (simp add: release_running_def)

text \<open>
  The end of a tick: once the dispatch has made one of the allowed choices, running the chosen
  process completes an abstract tick, and the clock bookkeeping follows the work done.
\<close>

lemma tick_finish:
  assumes d: "dispatch t (map (\<lambda>a. age1 (arrive1 t a)) (accts s)) (accts s2)"
    and ok: "refs_ok s2 rdy" and g: "s_gantt s2 = s_gantt s" and b: "s_busyTime s2 = s_busyTime s"
    and s3: "s3 = run_current t label s2"
  shows "refs_ok s3 rdy" and "astep t (accts s) (accts s3)"
    and "s_busyTime s3 - s_busyTime s = total_rem (accts s) - total_rem (accts s3)"
    and "\<exists>seg. s_gantt s3 = s_gantt s @ [seg] \<and> gs_StartTime seg = t \<and> gs_EndTime seg = t + 1"
proof -
  note r = run_current_spec [OF ok, of t label, folded s3]
  show "refs_ok s3 rdy" using r by simp
  show "astep t (accts s) (accts s3)" using r d unfolding astep_def by blast
  have "total_rem (accts s2) = total_rem (accts s)"
    using dispatch_total [OF d] by (simp add: total_rem_def comp_def)
  with r total_rem_run [OF refs_ok_one_running [OF ok], of t] b
  show "s_busyTime s3 - s_busyTime s = total_rem (accts s) - total_rem (accts s3)" by simp
  show "\<exists>seg. s_gantt s3 = s_gantt s @ [seg] \<and> gs_StartTime seg = t \<and> gs_EndTime seg = t + 1"
    using r g by simp
qed

text \<open>The same as the contract of the interface asks for it.\<close>

lemma tick_contract:
  assumes "dispatch t (map (\<lambda>a. age1 (arrive1 t a)) (accts s)) (accts s2)" and "refs_ok s2 rdy"
    and "s_gantt s2 = s_gantt s" and "s_busyTime s2 = s_busyTime s"
    and "s3 = run_current t label s2"
  shows "refs_ok s3 rdy \<and> astep t (accounts (s_allProcesses s)) (accounts (s_allProcesses s3)) \<and>
     (\<forall>i. s_running s3 = Some i \<longleftrightarrow>
        i < length (s_allProcesses s3) \<and> p_State (s_allProcesses s3 ! i) = StateRunning) \<and>
     tick_done s3 =
       (length (s_completed s3) = length (s_allProcesses s3) \<and> s_allProcesses s3 \<noteq> []) \<and>
     s_busyTime s3 - s_busyTime s =
       total_rem (accounts (s_allProcesses s)) - total_rem (accounts (s_allProcesses s3)) \<and>
     (\<exists>seg. s_gantt s3 = s_gantt s @ [seg] \<and> gs_StartTime seg = t \<and> gs_EndTime seg = t + 1)"
  using tick_finish [OF assms] accts_running [OF tick_finish(1) [OF assms]]
  by (simp add: accts_def tick_done_def)

lemma queue_tick_contract:
  assumes "queue_inv s" and "dispatch_ok t (tick_begin t s) s2" and "s' = run_current t label s2"
  shows "queue_inv s' \<and> astep t (accounts (s_allProcesses s)) (accounts (s_allProcesses s')) \<and>
     (\<forall>i. s_running s' = Some i \<longleftrightarrow>
        i < length (s_allProcesses s') \<and> p_State (s_allProcesses s' ! i) = StateRunning) \<and>
     tick_done s' =
       (length (s_completed s') = length (s_allProcesses s') \<and> s_allProcesses s' \<noteq> []) \<and>
     s_busyTime s' - s_busyTime s =
       total_rem (accounts (s_allProcesses s)) - total_rem (accounts (s_allProcesses s')) \<and>
     (\<exists>seg. s_gantt s' = s_gantt s @ [seg] \<and> gs_StartTime seg = t \<and> gs_EndTime seg = t + 1)"
proof -
  note b = tick_begin_spec [OF assms(1) [unfolded queue_inv_def], of t]
  have d: "dispatch t (map (\<lambda>a. age1 (arrive1 t a)) (accts s)) (accts s2)"
    and o: "refs_ok s2 (s_readyQueue s2)"
    and g: "s_gantt s2 = s_gantt s" "s_busyTime s2 = s_busyTime s"
    using b assms(2) by (simp_all add: dispatch_ok_def)
  have "s_readyQueue s' = s_readyQueue s2" by (simp add: assms(3))
  with tick_contract [OF d o g assms(3)] show ?thesis unfolding queue_inv_def by simp
qed

text \<open>The two ways a dispatch takes a process from the ready queue.\<close>

lemma start_from_queue:
  assumes "refs_ok s rdy" and "s_running s = None" and "i \<in> set rdy"
    and "distinct q" and "set q = set rdy - {i}"
    and "s' = start_process t i (s\<lparr>s_readyQueue := q\<rparr>)"
  shows "dispatch_ok t s s'"
proof -
  let ?s = "s\<lparr>s_readyQueue := q\<rparr>"
  have ok: "refs_ok ?s rdy" using assms(1) by (simp add: refs_ok_def proc_def)
  have "accts ?s = accts s" by (rule accts_cong) simp
  with start_spec [OF ok _ assms(3,4,5), of t] dispatch_start [OF ok _ assms(3), of t] assms(2,6)
  show ?thesis by (simp add: dispatch_ok_def)
qed

lemma switch_from_queue:
  assumes "refs_ok s rdy" and "s_running s = Some r" and "i \<in> set rdy \<or> i = r"
    and "distinct q" and "set q = insert r (set rdy) - {i}"
    and "s' = start_process t i ((release_running r s)\<lparr>s_readyQueue := q\<rparr>)"
  shows "dispatch_ok t s s'"
proof -
  let ?r = "release_running r s"
  let ?s = "?r\<lparr>s_readyQueue := q\<rparr>"
  have "refs_ok ?r (rdy @ [r])" using release_spec [OF assms(1,2)] by blast
  then have ok: "refs_ok ?s (rdy @ [r])" by (simp add: refs_ok_def proc_def)
  have "accts (start_process t i ?s) = accts (start_process t i ?r)"
    by (rule accts_cong) (simp add: start_process_def upd_proc_def)
  with start_spec [OF ok, of i q t] dispatch_release_start [OF assms(1,2), of i t] assms(3-6)
  show ?thesis by (auto simp: dispatch_ok_def)
qed

text \<open>Adding a fresh process keeps the references.\<close>

lemma base_add_ok:
  assumes "refs_ok s rdy" and "p_State p = StateNew"
  shows "refs_ok (base_add s p) rdy"
proof -
  note ok = refs_ok_iff [OF assms(1)]
  have st: "p_State (proc (base_add s p) k) =
      (if k < length (s_allProcesses s) then p_State (proc s k) else StateNew)"
    if "k < Suc (length (s_allProcesses s))" for k
    using that assms(2) by (auto simp: proc_def base_add_def nth_append less_Suc_eq)
  have len: "length (s_allProcesses (base_add s p)) = Suc (length (s_allProcesses s))"
    "s_running (base_add s p) = s_running s" "s_completed (base_add s p) = s_completed s"
    by (simp_all add: base_add_def)
  show ?thesis
    by (rule refs_okI) (auto simp: ok len st split: if_splits)
qed

lemma queue_add_law:
  assumes "queue_inv s" and "p_State p = StateNew"
  shows "queue_inv (base_add s p)"
proof -
  have "s_readyQueue (base_add s p) = s_readyQueue s" by (simp add: base_add_def)
  with base_add_ok [OF assms(1) [unfolded queue_inv_def] assms(2)] show ?thesis
    by (simp add: queue_inv_def)
qed

lemma base_add_fields [simp]:
  "s_allProcesses (base_add s p) = s_allProcesses s @ [p]" "s_busyTime (base_add s p) = s_busyTime s"
  "s_gantt (base_add s p) = s_gantt s" "s_completed (base_add s p) = s_completed s"
  "s_running (base_add s p) = s_running s"
  by (simp_all add: base_add_def)

lemma queue_completed_law:
  "queue_inv s \<Longrightarrow> distinct (s_completed s) \<and> (\<forall>i. i \<in> set (s_completed s) \<longleftrightarrow>
     i < length (s_allProcesses s) \<and> p_State (s_allProcesses s ! i) = StateTerminated)"
  using refs_ok_iff(2,5) [of s "s_readyQueue s"] by (simp add: queue_inv_def proc_def)

lemma dispatch_ok_same:
  assumes "queue_inv s" and "s_running s \<noteq> None \<or> s_readyQueue s = []"
  shows "dispatch_ok t s s"
proof (cases "s_running s")
  case None
  with assms show ?thesis
    using dispatch_idle [of s t] by (simp add: queue_inv_def dispatch_ok_def)
next
  case (Some r)
  with assms(1) dispatch_keep [of s "s_readyQueue s" r t] show ?thesis
    by (simp add: queue_inv_def dispatch_ok_def)
qed

lemma queue_inv_tick_begin: "queue_inv s \<Longrightarrow> queue_inv (tick_begin t s)"
  using tick_begin_spec [of s t] by (simp add: queue_inv_def)

lemma arrive_loop_shape: "\<exists>ps q. arrive_loop t is s = s\<lparr>s_allProcesses := ps, s_readyQueue := q\<rparr>"
proof (induction "is" arbitrary: s)
  case Nil
  show ?case by (intro exI [of _ "s_allProcesses s"] exI [of _ "s_readyQueue s"]) simp
next
  case (Cons i "is")
  let ?s = "(upd_proc i (\<lambda>p. p\<lparr>p_State := StateReady\<rparr>) s)\<lparr>s_readyQueue := s_readyQueue s @ [i]\<rparr>"
  from Cons.IH [of s] Cons.IH [of ?s] show ?case by (auto simp: upd_proc_def)
qed

lemma age_loop_shape: "\<exists>ps. age_loop is s = s\<lparr>s_allProcesses := ps\<rparr>"
proof (induction "is" arbitrary: s)
  case Nil
  show ?case by (intro exI [of _ "s_allProcesses s"]) simp
next
  case (Cons i "is")
  from Cons.IH [of "upd_proc i (\<lambda>p. p\<lparr>p_WaitingTime := p_WaitingTime p + 1\<rparr>) s"] show ?case
    by (auto simp: upd_proc_def)
qed

lemma tick_begin_shape:
  "\<exists>q ps. tick_begin t s = s\<lparr>s_totalTime := t + 1, s_readyQueue := q, s_allProcesses := ps\<rparr>"
proof -
  obtain ps q where
    "arrive_all t (s\<lparr>s_totalTime := t + 1\<rparr>) =
       s\<lparr>s_totalTime := t + 1, s_allProcesses := ps, s_readyQueue := q\<rparr>"
    using arrive_loop_shape unfolding arrive_all_def by blast
  with age_loop_shape [of q "s\<lparr>s_totalTime := t + 1, s_allProcesses := ps, s_readyQueue := q\<rparr>"]
  show ?thesis by (auto simp: tick_begin_def Let_def)
qed

lemma tick_begin_slice [simp]:
  "s_running (tick_begin t s') = s_running s'" "s_completed (tick_begin t s') = s_completed s'"
  "s_Quantum (tick_begin t s) = s_Quantum s" "s_currentSlice (tick_begin t s) = s_currentSlice s"
  using tick_begin_shape [of t s] tick_begin_shape [of t s'] by auto

lemma tick_begin_queue:
  "s_readyQueue (tick_begin t s) =
     s_readyQueue s @ filter (\<lambda>k. arrives t (proc s k)) [0..<length (s_allProcesses s)]"
proof -
  let ?s0 = "s\<lparr>s_totalTime := t + 1\<rparr>"
  let ?s1 = "arrive_all t ?s0"
  have "s_readyQueue ?s1 =
      s_readyQueue s @ filter (\<lambda>k. arrives t (proc s k)) [0..<length (s_allProcesses s)]"
    using arrive_loop_spec [OF distinct_upt, of 0 "length (s_allProcesses s)" ?s0 t]
    by (simp add: arrive_all_def proc_def lessThan_atLeast0)
  moreover have "s_readyQueue (age_loop q s1) = s_readyQueue s1" for q and s1 :: "'a QueueSched_scheme"
    using age_loop_shape [of q s1] by auto
  ultimately show ?thesis by (simp add: tick_begin_def Let_def)
qed

text \<open>
  What a tick shows to the outside: the process that was running after the dispatch has lost one
  unit of work, and the processes left in the queue are the ready ones.
\<close>

lemma tick_view:
  assumes "queue_inv s" and "dispatch_ok t (tick_begin t s) s2" and "s' = run_current t label s2"
    and "i < length (s_allProcesses s)"
  shows "p_RemainingTime (proc s2 i) = p_RemainingTime (proc s i)"
    and "p_BurstTime (proc s2 i) = p_BurstTime (proc s i)"
    and "p_RemainingTime (proc s' i) =
       p_RemainingTime (proc s i) - (if s_running s2 = Some i then 1 else 0)"
    and "p_State (proc s' i) = StateReady \<longleftrightarrow> i \<in> set (s_readyQueue s2)"
proof -
  let ?b = "tick_begin t s"
  note b = tick_begin_spec [OF assms(1) [unfolded queue_inv_def], of t]
  have d: "dispatch t (accts ?b) (accts s2)" and ok: "refs_ok s2 (s_readyQueue s2)"
    using assms(2) by (simp_all add: dispatch_ok_def)
  note r = run_current_spec [OF ok, of t label, folded assms(3)]
  have len2: "length (s_allProcesses s2) = length (s_allProcesses s)"
    using dispatch_length [OF d] b by simp
  have "length (accts s') = length (accts s2)" using r by simp
  then have len3: "length (s_allProcesses s') = length (s_allProcesses s)" using len2 by simp
  have eq: "a_rem (accts s2 ! i) = a_rem (accts s ! i)" "static_part (accts s2 ! i) = static_part (accts s ! i)"
    using arg_cong [OF dispatch_rem [OF d], of "\<lambda>xs. xs ! i"]
      arg_cong [OF dispatch_static [OF d], of "\<lambda>xs. xs ! i"] b len2 assms(4) by simp_all
  then show rem: "p_RemainingTime (proc s2 i) = p_RemainingTime (proc s i)"
    and "p_BurstTime (proc s2 i) = p_BurstTime (proc s i)"
    using assms(4) len2 by (simp_all add: nth_accts static_part_def)
  have "accts s' ! i = run1 t (accts s2 ! i)" using r len2 assms(4) by simp
  then have "a_rem (accts s' ! i) =
      a_rem (accts s2 ! i) - (if a_st (accts s2 ! i) = StateRunning then 1 else 0)" by simp
  then show "p_RemainingTime (proc s' i) =
       p_RemainingTime (proc s i) - (if s_running s2 = Some i then 1 else 0)"
    using refs_ok_iff(4) [OF ok, of i] rem assms(4) len2 len3 by (simp add: nth_accts)
  show "p_State (proc s' i) = StateReady \<longleftrightarrow> i \<in> set (s_readyQueue s2)"
    using refs_ok_iff(3) [OF conjunct1 [OF r], of i] assms(4) len3 by simp
qed

section \<open>Time slices\<close>

lemma dispatch_ok_cong:
  "s_allProcesses s2 = s_allProcesses s1 \<Longrightarrow> s_running s2 = s_running s1 \<Longrightarrow>
   s_completed s2 = s_completed s1 \<Longrightarrow> s_gantt s2 = s_gantt s1 \<Longrightarrow> s_busyTime s2 = s_busyTime s1 \<Longrightarrow>
   s_readyQueue s2 = s_readyQueue s1 \<Longrightarrow> dispatch_ok t s s2 = dispatch_ok t s s1"
  by (simp add: dispatch_ok_def refs_ok_def proc_def accts_def)

lemma slice_expire_cases:
  obtains (keep) "slice_expire s = s" "s_running s = None \<or> s_currentSlice s < s_Quantum s"
  | (expired) r where "s_running s = Some r" "s_currentSlice s \<ge> s_Quantum s"
      "slice_expire s =
        (release_running r s)\<lparr>s_readyQueue := s_readyQueue s @ [r], s_currentSlice := 0\<rparr>"
  by (cases "s_running s"; cases "s_currentSlice s < s_Quantum s") (auto simp: slice_expire_def)

lemma slice_expire_fields:
  "s_Quantum (slice_expire s) = s_Quantum s"
  "s_currentSlice (slice_expire s) =
     (if s_running s \<noteq> None \<and> s_Quantum s \<le> s_currentSlice s then 0 else s_currentSlice s)"
  "s_running (slice_expire s) = (if s_Quantum s \<le> s_currentSlice s then None else s_running s)"
  "s_readyQueue (slice_expire s) = s_readyQueue s @
     (case s_running s of Some r \<Rightarrow> if s_Quantum s \<le> s_currentSlice s then [r] else [] | None \<Rightarrow> [])"
  by (auto simp: slice_expire_def release_running_def upd_proc_def split: option.split)

lemma run_current_running:
  "s_running (run_current t label s) = Some i \<Longrightarrow> s_running s = Some i"
  by (auto simp: run_current_def Let_def split: option.splits if_splits)

lemma queue_inv_expire: "queue_inv s \<Longrightarrow> queue_inv (slice_expire s)"
proof (cases s rule: slice_expire_cases)
  case (expired r)
  assume "queue_inv s"
  then have "refs_ok (release_running r s) (s_readyQueue s @ [r])"
    using release_spec [OF _ expired(1)] by (simp add: queue_inv_def)
  then show ?thesis by (simp add: expired queue_inv_def refs_ok_def proc_def)
qed simp

lemma slice_dispatch_same:
  assumes "queue_inv s" and "s_running (slice_expire s) \<noteq> None \<or> s_readyQueue (slice_expire s) = []"
  shows "dispatch_ok t s (slice_expire s)"
proof (cases s rule: slice_expire_cases)
  case keep
  with dispatch_ok_same [OF assms(1), of t] assms(2) show ?thesis by simp
next
  case (expired r)
  with assms(2) show ?thesis by simp
qed

lemma slice_dispatch_start:
  assumes "queue_inv s" and "s_running (slice_expire s) = None"
    and "i \<in> set (s_readyQueue (slice_expire s))"
    and "distinct q" and "set q = set (s_readyQueue (slice_expire s)) - {i}"
  shows "dispatch_ok t s
     ((start_process t i ((slice_expire s)\<lparr>s_readyQueue := q\<rparr>))\<lparr>s_currentSlice := 0\<rparr>)"
proof (cases s rule: slice_expire_cases)
  case keep
  have ok: "refs_ok s (s_readyQueue s)" using assms(1) by (simp add: queue_inv_def)
  have "dispatch_ok t s (start_process t i (s\<lparr>s_readyQueue := q\<rparr>))"
    by (rule start_from_queue [OF ok]) (use assms keep in simp_all)
  then show ?thesis by (simp add: keep dispatch_ok_def refs_ok_def proc_def accts_def)
next
  case (expired r)
  have ok: "refs_ok s (s_readyQueue s)" using assms(1) by (simp add: queue_inv_def)
  have d: "dispatch_ok t s (start_process t i ((release_running r s)\<lparr>s_readyQueue := q\<rparr>))"
    by (rule switch_from_queue [OF ok expired(1)]) (use assms expired in auto)
  show ?thesis
    by (subst dispatch_ok_cong [OF _ _ _ _ _ _, THEN iffD2, OF _ _ _ _ _ _ d])
       (simp_all add: expired start_process_def upd_proc_def release_running_def)
qed

lemma run_current_slice:
  "run_current t label (s\<lparr>s_currentSlice := x\<rparr>) = (run_current t label s)\<lparr>s_currentSlice := x\<rparr>"
  by (simp add: run_current_def Let_def upd_proc_def proc_def split: option.split)

lemma run_current_slice_fields [simp]:
  "s_currentSlice (run_current t label s) = s_currentSlice s"
  "s_Quantum (run_current t label s) = s_Quantum s"
  by (simp_all add: run_current_def Let_def upd_proc_def split: option.split)

lemma slice_run_fields [simp]:
  "s_allProcesses (slice_run t s) = s_allProcesses (run_current t p_Name s)"
  "s_running (slice_run t s) = s_running (run_current t p_Name s)"
  "s_completed (slice_run t s) = s_completed (run_current t p_Name s)"
  "s_gantt (slice_run t s) = s_gantt (run_current t p_Name s)"
  "s_busyTime (slice_run t s) = s_busyTime (run_current t p_Name s)"
  "s_readyQueue (slice_run t s) = s_readyQueue s"
  "s_Quantum (slice_run t s) = s_Quantum s"
  "s_currentSlice (slice_run t s) =
     (if s_running s = None then s_currentSlice s
      else if s_running (run_current t p_Name s) = None then 0 else s_currentSlice s + 1)"
  by (simp_all add: slice_run_def run_current_slice Let_def split: option.split)

text \<open>The contract for a policy that counts slices.\<close>

lemma slice_tick_contract:
  assumes "queue_inv s" and "dispatch_ok t (tick_begin t s) s2" and "s' = slice_run t s2"
  shows "queue_inv s' \<and> astep t (accounts (s_allProcesses s)) (accounts (s_allProcesses s')) \<and>
     (\<forall>i. s_running s' = Some i \<longleftrightarrow>
        i < length (s_allProcesses s') \<and> p_State (s_allProcesses s' ! i) = StateRunning) \<and>
     tick_done s' =
       (length (s_completed s') = length (s_allProcesses s') \<and> s_allProcesses s' \<noteq> []) \<and>
     s_busyTime s' - s_busyTime s =
       total_rem (accounts (s_allProcesses s)) - total_rem (accounts (s_allProcesses s')) \<and>
     (\<exists>seg. s_gantt s' = s_gantt s @ [seg] \<and> gs_StartTime seg = t \<and> gs_EndTime seg = t + 1)"
  using queue_tick_contract [OF assms(1,2) refl, of p_Name]
  by (simp add: assms(3) queue_inv_def tick_done_def refs_ok_def proc_def)

text \<open>The tickets of a process never change.\<close>

lemma arrive_loop_tickets: "p_Tickets (proc (arrive_loop t is s) k) = p_Tickets (proc s k)"
proof (induction "is" arbitrary: s)
  case (Cons i "is")
  have "p_Tickets (proc (upd_proc i (\<lambda>p. p\<lparr>p_State := StateReady\<rparr>) s) k) = p_Tickets (proc s k)"
    by (rule upd_proc_keep) simp
  then have "p_Tickets (proc ((upd_proc i (\<lambda>p. p\<lparr>p_State := StateReady\<rparr>) s)
      \<lparr>s_readyQueue := q\<rparr>) k) = p_Tickets (proc s k)" for q
    by (simp add: proc_def)
  with Cons show ?case by simp
qed simp

lemma age_loop_tickets: "p_Tickets (proc (age_loop is s) k) = p_Tickets (proc s k)"
proof (induction "is" arbitrary: s)
  case (Cons i "is")
  have "p_Tickets (proc (upd_proc i (\<lambda>p. p\<lparr>p_WaitingTime := p_WaitingTime p + 1\<rparr>) s) k) =
      p_Tickets (proc s k)"
    by (rule upd_proc_keep) simp
  with Cons show ?case by simp
qed simp

lemma tick_begin_tickets: "p_Tickets (proc (tick_begin t s) k) = p_Tickets (proc s k)"
proof -
  have "p_Tickets (proc (s\<lparr>s_totalTime := t + 1\<rparr>) k) = p_Tickets (proc s k)" by (simp add: proc_def)
  then show ?thesis
    by (simp add: tick_begin_def Let_def arrive_all_def age_loop_tickets arrive_loop_tickets)
qed

lemma run_current_tickets: "p_Tickets (proc (run_current t label s) k) = p_Tickets (proc s k)"
proof (cases "s_running s")
  case None
  then show ?thesis by (simp add: run_current_def proc_def)
next
  case (Some i)
  have "k < length (s_allProcesses s) \<or> \<not> k < length (s_allProcesses s)" by simp
  with Some show ?thesis
    by (cases "k = i"; cases "k < length (s_allProcesses s)")
       (auto simp: run_current_def Let_def proc_def upd_proc_def finish_p_def list_update_beyond)
qed

end
