(* ===== verification/Sched_FIFO.thy ===== *)
theory Sched_FIFO
  imports Sched_Phases
begin

text \<open>
  \<open>pkg/cpu/sched_fifo.go\<close>: first in, first out. The scheduler meets the contract of the
  interface, and it completes the processes in the order of their arrival times, those that
  arrive together in the order they were added.
\<close>

section \<open>The scheduler\<close>

definition NewFIFOScheduler :: QueueSched where
  "NewFIFOScheduler = \<lparr>s_allProcesses = [], s_running = None, s_completed = [], s_gantt = [],
     s_contextSwitches = 0, s_busyTime = 0, s_totalTime = 0, s_readyQueue = []\<rparr>"

definition FIFO_AddProcess :: "QueueSched \<Rightarrow> Process \<Rightarrow> QueueSched" where
  "FIFO_AddProcess s p = base_add s p"

definition FIFO_dispatch :: "int \<Rightarrow> QueueSched \<Rightarrow> QueueSched" where
  "FIFO_dispatch t s =
     (case (s_running s, s_readyQueue s) of
        (None, i # q) \<Rightarrow> start_process t i (s\<lparr>s_readyQueue := q\<rparr>)
      | _ \<Rightarrow> s)"

definition FIFO_Tick :: "QueueSched \<Rightarrow> int \<Rightarrow> QueueSched \<times> nat option \<times> bool" where
  "FIFO_Tick s t =
     (let s' = run_current t p_Name (FIFO_dispatch t (tick_begin t s))
      in (s', s_running s', tick_done s'))"

definition FIFO_GetCompleted :: "QueueSched \<Rightarrow> Process list" where
  "FIFO_GetCompleted s = map (proc s) (s_completed s)"

definition FIFO_GetMetrics :: "QueueSched \<Rightarrow> Metrics" where
  "FIFO_GetMetrics s =
     CalculateMetrics (FIFO_GetCompleted s) (s_totalTime s) (s_busyTime s) (s_contextSwitches s)"

section \<open>The contract\<close>

lemma FIFO_dispatch_ok:
  assumes "queue_inv s"
  shows "dispatch_ok t s (FIFO_dispatch t s)"
proof (cases "s_running s = None \<and> s_readyQueue s \<noteq> []")
  case True
  then obtain i q where q: "s_readyQueue s = i # q" by (cases "s_readyQueue s") auto
  have ok: "refs_ok s (i # q)" using assms q by (simp add: queue_inv_def)
  have "dispatch_ok t s (start_process t i (s\<lparr>s_readyQueue := q\<rparr>))"
    by (rule start_from_queue [OF ok]) (use True refs_ok_iff(1) [OF ok] in auto)
  then show ?thesis using True by (simp add: FIFO_dispatch_def q)
next
  case False
  then have "FIFO_dispatch t s = s"
    by (auto simp: FIFO_dispatch_def split: option.split list.split)
  with dispatch_ok_same [OF assms, of t] False show ?thesis by auto
qed

interpretation fifo: cpu_scheduler NewFIFOScheduler FIFO_AddProcess "\<lambda>s t. Some (FIFO_Tick s t)"
  s_allProcesses s_completed s_busyTime s_gantt "\<lambda>p. True" queue_inv
proof (unfold_locales, goal_cases)
  case 1
  show ?case by (simp add: NewFIFOScheduler_def queue_inv_def refs_ok_def)
next
  case (2 s p)
  then show ?case by (simp add: FIFO_AddProcess_def queue_add_law)
next
  case (3 s t)
  note c = queue_tick_contract [OF 3 FIFO_dispatch_ok [OF queue_inv_tick_begin [OF 3]] refl,
    of t p_Name]
  then show ?case by (simp add: FIFO_Tick_def Let_def)
next
  case (4 s t s' r d)
  note c = queue_tick_contract [OF 4(1) FIFO_dispatch_ok [OF queue_inv_tick_begin [OF 4(1)]] refl,
    of t p_Name]
  from 4(2) c show ?case by (auto simp: FIFO_Tick_def Let_def)
next
  case (5 s)
  then show ?case by (rule queue_completed_law)
qed

section \<open>The order of completion\<close>

definition arrival :: "Process list \<Rightarrow> nat \<Rightarrow> int" where
  "arrival ps i = p_ArrivalTime (ps ! i)"

text \<open>The processes seen so far in the order they will complete.\<close>

definition fifo_seq :: "QueueSched \<Rightarrow> nat list" where
  "fifo_seq s = s_completed s @ (case s_running s of Some r \<Rightarrow> [r] | None \<Rightarrow> []) @ s_readyQueue s"

lemma sort_key_next:
  fixes f :: "nat \<Rightarrow> int"
  shows "sort_key f (filter (\<lambda>x. f x < t + 1) xs) =
     sort_key f (filter (\<lambda>x. f x < t) xs) @ filter (\<lambda>x. f x = t) xs"
proof (rule properties_for_sort_key)
  show "mset (sort_key f (filter (\<lambda>x. f x < t) xs) @ filter (\<lambda>x. f x = t) xs) =
      mset (filter (\<lambda>x. f x < t + 1) xs)"
    by (induction xs) auto
  show "filter (\<lambda>x. f k = f x) (sort_key f (filter (\<lambda>x. f x < t) xs) @ filter (\<lambda>x. f x = t) xs) =
      filter (\<lambda>x. f k = f x) (filter (\<lambda>x. f x < t + 1) xs)" for k
    using sort_key_stable [of f "f k" "filter (\<lambda>x. f x < t) xs"]
    by (cases "f k" t rule: linorder_cases) (auto simp: eq_commute [of "f k"] intro!: filter_cong)
  have "sorted (map f (filter (\<lambda>x. f x = t) xs))" by (induction xs) auto
  moreover have "sorted (map f (sort_key f (filter (\<lambda>x. f x < t) xs)))" by simp
  ultimately show "sorted (map f (sort_key f (filter (\<lambda>x. f x < t) xs) @ filter (\<lambda>x. f x = t) xs))"
    unfolding map_append sorted_append by auto
qed

lemma FIFO_dispatch_seq: "fifo_seq (FIFO_dispatch t s) = fifo_seq s"
  by (auto simp: fifo_seq_def FIFO_dispatch_def split: option.split list.split)

lemma run_current_seq: "fifo_seq (run_current t label s) = fifo_seq s"
  by (auto simp: fifo_seq_def run_current_def Let_def split: option.split)

lemma FIFO_Tick_seq:
  "fifo_seq (fst (FIFO_Tick s t)) =
     fifo_seq s @ filter (\<lambda>k. arrives t (proc s k)) [0..<length (s_allProcesses s)]"
  by (simp add: FIFO_Tick_def Let_def FIFO_dispatch_seq run_current_seq)
     (simp add: fifo_seq_def tick_begin_queue)

definition fifo_order :: "Process list \<Rightarrow> int \<Rightarrow> QueueSched \<Rightarrow> bool" where
  "fifo_order ps t s \<longleftrightarrow> accts_ok t (accounts (s_allProcesses s)) \<and>
     map p_ArrivalTime (s_allProcesses s) = map p_ArrivalTime ps \<and>
     fifo_seq s = sort_key (arrival ps) (filter (\<lambda>i. arrival ps i < t) [0..<length ps])"

lemma add_clones_seq: "fifo_seq (add_clones FIFO_AddProcess ps s) = fifo_seq s"
  by (induction ps arbitrary: s) (simp_all add: fifo_seq_def FIFO_AddProcess_def base_add_def)

lemma acct_ok_arrives:
  "acct_ok t (account_of p) \<Longrightarrow> arrives t p \<longleftrightarrow> p_ArrivalTime p = t"
  by (cases "p_State p") (auto simp: acct_ok_def arrives_def account_of_def started_def)

lemma fifo_order_tick:
  assumes "queue_inv s" and "fifo_order ps t s" and "FIFO_Tick s t = (s', r, d)"
  shows "fifo_order ps (t + 1) s'"
proof -
  from fifo.tick_law [OF assms(1), of t] assms(3) have
    step: "astep t (accounts (s_allProcesses s)) (accounts (s_allProcesses s'))" by auto
  have ok: "accts_ok t (accounts (s_allProcesses s))"
    and arr: "map p_ArrivalTime (s_allProcesses s) = map p_ArrivalTime ps"
    using assms(2) by (simp_all add: fifo_order_def)
  have len: "length (s_allProcesses s) = length ps" using arr by (metis length_map)
  have "arrives t (proc s k) \<longleftrightarrow> arrival ps k = t" if "k < length ps" for k
    using acct_ok_arrives [OF accts_ok_nth [OF ok, of k]] that len arg_cong [OF arr, of "\<lambda>xs. xs ! k"]
    by (simp add: proc_def arrival_def)
  then have "filter (\<lambda>k. arrives t (proc s k)) [0..<length ps] =
      filter (\<lambda>k. arrival ps k = t) [0..<length ps]"
    by (intro filter_cong) auto
  then have "fifo_seq s' = sort_key (arrival ps) (filter (\<lambda>i. arrival ps i < t + 1) [0..<length ps])"
    using FIFO_Tick_seq [of s t] assms(2,3) len sort_key_next [of "arrival ps" t "[0..<length ps]"]
    by (simp add: fifo_order_def)
  then show ?thesis
    using astep_ok [OF step ok] accounts_arrival_cong [OF step] arr by (simp add: fifo_order_def)
qed

lemma fifo_order_done:
  assumes "queue_inv s" and "fifo_order ps t s" and "\<forall>p\<in>set (s_allProcesses s). finished_ok p"
  shows "s_completed s = sort_key (arrival ps) [0..<length ps]"
proof -
  have ok: "accts_ok t (accounts (s_allProcesses s))"
    and arr: "map p_ArrivalTime (s_allProcesses s) = map p_ArrivalTime ps"
    and seq: "fifo_seq s = sort_key (arrival ps) (filter (\<lambda>i. arrival ps i < t) [0..<length ps])"
    using assms(2) by (simp_all add: fifo_order_def)
  have len: "length (s_allProcesses s) = length ps" using arr by (metis length_map)
  have st: "p_State (proc s k) = StateTerminated" if "k < length ps" for k
    using assms(3) that len by (simp add: finished_ok_def proc_def)
  have refs: "refs_ok s (s_readyQueue s)" using assms(1) by (simp add: queue_inv_def)
  have "s_readyQueue s = []"
    using refs_okD(1,2) [OF refs, of "hd (s_readyQueue s)"] st len by (cases "s_readyQueue s") auto
  moreover have "s_running s = None"
    using refs_okD(3,4) [OF refs] st len by (cases "s_running s") auto
  moreover have "filter (\<lambda>i. arrival ps i < t) [0..<length ps] = [0..<length ps]"
  proof (rule filter_True, rule ballI)
    fix k assume "k \<in> set [0..<length ps]"
    then have k: "k < length ps" by simp
    with accts_ok_nth [OF ok, of k] st [OF k] len have "p_ArrivalTime (s_allProcesses s ! k) < t"
      by (auto simp: acct_ok_def account_of_def started_def proc_def)
    then show "arrival ps k < t"
      using k len arg_cong [OF arr, of "\<lambda>xs. xs ! k"] by (simp add: arrival_def)
  qed
  ultimately show ?thesis using seq by (simp add: fifo_seq_def)
qed



end
