(* ===== verification/Sched_SJF.thy ===== *)
theory Sched_SJF
  imports Sched_Phases
begin

text \<open>
  \<open>pkg/cpu/sched_sjf.go\<close>: shortest job first, which does not preempt, and shortest time to
  completion first, which does. \<open>sort.SliceStable\<close> is the stable sort \<^const>\<open>sort_key\<close>. Both
  meet the contract of the interface, and the process that runs in a tick is a minimal one.
\<close>

section \<open>Shortest job first\<close>

definition NewSJFScheduler :: QueueSched where
  "NewSJFScheduler = \<lparr>s_allProcesses = [], s_running = None, s_completed = [], s_gantt = [],
     s_contextSwitches = 0, s_busyTime = 0, s_totalTime = 0, s_readyQueue = []\<rparr>"

definition SJF_AddProcess :: "QueueSched \<Rightarrow> Process \<Rightarrow> QueueSched" where
  "SJF_AddProcess s p = base_add s p"

definition SJF_dispatch :: "int \<Rightarrow> QueueSched \<Rightarrow> QueueSched" where
  "SJF_dispatch t s =
     (if s_running s = None \<and> s_readyQueue s \<noteq> [] then
        let q = sort_key (\<lambda>i. p_BurstTime (proc s i)) (s_readyQueue s)
        in start_process t (hd q) (s\<lparr>s_readyQueue := tl q\<rparr>)
      else s)"

definition SJF_Tick :: "QueueSched \<Rightarrow> int \<Rightarrow> QueueSched \<times> nat option \<times> bool" where
  "SJF_Tick s t =
     (let s' = run_current t p_Name (SJF_dispatch t (tick_begin t s))
      in (s', s_running s', tick_done s'))"

definition SJF_GetCompleted :: "QueueSched \<Rightarrow> Process list" where
  "SJF_GetCompleted s = map (proc s) (s_completed s)"

definition SJF_GetMetrics :: "QueueSched \<Rightarrow> Metrics" where
  "SJF_GetMetrics s =
     CalculateMetrics (SJF_GetCompleted s) (s_totalTime s) (s_busyTime s) (s_contextSwitches s)"

section \<open>Shortest time to completion first\<close>

definition NewSTCFScheduler :: QueueSched where
  "NewSTCFScheduler = \<lparr>s_allProcesses = [], s_running = None, s_completed = [], s_gantt = [],
     s_contextSwitches = 0, s_busyTime = 0, s_totalTime = 0, s_readyQueue = []\<rparr>"

definition STCF_AddProcess :: "QueueSched \<Rightarrow> Process \<Rightarrow> QueueSched" where
  "STCF_AddProcess s p = base_add s p"

definition STCF_dispatch :: "int \<Rightarrow> QueueSched \<Rightarrow> QueueSched" where
  "STCF_dispatch t s =
     (if s_readyQueue s \<noteq> [] then
        let q = sort_key (\<lambda>i. p_RemainingTime (proc s i)) (s_readyQueue s);
            shortestReady = hd q
        in case s_running s of
             None \<Rightarrow> start_process t shortestReady (s\<lparr>s_readyQueue := tl q\<rparr>)
           | Some r \<Rightarrow>
               if p_RemainingTime (proc s shortestReady) < p_RemainingTime (proc s r)
               then start_process t shortestReady
                      ((release_running r s)\<lparr>s_readyQueue := tl (q @ [r])\<rparr>)
               else s\<lparr>s_readyQueue := q\<rparr>
      else s)"

definition STCF_Tick :: "QueueSched \<Rightarrow> int \<Rightarrow> QueueSched \<times> nat option \<times> bool" where
  "STCF_Tick s t =
     (let s' = run_current t p_Name (STCF_dispatch t (tick_begin t s))
      in (s', s_running s', tick_done s'))"

definition STCF_GetCompleted :: "QueueSched \<Rightarrow> Process list" where
  "STCF_GetCompleted s = map (proc s) (s_completed s)"

definition STCF_GetMetrics :: "QueueSched \<Rightarrow> Metrics" where
  "STCF_GetMetrics s =
     CalculateMetrics (STCF_GetCompleted s) (s_totalTime s) (s_busyTime s) (s_contextSwitches s)"

section \<open>The contract\<close>

text \<open>Sorting the queue and taking its head: the references survive and the head is minimal.\<close>

lemma sorted_queue:
  fixes f :: "nat \<Rightarrow> int"
  assumes "rdy \<noteq> []" and "distinct rdy"
  defines "q \<equiv> sort_key f rdy"
  shows "q = hd q # tl q" and "hd q \<in> set rdy" and "distinct (tl q)" and "set (tl q) = set rdy - {hd q}"
    and "j \<in> set rdy \<Longrightarrow> f (hd q) \<le> f j"
proof -
  have sq: "set q = set rdy" "distinct q" "sorted (map f q)" using assms by (simp_all add: q_def)
  have "q \<noteq> []" using assms(1) sq(1) by auto
  then obtain x xs where q: "q = x # xs" by (cases q) auto
  show "q = hd q # tl q" by (simp add: q)
  show "hd q \<in> set rdy" using sq(1) q by auto
  show "distinct (tl q)" "set (tl q) = set rdy - {hd q}" using sq q by auto
  show "f (hd q) \<le> f j" if "j \<in> set rdy"
  proof -
    have "j \<in> set (x # xs)" using that sq(1) q by simp
    then show ?thesis using sq(3) by (auto simp: q)
  qed
qed

lemma SJF_dispatch_ok:
  assumes "queue_inv s"
  shows "dispatch_ok t s (SJF_dispatch t s)"
proof (cases "s_running s = None \<and> s_readyQueue s \<noteq> []")
  case True
  let ?f = "\<lambda>i. p_BurstTime (proc s i)"
  have ok: "refs_ok s (s_readyQueue s)" using assms by (simp add: queue_inv_def)
  note q = sorted_queue [OF conjunct2 [OF True] refs_ok_iff(1) [OF ok], where f = ?f]
  have "dispatch_ok t s (start_process t (hd (sort_key ?f (s_readyQueue s)))
      (s\<lparr>s_readyQueue := tl (sort_key ?f (s_readyQueue s))\<rparr>))"
    by (rule start_from_queue [OF ok conjunct1 [OF True] q(2,3,4) refl])
  then show ?thesis using True by (simp add: SJF_dispatch_def Let_def)
next
  case False
  then have "SJF_dispatch t s = s" by (auto simp: SJF_dispatch_def)
  with dispatch_ok_same [OF assms, of t] False show ?thesis by auto
qed

lemma STCF_dispatch_ok:
  assumes "queue_inv s"
  shows "dispatch_ok t s (STCF_dispatch t s)"
proof (cases "s_readyQueue s = []")
  case True
  with dispatch_ok_same [OF assms, of t] show ?thesis by (simp add: STCF_dispatch_def)
next
  case False
  let ?f = "\<lambda>i. p_RemainingTime (proc s i)"
  let ?q = "sort_key ?f (s_readyQueue s)"
  have ok: "refs_ok s (s_readyQueue s)" using assms by (simp add: queue_inv_def)
  note q = sorted_queue [OF False refs_ok_iff(1) [OF ok], where f = ?f]
  show ?thesis
  proof (cases "s_running s")
    case None
    have "dispatch_ok t s (start_process t (hd ?q) (s\<lparr>s_readyQueue := tl ?q\<rparr>))"
      by (rule start_from_queue [OF ok None q(2,3,4) refl])
    with None False show ?thesis by (simp add: STCF_dispatch_def Let_def)
  next
    case (Some r)
    have r: "r \<notin> set (s_readyQueue s)"
      using refs_okD(2,4) [OF ok] Some by fastforce
    have tl: "tl (?q @ [r]) = tl ?q @ [r]" using q(1) by (metis append_Cons list.sel(3))
    have 1: "dispatch_ok t s
        (start_process t (hd ?q) ((release_running r s)\<lparr>s_readyQueue := tl ?q @ [r]\<rparr>))"
      by (rule switch_from_queue [OF ok Some _ _ _ refl]) (use q r in auto)
    have "refs_ok (s\<lparr>s_readyQueue := ?q\<rparr>) ?q"
      using ok by (simp add: refs_ok_def proc_def)
    moreover have "accts (s\<lparr>s_readyQueue := ?q\<rparr>) = accts s" by (rule accts_cong) simp
    ultimately have 2: "dispatch_ok t s (s\<lparr>s_readyQueue := ?q\<rparr>)"
      using dispatch_keep [OF ok Some, of t] by (simp add: dispatch_ok_def)
    show ?thesis
      using 1 2 Some False by (simp add: STCF_dispatch_def Let_def tl)
  qed
qed

interpretation sjf: cpu_scheduler NewSJFScheduler SJF_AddProcess "\<lambda>s t. Some (SJF_Tick s t)"
  s_allProcesses s_completed s_busyTime s_gantt "\<lambda>p. True" queue_inv
proof (unfold_locales, goal_cases)
  case 1
  show ?case by (simp add: NewSJFScheduler_def queue_inv_def refs_ok_def)
next
  case (2 s p)
  then show ?case by (simp add: SJF_AddProcess_def queue_add_law)
next
  case (3 s t)
  from queue_tick_contract [OF 3 SJF_dispatch_ok [OF queue_inv_tick_begin [OF 3]] refl, of t p_Name]
  show ?case by (simp add: SJF_Tick_def Let_def)
next
  case (4 s t s' r d)
  from queue_tick_contract [OF 4(1) SJF_dispatch_ok [OF queue_inv_tick_begin [OF 4(1)]] refl,
    of t p_Name] 4(2)
  show ?case by (auto simp: SJF_Tick_def Let_def)
next
  case (5 s)
  then show ?case by (rule queue_completed_law)
qed

interpretation stcf: cpu_scheduler NewSTCFScheduler STCF_AddProcess "\<lambda>s t. Some (STCF_Tick s t)"
  s_allProcesses s_completed s_busyTime s_gantt "\<lambda>p. True" queue_inv
proof (unfold_locales, goal_cases)
  case 1
  show ?case by (simp add: NewSTCFScheduler_def queue_inv_def refs_ok_def)
next
  case (2 s p)
  then show ?case by (simp add: STCF_AddProcess_def queue_add_law)
next
  case (3 s t)
  from queue_tick_contract [OF 3 STCF_dispatch_ok [OF queue_inv_tick_begin [OF 3]] refl, of t p_Name]
  show ?case by (simp add: STCF_Tick_def Let_def)
next
  case (4 s t s' r d)
  from queue_tick_contract [OF 4(1) STCF_dispatch_ok [OF queue_inv_tick_begin [OF 4(1)]] refl,
    of t p_Name] 4(2)
  show ?case by (auto simp: STCF_Tick_def Let_def)
next
  case (5 s)
  then show ?case by (rule queue_completed_law)
qed

section \<open>The policies\<close>

lemma proc_queue_upd [simp]: "proc (s\<lparr>s_readyQueue := q\<rparr>) k = proc s k"
  by (simp add: proc_def)

lemma SJF_dispatch_min:
  assumes "queue_inv s" and "s_running s = None"
    and "s_running (SJF_dispatch t s) = Some i" and "j \<in> set (s_readyQueue (SJF_dispatch t s))"
  shows "p_BurstTime (proc (SJF_dispatch t s) i) \<le> p_BurstTime (proc (SJF_dispatch t s) j)"
proof -
  let ?f = "\<lambda>i. p_BurstTime (proc s i)"
  have ne: "s_readyQueue s \<noteq> []" using assms(2,3) by (auto simp: SJF_dispatch_def)
  have "distinct (s_readyQueue s)" using assms(1) refs_ok_iff(1) by (auto simp: queue_inv_def)
  note q = sorted_queue [OF ne this, where f = ?f]
  from assms ne q(4) q(5) [of j] show ?thesis by (simp add: SJF_dispatch_def Let_def)
qed

lemma STCF_dispatch_min:
  assumes "queue_inv s"
    and "s_running (STCF_dispatch t s) = Some i" and "j \<in> set (s_readyQueue (STCF_dispatch t s))"
  shows "p_RemainingTime (proc (STCF_dispatch t s) i) \<le> p_RemainingTime (proc (STCF_dispatch t s) j)"
proof (cases "s_readyQueue s = []")
  case True
  with assms(3) show ?thesis by (simp add: STCF_dispatch_def)
next
  case False
  let ?f = "\<lambda>i. p_RemainingTime (proc s i)"
  let ?q = "sort_key ?f (s_readyQueue s)"
  have "distinct (s_readyQueue s)" using assms(1) refs_ok_iff(1) by (auto simp: queue_inv_def)
  note q = sorted_queue [OF False this, where f = ?f]
  show ?thesis
  proof (cases "s_running s")
    case None
    with assms False q(4) q(5) [of j] show ?thesis by (simp add: STCF_dispatch_def Let_def)
  next
    case (Some r)
    have tl: "set (tl (?q @ [r])) = insert r (set (tl ?q))"
      by (subst q(1)) simp
    show ?thesis
    proof (cases "?f (hd ?q) < ?f r")
      case True
      with assms False Some q(4) q(5) [of j] tl show ?thesis
        by (auto simp: STCF_dispatch_def Let_def)
    next
      case nr: False
      with assms False Some q(5) [of j] show ?thesis by (auto simp: STCF_dispatch_def Let_def)
    qed
  qed
qed

text \<open>
  C38: STCF always runs a process with the least remaining time. The process that loses a unit of
  work in a tick had no more work left than any process that is still ready afterwards.
\<close>

theorem STCF_runs_shortest:
  assumes "queue_inv s" and "STCF_Tick s t = (s', r, d)"
    and "i < length (s_allProcesses s)" and "j < length (s_allProcesses s)"
    and "p_RemainingTime (proc s' i) < p_RemainingTime (proc s i)"
    and "p_State (proc s' j) = StateReady"
  shows "p_RemainingTime (proc s i) \<le> p_RemainingTime (proc s j)"
proof -
  let ?d = "STCF_dispatch t (tick_begin t s)"
  have inv: "queue_inv (tick_begin t s)" by (rule queue_inv_tick_begin [OF assms(1)])
  have s': "s' = run_current t p_Name ?d" using assms(2) by (auto simp: STCF_Tick_def Let_def)
  note v = tick_view [OF assms(1) STCF_dispatch_ok [OF inv] s']
  have "s_running ?d = Some i" using v(3) [OF assms(3)] assms(5) by (simp split: if_splits)
  moreover have "j \<in> set (s_readyQueue ?d)" using v(4) [OF assms(4)] assms(6) by simp
  ultimately show ?thesis
    using STCF_dispatch_min [OF inv, of t i j] v(1) [OF assms(3)] v(1) [OF assms(4)] by simp
qed

definition STCF_example :: QueueSched where
  "STCF_example = fst (STCF_Tick (add_clones STCF_AddProcess
     [NewProcess 1 ''A'' 0 6, NewProcess 2 ''B'' 1 3] NewSTCFScheduler) 0)"

lemma STCF_inv_tick: "queue_inv s \<Longrightarrow> queue_inv (fst (STCF_Tick s t))"
  using queue_tick_contract [OF _ STCF_dispatch_ok [OF queue_inv_tick_begin] refl, of s t p_Name]
  unfolding STCF_Tick_def Let_def fst_conv by blast

lemma STCF_example_inv: "queue_inv STCF_example"
  unfolding STCF_example_def
  by (rule STCF_inv_tick, rule stcf.add_clones_law [THEN conjunct1]) (simp_all add: stcf.new_law)

theorem STCF_runs_shortest_witness:
  "p_RemainingTime (proc STCF_example 1) \<le> p_RemainingTime (proc STCF_example 0) \<and>
   p_RemainingTime (proc STCF_example 0) = 5 \<and>
   p_RemainingTime (proc (fst (STCF_Tick STCF_example 1)) 1) = 2"
proof -
  obtain s' r d where t: "STCF_Tick STCF_example 1 = (s', r, d)" by (metis prod_cases3)
  have v: "length (s_allProcesses STCF_example) = 2" "p_RemainingTime (proc STCF_example 0) = 5"
    "p_RemainingTime (proc STCF_example 1) = 3"
    "p_RemainingTime (proc (fst (STCF_Tick STCF_example 1)) 1) = 2"
    "p_State (proc (fst (STCF_Tick STCF_example 1)) 0) = StateReady"
    by code_simp+
  with STCF_runs_shortest [OF STCF_example_inv t, of 1 0] t show ?thesis by simp
qed

text \<open>
  C39: SJF does not preempt, and when the processor is free it starts a process with the least
  burst time among the ready ones.
\<close>

theorem SJF_starts_shortest:
  assumes "queue_inv s" and "SJF_Tick s t = (s', r, d)"
    and "i < length (s_allProcesses s)" and "j < length (s_allProcesses s)"
    and "p_RemainingTime (proc s' i) < p_RemainingTime (proc s i)"
  shows "(case s_running s of
       Some k \<Rightarrow> i = k
     | None \<Rightarrow> p_State (proc s' j) = StateReady \<longrightarrow> p_BurstTime (proc s i) \<le> p_BurstTime (proc s j))"
proof -
  let ?d = "SJF_dispatch t (tick_begin t s)"
  have inv: "queue_inv (tick_begin t s)" by (rule queue_inv_tick_begin [OF assms(1)])
  have s': "s' = run_current t p_Name ?d" using assms(2) by (auto simp: SJF_Tick_def Let_def)
  note v = tick_view [OF assms(1) SJF_dispatch_ok [OF inv] s']
  have run: "s_running ?d = Some i" using v(3) [OF assms(3)] assms(5) by (simp split: if_splits)
  show ?thesis
  proof (cases "s_running s")
    case None
    with SJF_dispatch_min [OF inv _ run, of j] v(2) [OF assms(3)] v(2,4) [OF assms(4)] show ?thesis
      by simp
  next
    case (Some k)
    with run show ?thesis by (simp add: SJF_dispatch_def)
  qed
qed

definition SJF_example :: QueueSched where
  "SJF_example = add_clones SJF_AddProcess
     [NewProcess 1 ''A'' 0 6, NewProcess 2 ''B'' 0 3] NewSJFScheduler"

theorem SJF_starts_shortest_witness:
  "p_BurstTime (proc SJF_example 1) \<le> p_BurstTime (proc SJF_example 0) \<and>
   p_RemainingTime (proc (fst (SJF_Tick SJF_example 0)) 1) = 2"
proof -
  obtain s' r d where t: "SJF_Tick SJF_example 0 = (s', r, d)" by (metis prod_cases3)
  have inv: "queue_inv SJF_example"
    unfolding SJF_example_def
    by (rule sjf.add_clones_law [THEN conjunct1]) (simp_all add: sjf.new_law)
  have v: "length (s_allProcesses SJF_example) = 2" "s_running SJF_example = None"
    "p_RemainingTime (proc SJF_example 1) = 3"
    "p_RemainingTime (proc (fst (SJF_Tick SJF_example 0)) 1) = 2"
    "p_State (proc (fst (SJF_Tick SJF_example 0)) 0) = StateReady"
    by code_simp+
  with SJF_starts_shortest [OF inv t, of 1 0] t show ?thesis by simp
qed

end
