(* ===== verification/Sched_RR.thy ===== *)
theory Sched_RR
  imports Sched_Phases
begin

text \<open>
  \<open>pkg/cpu/sched_rr.go\<close>: round robin with a fixed quantum. The scheduler meets the contract of
  the interface, no process runs longer than the quantum in one slice, and a process in the ready
  queue runs after at most one quantum for each process in front of it.
\<close>

section \<open>The scheduler\<close>

definition NewRRScheduler :: "int \<Rightarrow> SliceSched" where
  "NewRRScheduler quantum =
     \<lparr>s_allProcesses = [], s_running = None, s_completed = [], s_gantt = [],
      s_contextSwitches = 0, s_busyTime = 0, s_totalTime = 0, s_readyQueue = [],
      s_Quantum = (if quantum \<le> 0 then 2 else quantum), s_currentSlice = 0\<rparr>"

definition RR_AddProcess :: "SliceSched \<Rightarrow> Process \<Rightarrow> SliceSched" where
  "RR_AddProcess s p = base_add s p"

definition RR_dispatch :: "int \<Rightarrow> SliceSched \<Rightarrow> SliceSched" where
  "RR_dispatch t s =
     (case (s_running s, s_readyQueue s) of
        (None, i # q) \<Rightarrow> (start_process t i (s\<lparr>s_readyQueue := q\<rparr>))\<lparr>s_currentSlice := 0\<rparr>
      | _ \<Rightarrow> s)"

definition RR_Tick :: "SliceSched \<Rightarrow> int \<Rightarrow> SliceSched \<times> nat option \<times> bool" where
  "RR_Tick s t =
     (let s' = slice_run t (RR_dispatch t (slice_expire (tick_begin t s)))
      in (s', s_running s', tick_done s'))"

definition RR_GetCompleted :: "SliceSched \<Rightarrow> Process list" where
  "RR_GetCompleted s = map (proc s) (s_completed s)"

definition RR_GetMetrics :: "SliceSched \<Rightarrow> Metrics" where
  "RR_GetMetrics s =
     CalculateMetrics (RR_GetCompleted s) (s_totalTime s) (s_busyTime s) (s_contextSwitches s)"

text \<open>The state after \<open>n\<close> ticks from time \<open>t\<close>.\<close>

fun RR_ticks :: "nat \<Rightarrow> int \<Rightarrow> SliceSched \<Rightarrow> SliceSched" where
  "RR_ticks 0 t s = s"
| "RR_ticks (Suc n) t s = RR_ticks n (t + 1) (fst (RR_Tick s t))"

definition RR_inv :: "SliceSched \<Rightarrow> bool" where
  "RR_inv s \<longleftrightarrow> queue_inv s \<and> 0 < s_Quantum s \<and> 0 \<le> s_currentSlice s \<and>
     s_currentSlice s \<le> s_Quantum s \<and> (s_running s \<noteq> None \<longrightarrow> 0 < s_currentSlice s)"

text \<open>An upper bound on the ticks before the process at position \<open>k\<close> of the queue runs.\<close>

definition RR_wait :: "SliceSched \<Rightarrow> nat \<Rightarrow> nat" where
  "RR_wait s k = nat ((if s_running s = None then 0 else s_Quantum s - s_currentSlice s) +
     int k * s_Quantum s)"

section \<open>The contract\<close>

lemma RR_dispatch_ok:
  assumes "queue_inv s"
  shows "dispatch_ok t s (RR_dispatch t (slice_expire s))"
proof (cases "s_running (slice_expire s) = None \<and> s_readyQueue (slice_expire s) \<noteq> []")
  case True
  then obtain i q where q: "s_readyQueue (slice_expire s) = i # q"
    by (cases "s_readyQueue (slice_expire s)") auto
  have "distinct (s_readyQueue (slice_expire s))"
    using queue_inv_expire [OF assms] refs_ok_iff(1) by (auto simp: queue_inv_def)
  then have "dispatch_ok t s
      ((start_process t i ((slice_expire s)\<lparr>s_readyQueue := q\<rparr>))\<lparr>s_currentSlice := 0\<rparr>)"
    by (intro slice_dispatch_start [OF assms]) (use True q in auto)
  then show ?thesis using True by (simp add: RR_dispatch_def q)
next
  case False
  then have "RR_dispatch t (slice_expire s) = slice_expire s"
    by (auto simp: RR_dispatch_def split: option.split list.split)
  with slice_dispatch_same [OF assms, of t] False show ?thesis by auto
qed

text \<open>The slice counter over a tick.\<close>

lemma RR_dispatch_fields:
  "s_Quantum (RR_dispatch t s) = s_Quantum s"
  "s_currentSlice (RR_dispatch t s) =
     (if s_running s = None \<and> s_readyQueue s \<noteq> [] then 0 else s_currentSlice s)"
  "s_running (RR_dispatch t s) =
     (if s_running s = None \<and> s_readyQueue s \<noteq> [] then Some (hd (s_readyQueue s)) else s_running s)"
  "s_readyQueue (RR_dispatch t s) =
     (if s_running s = None \<and> s_readyQueue s \<noteq> [] then tl (s_readyQueue s) else s_readyQueue s)"
  by (auto simp: RR_dispatch_def start_process_def upd_proc_def split: option.split list.split)

lemma RR_inv_tick:
  assumes "RR_inv s"
  shows "RR_inv (fst (RR_Tick s t))"
proof -
  let ?e = "slice_expire (tick_begin t s)"
  let ?d = "RR_dispatch t ?e"
  have inv: "queue_inv s" using assms by (simp add: RR_inv_def)
  have "queue_inv (fst (RR_Tick s t))"
    using slice_tick_contract [OF inv RR_dispatch_ok [OF queue_inv_tick_begin [OF inv]] refl]
    by (simp add: RR_Tick_def Let_def)
  moreover have "0 \<le> s_currentSlice ?d \<and> (s_running ?d \<noteq> None \<longrightarrow> s_currentSlice ?d < s_Quantum s)
      \<and> s_currentSlice ?d \<le> s_Quantum s"
    using assms by (auto simp: RR_inv_def RR_dispatch_fields slice_expire_fields)
  ultimately show ?thesis
    using assms run_current_running [of t p_Name ?d]
    by (auto simp: RR_inv_def RR_Tick_def Let_def RR_dispatch_fields slice_expire_fields)
qed

interpretation rr: cpu_scheduler "NewRRScheduler q" RR_AddProcess "\<lambda>s t. Some (RR_Tick s t)"
  s_allProcesses s_completed s_busyTime s_gantt "\<lambda>p. True" RR_inv for q
proof (unfold_locales, goal_cases)
  case 1
  show ?case by (simp add: NewRRScheduler_def RR_inv_def queue_inv_def refs_ok_def)
next
  case (2 s p)
  then show ?case
    by (simp add: RR_AddProcess_def RR_inv_def queue_add_law) (simp add: base_add_def)
next
  case (3 s t)
  then have inv: "queue_inv s" by (simp add: RR_inv_def)
  from slice_tick_contract [OF inv RR_dispatch_ok [OF queue_inv_tick_begin [OF inv]] refl, of t]
    RR_inv_tick [OF 3, of t]
  show ?case unfolding RR_Tick_def Let_def fst_conv by blast
next
  case (4 s t s' r d)
  then have inv: "queue_inv s" by (simp add: RR_inv_def)
  from slice_tick_contract [OF inv RR_dispatch_ok [OF queue_inv_tick_begin [OF inv]] refl, of t] 4(2)
  show ?case unfolding RR_Tick_def Let_def by blast
next
  case (5 s)
  then show ?case by (intro queue_completed_law) (simp add: RR_inv_def)
qed

section \<open>Bounded waiting\<close>

lemma RR_Tick_fields:
  fixes s t
  defines "d \<equiv> RR_dispatch t (slice_expire (tick_begin t s))"
  shows "fst (RR_Tick s t) = slice_run t d"
    and "s_readyQueue (fst (RR_Tick s t)) = s_readyQueue d"
    and "s_Quantum (fst (RR_Tick s t)) = s_Quantum s"
  by (simp_all add: RR_Tick_def Let_def d_def RR_dispatch_fields slice_expire_fields)

lemma RR_wait_run:
  assumes "s_running d \<noteq> None" and "s_currentSlice d < s_Quantum d"
  shows "RR_wait (slice_run t d) k \<le> nat (s_Quantum d - s_currentSlice d - 1 + int k * s_Quantum d)"
  using assms by (auto simp: RR_wait_def intro!: nat_mono)

lemma RR_advance:
  fixes s t
  assumes "RR_inv s" and "k < length (s_readyQueue s)" and "s_readyQueue s ! k = i"
  defines "s' \<equiv> fst (RR_Tick s t)"
  shows "p_RemainingTime (proc s' i) = p_RemainingTime (proc s i) - 1 \<or>
     (\<exists>k' < length (s_readyQueue s'). s_readyQueue s' ! k' = i \<and> RR_wait s' k' < RR_wait s k)"
proof -
  let ?e = "slice_expire (tick_begin t s)"
  let ?d = "RR_dispatch t ?e"
  let ?q = "s_readyQueue (tick_begin t s)"
  have inv: "queue_inv s" and Q: "0 < s_Quantum s" "s_currentSlice s \<le> s_Quantum s"
    using assms(1) by (simp_all add: RR_inv_def)
  note ok = RR_dispatch_ok [OF queue_inv_tick_begin [OF inv], of t t]
  have i: "i < length (s_allProcesses s)"
    using inv refs_okD(1) [of s "s_readyQueue s" i] assms(2,3) by (auto simp: queue_inv_def)
  have q: "k < length ?q" "?q ! k = i" using assms(2,3) by (auto simp: tick_begin_queue nth_append)
  have dQ: "s_Quantum ?d = s_Quantum s" by (simp add: RR_dispatch_fields slice_expire_fields)
  show ?thesis
  proof (cases "s_running s \<noteq> None \<and> s_currentSlice s < s_Quantum s")
    case True
    then have d: "s_readyQueue ?d = ?q" "s_running ?d \<noteq> None" "s_currentSlice ?d = s_currentSlice s"
      by (auto simp: RR_dispatch_fields slice_expire_fields split: option.split)
    have "RR_wait s' k \<le> nat (s_Quantum s - s_currentSlice s - 1 + int k * s_Quantum s)"
      using RR_wait_run [of ?d t k] d True by (simp add: s'_def RR_Tick_fields(1) dQ)
    also have "\<dots> < RR_wait s k"
      using True Q by (auto simp: RR_wait_def add_pos_nonneg)
    finally have "RR_wait s' k < RR_wait s k" .
    then show ?thesis using d(1) q by (intro disjI2 exI [of _ k]) (simp add: s'_def RR_Tick_fields(2))
  next
    case False
    then have e: "s_running ?e = None" by (auto simp: slice_expire_fields not_less)
    obtain x where x: "s_readyQueue ?e = ?q @ x" by (simp add: slice_expire_fields)
    have ne: "?q @ x \<noteq> []" using q(1) by auto
    have d: "s_running ?d = Some (hd (?q @ x))" "s_readyQueue ?d = tl (?q @ x)" "s_currentSlice ?d = 0"
      using e x ne by (simp_all add: RR_dispatch_fields)
    show ?thesis
    proof (cases k)
      case 0
      then have "hd (?q @ x) = i" using q by (cases ?q) auto
      with tick_view(3) [OF inv ok refl i, of p_Name] d(1) show ?thesis
        by (simp add: s'_def RR_Tick_fields proc_def)
    next
      case (Suc k')
      have "s_readyQueue ?d ! k' = i \<and> k' < length (s_readyQueue ?d)"
        using q Suc by (simp add: d(2) nth_tl nth_append)
      moreover have "RR_wait s' k' \<le> nat (s_Quantum s - 1 + int k' * s_Quantum s)"
        using RR_wait_run [of ?d t k'] d Q by (simp add: s'_def RR_Tick_fields(1) dQ)
      moreover have "nat (s_Quantum s - 1 + int k' * s_Quantum s) < RR_wait s k"
        using Q by (simp add: RR_wait_def Suc algebra_simps add_pos_nonneg)
      ultimately show ?thesis
        by (intro disjI2 exI [of _ k']) (simp add: s'_def RR_Tick_fields(2))
    qed
  qed
qed

text \<open>
  C37: round robin is fair. A process at position \<open>k\<close> of the ready queue is running in one of the
  next \<open>k * Quantum + (what is left of the running slice)\<close> ticks after the first, whatever
  arrives in the meantime.
\<close>

theorem RR_bounded_wait:
  assumes "RR_inv s" and "k < length (s_readyQueue s)" and "s_readyQueue s ! k = i"
  shows "\<exists>m \<le> RR_wait s k. p_RemainingTime (proc (RR_ticks (Suc m) t s) i) =
     p_RemainingTime (proc (RR_ticks m t s) i) - 1"
  using assms
proof (induction "RR_wait s k" arbitrary: s k t rule: less_induct)
  case less
  let ?s = "fst (RR_Tick s t)"
  from RR_advance [OF less.prems, of t] show ?case
  proof (elim disjE exE conjE)
    assume "p_RemainingTime (proc ?s i) = p_RemainingTime (proc s i) - 1"
    then show ?case by (intro exI [of _ 0]) simp
  next
    fix k' assume k': "k' < length (s_readyQueue ?s)" "s_readyQueue ?s ! k' = i"
      "RR_wait ?s k' < RR_wait s k"
    from less.hyps [OF k'(3) RR_inv_tick [OF less.prems(1)] k'(1,2), of "t + 1"] obtain m where
      "m \<le> RR_wait ?s k'" "p_RemainingTime (proc (RR_ticks (Suc m) (t + 1) ?s) i) =
        p_RemainingTime (proc (RR_ticks m (t + 1) ?s) i) - 1" by blast
    with k'(3) show ?case by (intro exI [of _ "Suc m"]) simp
  qed
qed

definition RR_example :: SliceSched where
  "RR_example = fst (RR_Tick (add_clones RR_AddProcess
     [NewProcess 1 ''A'' 0 5, NewProcess 2 ''B'' 0 3] (NewRRScheduler 3)) 0)"

lemma RR_example_inv: "RR_inv RR_example"
  unfolding RR_example_def
  by (rule RR_inv_tick, rule rr.add_clones_law [THEN conjunct1]) (simp_all add: rr.new_law)

lemma RR_example_values:
  "s_readyQueue RR_example = [1]" "RR_wait RR_example 0 = 2"
  by code_simp+

theorem RR_bounded_wait_witness:
  "RR_inv RR_example \<and> s_readyQueue RR_example ! 0 = 1 \<and>
   (\<exists>m \<le> 2. p_RemainingTime (proc (RR_ticks (Suc m) 1 RR_example) 1) =
     p_RemainingTime (proc (RR_ticks m 1 RR_example) 1) - 1)"
  using RR_bounded_wait [OF RR_example_inv, of 0 1 1] RR_example_inv by (simp add: RR_example_values)

end
