(* ===== verification/Sched_Lottery.thy ===== *)
theory Sched_Lottery
  imports Sched_Phases
begin

text \<open>
  \<open>pkg/cpu/sched_lottery.go\<close>: lottery scheduling. The generator \<open>math/rand\<close> is a parameter:
  \<open>intn n g\<close> is what \<open>rng.Intn(n)\<close> returns in the state \<open>g\<close>, with the next state. The scheduler
  meets the contract of the interface for every generator when every process holds a ticket, and
  a ready process is drawn for exactly as many of the winning tickets as it holds.
\<close>

section \<open>The scheduler\<close>

record 'g LotterySched = SliceSched +
  s_rng :: 'g

definition NewLotteryScheduler :: "int \<Rightarrow> 'g \<Rightarrow> 'g LotterySched" where
  "NewLotteryScheduler quantum rng =
     \<lparr>s_allProcesses = [], s_running = None, s_completed = [], s_gantt = [],
      s_contextSwitches = 0, s_busyTime = 0, s_totalTime = 0, s_readyQueue = [],
      s_Quantum = (if quantum \<le> 0 then 2 else quantum), s_currentSlice = 0, s_rng = rng\<rparr>"

definition Lottery_AddProcess :: "'g LotterySched \<Rightarrow> Process \<Rightarrow> 'g LotterySched" where
  "Lottery_AddProcess s p = base_add s p"

text \<open>The loop over the ready queue that finds the holder of the winning ticket; \<open>i\<close> is its index.\<close>

fun winner_loop :: "int list \<Rightarrow> int \<Rightarrow> int \<Rightarrow> nat \<Rightarrow> nat" where
  "winner_loop [] winningTicket ticketSum i = 0"
| "winner_loop (x # xs) winningTicket ticketSum i =
     (let ticketSum = ticketSum + x in
      if ticketSum > winningTicket then i
      else winner_loop xs winningTicket ticketSum (Suc i))"

definition winnerIdx :: "int list \<Rightarrow> int \<Rightarrow> nat" where
  "winnerIdx ts winningTicket = winner_loop ts winningTicket 0 0"

definition Lottery_dispatch ::
  "(int \<Rightarrow> 'g \<Rightarrow> int \<times> 'g) \<Rightarrow> int \<Rightarrow> 'g LotterySched \<Rightarrow> 'g LotterySched" where
  "Lottery_dispatch intn t s =
     (if s_running s = None \<and> s_readyQueue s \<noteq> [] then
        let tickets = map (\<lambda>i. p_Tickets (proc s i)) (s_readyQueue s);
            totalTickets = sum_list tickets
        in if totalTickets > 0 then
             let (winningTicket, rng) = intn totalTickets (s_rng s);
                 w = winnerIdx tickets winningTicket
             in (start_process t (s_readyQueue s ! w)
                  (s\<lparr>s_rng := rng, s_readyQueue := delete_at w (s_readyQueue s)\<rparr>))\<lparr>s_currentSlice := 0\<rparr>
           else s
      else s)"

definition Lottery_Tick ::
  "(int \<Rightarrow> 'g \<Rightarrow> int \<times> 'g) \<Rightarrow> 'g LotterySched \<Rightarrow> int \<Rightarrow> 'g LotterySched \<times> nat option \<times> bool"
  where
  "Lottery_Tick intn s t =
     (let s' = slice_run t (Lottery_dispatch intn t (slice_expire (tick_begin t s)))
      in (s', s_running s', tick_done s'))"

definition Lottery_GetCompleted :: "'g LotterySched \<Rightarrow> Process list" where
  "Lottery_GetCompleted s = map (proc s) (s_completed s)"

definition Lottery_GetMetrics :: "'g LotterySched \<Rightarrow> Metrics" where
  "Lottery_GetMetrics s =
     CalculateMetrics (Lottery_GetCompleted s) (s_totalTime s) (s_busyTime s) (s_contextSwitches s)"

text \<open>Every process holds a ticket.\<close>

definition Lottery_inv :: "'g LotterySched \<Rightarrow> bool" where
  "Lottery_inv s \<longleftrightarrow> queue_inv s \<and> (\<forall>p\<in>set (s_allProcesses s). 0 < p_Tickets p)"

section \<open>The draw\<close>

lemma winner_loop_bound: "xs \<noteq> [] \<Longrightarrow> winner_loop xs w acc i < i + length xs"
proof (induction xs arbitrary: acc i)
  case (Cons x xs)
  then show ?case using Cons.IH [of "acc + x" "Suc i"] by (cases "xs = []") (auto simp: Let_def)
qed simp

lemma winnerIdx_bound: "ts \<noteq> [] \<Longrightarrow> winnerIdx ts w < length ts"
  using winner_loop_bound [of ts w 0 0] by (simp add: winnerIdx_def)

lemma winner_loop_found: "w < acc + sum_list xs \<Longrightarrow> acc \<le> w \<Longrightarrow> i \<le> winner_loop xs w acc i"
proof (induction xs arbitrary: acc i)
  case (Cons x xs)
  from Cons.IH [of "acc + x" "Suc i"] Cons.prems show ?case
    by (auto simp: Let_def add.assoc not_less)
qed simp

text \<open>The process at index \<open>k\<close> wins for the tickets between the sums before and after it.\<close>

lemma winner_loop_interval:
  assumes "\<forall>x\<in>set xs. 0 \<le> x" and "k < length xs" and "acc \<le> w"
    and "w < acc + sum_list xs"
  shows "winner_loop xs w acc i = i + k \<longleftrightarrow>
     acc + sum_list (take k xs) \<le> w \<and> w < acc + sum_list (take (Suc k) xs)"
  using assms
proof (induction xs arbitrary: acc i k)
  case (Cons x xs)
  show ?case
  proof (cases "acc + x > w")
    case True
    have nn: "0 \<le> sum_list (take k' xs)" for k'
      using Cons.prems(1) by (intro sum_list_nonneg) (auto dest: in_set_takeD)
    show ?thesis
    proof (cases k)
      case (Suc k')
      with True nn [of k'] show ?thesis by (simp add: Let_def)
    qed (use True Cons.prems in \<open>simp add: Let_def\<close>)
  next
    case False
    then have le: "acc + x \<le> w" and gt: "w < acc + x + sum_list xs"
      using Cons.prems by (simp_all add: add.assoc)
    show ?thesis
    proof (cases k)
      case 0
      have "winner_loop xs w (acc + x) (Suc i) \<noteq> i"
        using winner_loop_found [OF gt le, of "Suc i"] by simp
      with 0 le show ?thesis by (simp add: Let_def)
    next
      case (Suc k')
      with Cons.IH [of k' "acc + x" "Suc i"] Cons.prems le gt show ?thesis
        by (simp add: Let_def add.assoc)
    qed
  qed
qed simp

lemma winnerIdx_interval:
  assumes "\<forall>x\<in>set ts. 0 \<le> x" and "k < length ts"
  shows "{w. 0 \<le> w \<and> w < sum_list ts \<and> winnerIdx ts w = k} =
     {sum_list (take k ts)..<sum_list (take (Suc k) ts)}"
proof -
  have nn: "0 \<le> sum_list (take k ts)"
    using assms(1) by (intro sum_list_nonneg) (auto dest: in_set_takeD)
  have "sum_list ts = sum_list (take (Suc k) ts) + sum_list (drop (Suc k) ts)"
    using sum_list_append [of "take (Suc k) ts" "drop (Suc k) ts"] by simp
  moreover have "0 \<le> sum_list (drop (Suc k) ts)"
    using assms(1) by (intro sum_list_nonneg) (auto dest: in_set_dropD)
  ultimately have le: "sum_list (take (Suc k) ts) \<le> sum_list ts" by simp
  have "0 \<le> w \<and> w < sum_list ts \<and> winnerIdx ts w = k \<longleftrightarrow>
      sum_list (take k ts) \<le> w \<and> w < sum_list (take (Suc k) ts)" for w
  proof (cases "0 \<le> w \<and> w < sum_list ts")
    case True
    with winner_loop_interval [OF assms, of 0 w 0] show ?thesis by (simp add: winnerIdx_def)
  next
    case False
    with nn le show ?thesis by linarith
  qed
  then show ?thesis unfolding atLeastLessThan_def atLeast_def lessThan_def by blast
qed

section \<open>The contract\<close>

lemma sum_list_pos:
  fixes xs :: "int list"
  shows "xs \<noteq> [] \<Longrightarrow> \<forall>x\<in>set xs. 0 < x \<Longrightarrow> 0 < sum_list xs"
proof (induction xs)
  case (Cons x xs)
  then show ?case by (cases "xs = []") auto
qed simp

lemma proc_queue_slice: "proc (s\<lparr>s_readyQueue := q, s_currentSlice := x\<rparr>) k = proc s k"
  by (simp add: proc_def)

lemma expire_tickets:
  "length (s_allProcesses (slice_expire s)) = length (s_allProcesses s)"
  "p_Tickets (proc (slice_expire s) i) = p_Tickets (proc s i)"
  by (cases s rule: slice_expire_cases; simp add: proc_queue_slice)+

lemma Lottery_dispatch_ok:
  assumes "queue_inv s" and "\<forall>i < length (s_allProcesses s). 0 < p_Tickets (proc s i)"
  shows "dispatch_ok t s (Lottery_dispatch intn t (slice_expire s))"
proof (cases "s_running (slice_expire s) = None \<and> s_readyQueue (slice_expire s) \<noteq> []")
  case True
  let ?e = "slice_expire s"
  let ?ts = "map (\<lambda>i. p_Tickets (proc ?e i)) (s_readyQueue ?e)"
  have rq: "refs_ok ?e (s_readyQueue ?e)" using queue_inv_expire [OF assms(1)] by (simp add: queue_inv_def)
  have pos: "0 < sum_list ?ts"
    using True refs_okD(1) [OF rq] assms(2) by (intro sum_list_pos) (auto simp: expire_tickets)
  obtain w rng where d: "intn (sum_list ?ts) (s_rng ?e) = (w, rng)" by fastforce
  let ?w = "winnerIdx ?ts w"
  have "?w < length (s_readyQueue ?e)" using winnerIdx_bound [of ?ts w] True by simp
  then have "dispatch_ok t s ((start_process t (s_readyQueue ?e ! ?w)
      (?e\<lparr>s_readyQueue := delete_at ?w (s_readyQueue ?e)\<rparr>))\<lparr>s_currentSlice := 0\<rparr>)"
    using True refs_ok_iff(1) [OF rq]
    by (intro slice_dispatch_start [OF assms(1)]) (auto simp: distinct_delete_at)
  then have "dispatch_ok t s ((start_process t (s_readyQueue ?e ! ?w)
      (?e\<lparr>s_rng := rng, s_readyQueue := delete_at ?w (s_readyQueue ?e)\<rparr>))\<lparr>s_currentSlice := 0\<rparr>)"
    by (rule dispatch_ok_cong [THEN iffD2, rotated -1]) (simp_all add: start_process_def upd_proc_def)
  then show ?thesis using True pos d by (simp add: Lottery_dispatch_def Let_def)
next
  case False
  then have "Lottery_dispatch intn t (slice_expire s) = slice_expire s"
    by (auto simp: Lottery_dispatch_def)
  with slice_dispatch_same [OF assms(1), of t] False show ?thesis by auto
qed

lemma Lottery_dispatch_tickets:
  "p_Tickets (proc (Lottery_dispatch intn t s) k) = p_Tickets (proc s k)"
proof -
  have "p_Tickets (proc ((start_process t i (s\<lparr>s_rng := g, s_readyQueue := q\<rparr>))
      \<lparr>s_currentSlice := x\<rparr>) k) = p_Tickets (proc s k)" for i g q x
    using dispatch_keeps(5) [of t i "s\<lparr>s_rng := g, s_readyQueue := q\<rparr>" k] by (simp add: proc_def)
  then show ?thesis by (simp add: Lottery_dispatch_def Let_def split: prod.split)
qed

lemma Lottery_inv_iff:
  "Lottery_inv s \<longleftrightarrow> queue_inv s \<and> (\<forall>i < length (s_allProcesses s). 0 < p_Tickets (proc s i))"
  by (simp add: Lottery_inv_def all_set_conv_all_nth proc_def)

lemma Lottery_begin_ok:
  assumes "Lottery_inv s"
  shows "dispatch_ok t (tick_begin t s) (Lottery_dispatch intn t (slice_expire (tick_begin t s)))"
proof -
  have inv: "queue_inv s" using assms by (simp add: Lottery_inv_def)
  have "length (s_allProcesses (tick_begin t s)) = length (s_allProcesses s)"
    using tick_begin_spec [OF inv [unfolded queue_inv_def], of t] by blast
  then show ?thesis
    using assms by (intro Lottery_dispatch_ok queue_inv_tick_begin [OF inv])
      (simp add: Lottery_inv_iff tick_begin_tickets)
qed

lemma Lottery_inv_tick:
  assumes "Lottery_inv s"
  shows "Lottery_inv (fst (Lottery_Tick intn s t))"
proof -
  let ?d = "Lottery_dispatch intn t (slice_expire (tick_begin t s))"
  have inv: "queue_inv s" using assms by (simp add: Lottery_inv_def)
  note c = slice_tick_contract [OF inv Lottery_begin_ok [OF assms] refl, of t intn]
  have "length (accounts (s_allProcesses (slice_run t ?d))) = length (accounts (s_allProcesses s))"
    using c astep_length by blast
  then have len: "length (s_allProcesses (slice_run t ?d)) = length (s_allProcesses s)"
    by (simp add: accounts_def)
  have "p_Tickets (proc (slice_run t ?d) k) = p_Tickets (proc s k)" for k
    using run_current_tickets [of t p_Name ?d k]
    by (simp add: proc_def Lottery_dispatch_tickets [unfolded proc_def]
        expire_tickets [unfolded proc_def] tick_begin_tickets [unfolded proc_def])
  with c assms len show ?thesis
    unfolding Lottery_Tick_def Let_def fst_conv Lottery_inv_iff by (metis (no_types, lifting))
qed

interpretation lottery: cpu_scheduler "NewLotteryScheduler q g" Lottery_AddProcess
  "\<lambda>s t. Some (Lottery_Tick intn s t)" s_allProcesses s_completed s_busyTime s_gantt
  "\<lambda>p. 0 < p_Tickets p" Lottery_inv for q g intn
proof (unfold_locales, goal_cases)
  case 1
  show ?case by (simp add: NewLotteryScheduler_def Lottery_inv_def queue_inv_def refs_ok_def)
next
  case (2 s p)
  then show ?case by (simp add: Lottery_AddProcess_def Lottery_inv_def queue_add_law)
next
  case (3 s t)
  then have inv: "queue_inv s" by (simp add: Lottery_inv_def)
  from slice_tick_contract [OF inv Lottery_begin_ok [OF 3] refl, of t intn]
    Lottery_inv_tick [OF 3, of intn t]
  show ?case unfolding Lottery_Tick_def Let_def fst_conv by blast
next
  case (4 s t s' r d)
  then have inv: "queue_inv s" by (simp add: Lottery_inv_def)
  from slice_tick_contract [OF inv Lottery_begin_ok [OF 4(1)] refl, of t intn] 4(2)
  show ?case unfolding Lottery_Tick_def Let_def by blast
next
  case (5 s)
  then show ?case by (intro queue_completed_law) (simp add: Lottery_inv_def)
qed

section \<open>Properties\<close>

text \<open>
  C40: the draw is proportional. Of the \<open>totalTickets\<close> values that the generator can return, a
  ready process wins for exactly as many as it holds tickets.
\<close>

theorem lottery_proportional:
  assumes "\<forall>x\<in>set tickets. 0 \<le> x" and "k < length tickets"
  shows "card {w. 0 \<le> w \<and> w < sum_list tickets \<and> winnerIdx tickets w = k} = nat (tickets ! k)"
  by (simp add: winnerIdx_interval [OF assms] take_Suc_conv_app_nth [OF assms(2)])

theorem lottery_proportional_witness:
  "card {w. 0 \<le> w \<and> w < sum_list [10, 30, 60::int] \<and> winnerIdx [10, 30, 60] w = 1} = 30"
  using lottery_proportional [of "[10, 30, 60]" 1] by simp

text \<open>
  lottery scheduling with any generator finishes every workload whose processes hold
  tickets, without a panic, in as many ticks as the last arrival and the work need, and leaves
  every process with consistent times.
\<close>

theorem Lottery_completes:
  assumes "workload ps" and "\<forall>p\<in>set ps. 0 < p_Tickets p" and "enough_ticks ps n"
  shows "\<exists>s. run_loop (\<lambda>s t. Some (Lottery_Tick intn s t)) n 0
       (add_clones Lottery_AddProcess ps (NewLotteryScheduler q g)) = Some s \<and>
     length (s_allProcesses s) = length ps \<and> (\<forall>p\<in>set (s_allProcesses s). finished_ok p)"
  using lottery.run_completes [OF assms(1) _ assms(3), of intn q g] assms(2) by auto

theorem Lottery_completes_witness:
  "\<exists>s. run_loop (\<lambda>s t. Some (Lottery_Tick (\<lambda>n g. (g mod n, 7 * g + 3)) s t)) 9 0
       (add_clones Lottery_AddProcess [NewProcess 1 ''A'' 0 4, NewProcess 2 ''B'' 2 3]
         (NewLotteryScheduler 2 42)) = Some s \<and>
     length (s_allProcesses s) = 2 \<and> (\<forall>p\<in>set (s_allProcesses s). finished_ok p)"
  using Lottery_completes [of "[NewProcess 1 ''A'' 0 4, NewProcess 2 ''B'' 2 3]" 9
      "\<lambda>n g. (g mod n, 7 * g + 3)" 2 42]
  by (simp add: workload_def enough_ticks_def numeral_2_eq_2)

end
