(* ===== verification/Syscalls.thy ===== *)
theory Syscalls
  imports Go_Prelude
begin

text \<open>
  The system-call dispatcher of \<open>pkg/kernel/syscall.go\<close>: the register file, the table, the check of
  user pointers, the dispatch and the default handlers. A handler gets the caller's process number and the
  registers, which it may change, and returns a 64-bit signed value and an error.
\<close>

section \<open>Data\<close>

definition SysFork :: int where "SysFork = 1"
definition SysExec :: int where "SysExec = 2"
definition SysWait :: int where "SysWait = 3"
definition SysExit :: int where "SysExit = 4"
definition SysRead :: int where "SysRead = 5"
definition SysWrite :: int where "SysWrite = 6"
definition SysPipe :: int where "SysPipe = 7"
definition SysShmGet :: int where "SysShmGet = 8"
definition SysShmAttach :: int where "SysShmAttach = 9"
definition SysKill :: int where "SysKill = 10"
definition SysSbrk :: int where "SysSbrk = 11"
definition SysYield :: int where "SysYield = 12"
definition SysGetPID :: int where "SysGetPID = 13"

lemmas sys_numbers = SysFork_def SysExec_def SysWait_def SysExit_def SysRead_def SysWrite_def SysPipe_def
  SysShmGet_def SysShmAttach_def SysKill_def SysSbrk_def SysYield_def SysGetPID_def

definition toErrno :: "int \<Rightarrow> u64" where
  "toErrno err = word_of_int (- err)"

datatype syscall_error =
    ErrInvalidSyscall int
  | ErrBadUserPointer u64
  | ErrHandler string

record SyscallRegisters =
  RAX :: u64
  RDI :: u64
  RSI :: u64
  RDX :: u64
  R10 :: u64
  R8 :: u64
  R9 :: u64

type_synonym SyscallHandlerFunc =
  "int \<Rightarrow> SyscallRegisters \<Rightarrow> SyscallRegisters \<times> int \<times> syscall_error option"

record SyscallEntry =
  se_Number :: int
  se_Name :: string
  se_Signature :: string
  se_Description :: string
  se_Handler :: SyscallHandlerFunc
  se_TotalCalls :: int

text \<open>A line of the history: the caller, the name of the call, three registers and what it returned.\<close>

datatype call_line =
    CallError int string u64 u64 u64 syscall_error
  | CallReturn int string u64 u64 u64 int

record SyscallDispatcher =
  sd_Table :: "int \<rightharpoonup> SyscallEntry"
  sd_KernelBase :: u64
  sd_CallHistory :: "call_line list"

section \<open>Handlers\<close>

definition defaultGetPID :: SyscallHandlerFunc where
  "defaultGetPID pid regs = (regs, pid, None)"

definition defaultYield :: SyscallHandlerFunc where
  "defaultYield pid regs = (regs, 0, None)"

definition defaultWrite :: SyscallHandlerFunc where
  "defaultWrite pid regs =
     (let bufPtr = RSI regs; count = RDX regs
      in if bufPtr \<ge> 0xC0000000 then (regs, -14, Some (ErrBadUserPointer bufPtr))
         else (regs, sint count, None))"

definition defaultRead :: SyscallHandlerFunc where
  "defaultRead pid regs =
     (let bufPtr = RSI regs; count = RDX regs
      in if bufPtr \<ge> 0xC0000000 then (regs, -14, Some (ErrBadUserPointer bufPtr))
         else (regs, sint count, None))"

definition defaultSbrk :: SyscallHandlerFunc where
  "defaultSbrk pid regs = (regs, 0x00020000, None)"

definition defaultExit :: SyscallHandlerFunc where
  "defaultExit pid regs = (regs, 0, None)"

definition defaultFork :: SyscallHandlerFunc where
  "defaultFork pid regs = (regs, 1001, None)"

definition defaultExec :: SyscallHandlerFunc where
  "defaultExec pid regs = (regs, 0, None)"

definition defaultWait :: SyscallHandlerFunc where
  "defaultWait pid regs = (regs, 1001, None)"

definition defaultPipe :: SyscallHandlerFunc where
  "defaultPipe pid regs = (regs, 0, None)"

definition defaultShmGet :: SyscallHandlerFunc where
  "defaultShmGet pid regs = (regs, 42, None)"

definition defaultShmAttach :: SyscallHandlerFunc where
  "defaultShmAttach pid regs = (regs, 0x00300000, None)"

lemmas default_handlers = defaultGetPID_def defaultYield_def defaultWrite_def defaultRead_def
  defaultSbrk_def defaultExit_def defaultFork_def defaultExec_def defaultWait_def defaultPipe_def
  defaultShmGet_def defaultShmAttach_def

section \<open>The dispatcher\<close>

definition Register ::
  "SyscallDispatcher \<Rightarrow> int \<Rightarrow> string \<Rightarrow> string \<Rightarrow> string \<Rightarrow> SyscallHandlerFunc \<Rightarrow> SyscallDispatcher" where
  "Register sd num name sig desc handler =
     sd\<lparr>sd_Table := (sd_Table sd)(num \<mapsto>
       \<lparr>se_Number = num, se_Name = name, se_Signature = sig, se_Description = desc,
        se_Handler = handler, se_TotalCalls = 0\<rparr>)\<rparr>"

definition NewSyscallDispatcher :: SyscallDispatcher where
  "NewSyscallDispatcher =
     (let sd = \<lparr>sd_Table = Map.empty, sd_KernelBase = 0xC0000000, sd_CallHistory = []\<rparr>;
          sd = Register sd SysGetPID ''getpid'' ''pid_t sys_getpid(void)''
                 ''Returns the process ID of the calling process'' defaultGetPID;
          sd = Register sd SysYield ''sched_yield'' ''int sys_yield(void)''
                 ''Voluntarily relinquishes the CPU to other ready processes'' defaultYield;
          sd = Register sd SysWrite ''write'' ''ssize_t sys_write(int fd, const void *buf, size_t count)''
                 ''Writes data from user buffer to file/socket/pipe'' defaultWrite;
          sd = Register sd SysRead ''read'' ''ssize_t sys_read(int fd, void *buf, size_t count)''
                 ''Reads data from file/socket/pipe into user buffer'' defaultRead;
          sd = Register sd SysSbrk ''sbrk'' ''void *sys_sbrk(intptr_t increment)''
                 ''Adjusts heap break pointer to grow/shrink dynamic memory'' defaultSbrk;
          sd = Register sd SysExit ''exit'' ''void sys_exit(int status)''
                 ''Terminates the calling process with exit status code'' defaultExit;
          sd = Register sd SysFork ''fork'' ''pid_t sys_fork(void)''
                 ''Duplicates calling process (clones address space & PCB)'' defaultFork;
          sd = Register sd SysExec ''execve'' ''int sys_execve(const char *filename, char *const argv[])''
                 ''Replaces current process image with new program'' defaultExec;
          sd = Register sd SysWait ''waitpid'' ''pid_t sys_waitpid(pid_t pid, int *status, int options)''
                 ''Blocks parent until specified child process exits'' defaultWait;
          sd = Register sd SysPipe ''pipe'' ''int sys_pipe(int pipefd[2])''
                 ''Creates unidirectional IPC pipe data channel'' defaultPipe;
          sd = Register sd SysShmGet ''shmget'' ''int sys_shmget(key_t key, size_t size, int shmflg)''
                 ''Allocates shared memory segment across processes'' defaultShmGet
      in Register sd SysShmAttach ''shmat'' ''void *sys_shmat(int shmid, const void *shmaddr, int shmflg)''
           ''Maps shared physical frame into virtual address space'' defaultShmAttach)"

definition ValidateUserPointer :: "SyscallDispatcher \<Rightarrow> u64 \<Rightarrow> u64 \<Rightarrow> syscall_error option" where
  "ValidateUserPointer sd vAddr sz =
     (if vAddr + sz > sd_KernelBase sd \<or> vAddr \<ge> sd_KernelBase sd then Some (ErrBadUserPointer vAddr)
      else None)"

definition Dispatch ::
  "SyscallDispatcher \<Rightarrow> int \<Rightarrow> SyscallRegisters
     \<Rightarrow> SyscallDispatcher \<times> SyscallRegisters \<times> int \<times> syscall_error option" where
  "Dispatch sd pid regs =
     (let syscallNum = sint (RAX regs) in
      case sd_Table sd syscallNum of
        None \<Rightarrow> (sd, regs\<lparr>RAX := toErrno 1\<rparr>, -1, Some (ErrInvalidSyscall syscallNum))
      | Some entry \<Rightarrow>
          let sd1 = sd\<lparr>sd_Table := (sd_Table sd)(syscallNum \<mapsto> entry\<lparr>se_TotalCalls := se_TotalCalls entry + 1\<rparr>)\<rparr>;
              (regs1, retVal, err) = se_Handler entry pid regs
          in case err of
               Some e \<Rightarrow>
                 (sd1\<lparr>sd_CallHistory := sd_CallHistory sd1 @
                        [CallError pid (se_Name entry) (RDI regs1) (RSI regs1) (RDX regs1) e]\<rparr>,
                  regs1\<lparr>RAX := toErrno 22\<rparr>, retVal, Some e)
             | None \<Rightarrow>
                 (sd1\<lparr>sd_CallHistory := sd_CallHistory sd1 @
                        [CallReturn pid (se_Name entry) (RDI regs1) (RSI regs1) (RDX regs1) retVal]\<rparr>,
                  regs1\<lparr>RAX := word_of_int retVal\<rparr>, retVal, None))"

fun run_calls :: "SyscallDispatcher \<Rightarrow> (int \<times> SyscallRegisters) list \<Rightarrow> SyscallDispatcher" where
  "run_calls sd [] = sd"
| "run_calls sd ((pid, regs) # cs) = run_calls (fst (Dispatch sd pid regs)) cs"

lemma NewSyscallDispatcher_base [simp]: "sd_KernelBase NewSyscallDispatcher = 0xC0000000"
  by (simp add: NewSyscallDispatcher_def Register_def)

lemma NewSyscallDispatcher_history: "sd_CallHistory NewSyscallDispatcher = []"
  by (simp add: NewSyscallDispatcher_def Register_def)

section \<open>User pointers\<close>

lemma ValidateUserPointer_None:
  "ValidateUserPointer sd v sz = None \<longleftrightarrow> v + sz \<le> sd_KernelBase sd \<and> v < sd_KernelBase sd"
  by (simp add: ValidateUserPointer_def not_less not_le)

text \<open>When the address plus the size does not pass the end of the 64-bit address space, a pointer
  is accepted exactly when its region is one of user space: it starts below the kernel base and ends
  there at the latest.\<close>

theorem ValidateUserPointer_exact:
  assumes "unat v + unat sz < 2 ^ 64"
  shows "ValidateUserPointer sd v sz = None \<longleftrightarrow>
    unat v < unat (sd_KernelBase sd) \<and> {unat v ..< unat v + unat sz} \<subseteq> {..< unat (sd_KernelBase sd)}"
proof -
  have "unat (v + sz) = unat v + unat sz" using assms by (rule unat_add_u64)
  moreover have "{unat v ..< unat v + unat sz} \<subseteq> {0 ..< unat (sd_KernelBase sd)} \<longleftrightarrow>
      unat sz = 0 \<or> unat v + unat sz \<le> unat (sd_KernelBase sd)"
    by (subst ivl_subset) auto
  ultimately show ?thesis
    by (auto simp: ValidateUserPointer_None word_le_nat_alt word_less_nat_alt lessThan_atLeast0)
qed

theorem ValidateUserPointer_exact_witness:
  "ValidateUserPointer NewSyscallDispatcher 0xBFFFFFF0 16 = None \<and>
   ValidateUserPointer NewSyscallDispatcher 0xBFFFFFF0 17 \<noteq> None"
  using ValidateUserPointer_exact[of "0xBFFFFFF0" 16 NewSyscallDispatcher]
    ValidateUserPointer_exact[of "0xBFFFFFF0" 17 NewSyscallDispatcher]
  by (simp add: ivl_subset lessThan_atLeast0)

text \<open>A size that carries the end of the region past the last 64-bit address is accepted for every user
  address, although the region then covers the whole kernel space.\<close>

theorem ValidateUserPointer_wraps:
  assumes "unat v < unat (sd_KernelBase sd)" and "sz = - v"
    and "v \<noteq> 0"
  shows "ValidateUserPointer sd v sz = None \<and>
    {unat (sd_KernelBase sd) ..< 2 ^ 64} \<subseteq> {unat v ..< unat v + unat sz}"
proof -
  have "unat sz = unat (0 - v)" using assms(2) by simp
  then have "unat sz = 2 ^ 64 - unat v" using assms(3) by (simp only: unat_sub_if') (simp add: unat_eq_0)
  then show ?thesis using assms by (auto simp: ValidateUserPointer_None word_less_nat_alt)
qed

theorem ValidateUserPointer_wraps_witness:
  "ValidateUserPointer NewSyscallDispatcher 0x00400000 0xFFFFFFFFFFC00000 = None"
  using ValidateUserPointer_wraps[of "0x00400000" NewSyscallDispatcher "0xFFFFFFFFFFC00000"]
  by simp

section \<open>The binary interface\<close>

text \<open>The dispatchers that use the default handlers, whatever their counters and histories.\<close>

definition default_handler :: "int \<rightharpoonup> SyscallHandlerFunc" where
  "default_handler = [SysGetPID \<mapsto> defaultGetPID, SysYield \<mapsto> defaultYield, SysWrite \<mapsto> defaultWrite,
     SysRead \<mapsto> defaultRead, SysSbrk \<mapsto> defaultSbrk, SysExit \<mapsto> defaultExit, SysFork \<mapsto> defaultFork,
     SysExec \<mapsto> defaultExec, SysWait \<mapsto> defaultWait, SysPipe \<mapsto> defaultPipe,
     SysShmGet \<mapsto> defaultShmGet, SysShmAttach \<mapsto> defaultShmAttach]"

definition handlers :: "SyscallDispatcher \<Rightarrow> int \<rightharpoonup> SyscallHandlerFunc" where
  "handlers sd n = map_option se_Handler (sd_Table sd n)"

definition standard :: "SyscallDispatcher \<Rightarrow> bool" where
  "standard sd \<longleftrightarrow> handlers sd = default_handler"

lemma handlers_Register: "handlers (Register sd n a b c h) = (handlers sd)(n \<mapsto> h)"
  by (simp add: handlers_def Register_def fun_eq_iff)

lemma handlers_empty: "handlers \<lparr>sd_Table = Map.empty, sd_KernelBase = b, sd_CallHistory = []\<rparr> = Map.empty"
  by (simp add: handlers_def fun_eq_iff)

definition total_calls :: "SyscallDispatcher \<Rightarrow> int" where
  "total_calls sd = (\<Sum>n\<leftarrow>[1..13]. case sd_Table sd n of None \<Rightarrow> 0 | Some e \<Rightarrow> se_TotalCalls e)"

lemma standard_New: "standard NewSyscallDispatcher"
  by (simp only: standard_def default_handler_def NewSyscallDispatcher_def Let_def handlers_Register handlers_empty)

lemma default_handler_dom: "dom default_handler = {1..13} - {SysKill}"
proof -
  have "dom default_handler = set [1..13] - {10}"
    by (auto simp: default_handler_def sys_numbers upto_rec1[of 1 13] simp del: set_upto)
  then show ?thesis by (simp only: set_upto SysKill_def)
qed

lemma standard_entry:
  assumes "standard sd"
  shows "sd_Table sd n = None \<longleftrightarrow> n \<notin> {1..13} - {SysKill}"
proof -
  have "sd_Table sd n = None \<longleftrightarrow> n \<notin> dom default_handler"
    using assms by (metis standard_def handlers_def domIff map_option_is_None)
  then show ?thesis by (simp add: default_handler_dom)
qed

lemma default_handler_answers:
  assumes "default_handler n = Some h" "h pid regs = (regs', r, err)"
  shows "regs' = regs" "(err = None) \<longleftrightarrow> \<not> (n \<in> {SysRead, SysWrite} \<and> RSI regs \<ge> 0xC0000000)"
  using assms by (auto simp: default_handler_def default_handlers Let_def sys_numbers split: if_splits)

lemma handlers_Dispatch: "handlers (fst (Dispatch sd pid regs)) = handlers sd"
  by (auto simp: handlers_def fun_eq_iff Dispatch_def Let_def split: option.splits prod.splits)

lemma run_calls_handlers: "handlers (run_calls sd cs) = handlers sd"
  by (induction sd cs rule: run_calls.induct) (simp_all add: handlers_Dispatch)

lemma total_calls_update:
  assumes "1 \<le> n" "n \<le> 13" "sd_Table sd n = Some e"
  shows "total_calls (sd\<lparr>sd_Table := (sd_Table sd)(n \<mapsto> e\<lparr>se_TotalCalls := se_TotalCalls e + 1\<rparr>)\<rparr>) = total_calls sd + 1"
proof -
  define f where "f = (\<lambda>m. case sd_Table sd m of None \<Rightarrow> 0 | Some e \<Rightarrow> se_TotalCalls e)"
  have "(case ((sd_Table sd)(n \<mapsto> e\<lparr>se_TotalCalls := se_TotalCalls e + 1\<rparr>)) m of None \<Rightarrow> 0 | Some e \<Rightarrow> se_TotalCalls e)
      = f m + (if m = n then 1 else 0)" for m
    using assms by (simp add: f_def)
  then have "total_calls (sd\<lparr>sd_Table := (sd_Table sd)(n \<mapsto> e\<lparr>se_TotalCalls := se_TotalCalls e + 1\<rparr>)\<rparr>)
      = (\<Sum>m\<leftarrow>[1..13]. f m + (if m = n then 1 else 0))" by (simp add: total_calls_def)
  also have "\<dots> = (\<Sum>m\<leftarrow>[1..13]. f m) + (\<Sum>m\<leftarrow>[1..13]. if m = n then 1 else 0)"
    by (rule sum_list_addf)
  also have "(\<Sum>m\<leftarrow>[1..13]. if m = n then 1 else 0) = (\<Sum>m\<in>{1..13}. if m = n then 1 else (0::int))"
    by (simp only: sum_list_distinct_conv_sum_set distinct_upto set_upto)
  also have "\<dots> = 1" using assms by simp
  finally show ?thesis by (simp add: total_calls_def f_def)
qed

lemma total_calls_history [simp]: "total_calls (sd\<lparr>sd_CallHistory := h\<rparr>) = total_calls sd"
  by (simp add: total_calls_def)

lemma Dispatch_counts:
  assumes S: "standard sd" and D: "Dispatch sd pid regs = (sd', regs', ret, err)"
  defines "n \<equiv> sint (RAX regs)"
  shows "length (sd_CallHistory sd') = length (sd_CallHistory sd) + (if n \<in> {1..13} - {SysKill} then 1 else 0)"
    "total_calls sd' = total_calls sd + (if n \<in> {1..13} - {SysKill} then 1 else 0)"
proof -
  have "length (sd_CallHistory sd') = length (sd_CallHistory sd) + (if n \<in> {1..13} - {SysKill} then 1 else 0) \<and>
    total_calls sd' = total_calls sd + (if n \<in> {1..13} - {SysKill} then 1 else 0)"
  proof (cases "sd_Table sd n")
    case None
    then show ?thesis using D standard_entry[OF S, of n] by (auto simp: Dispatch_def n_def Let_def)
  next
    case (Some e)
    then have n: "n \<in> {1..13} - {SysKill}" using standard_entry[OF S, of n] by simp
    then show ?thesis using D Some total_calls_update[of n sd e]
      by (auto simp: Dispatch_def n_def[symmetric] Let_def split: prod.splits option.splits)
  qed
  then show "length (sd_CallHistory sd') = length (sd_CallHistory sd) + (if n \<in> {1..13} - {SysKill} then 1 else 0)"
    "total_calls sd' = total_calls sd + (if n \<in> {1..13} - {SysKill} then 1 else 0)" by blast+
qed

lemma Dispatch_result:
  assumes S: "standard sd" and D: "Dispatch sd pid regs = (sd', regs', ret, err)"
  defines "n \<equiv> sint (RAX regs)"
  shows "err = None \<longleftrightarrow> n \<in> {1..13} - {SysKill} \<and> \<not> (n \<in> {SysRead, SysWrite} \<and> RSI regs \<ge> 0xC0000000)"
    "regs' = regs\<lparr>RAX := if err = None then word_of_int ret
                        else if n \<in> {1..13} - {SysKill} then toErrno 22 else toErrno 1\<rparr>"
proof -
  have "(err = None \<longleftrightarrow> n \<in> {1..13} - {SysKill} \<and> \<not> (n \<in> {SysRead, SysWrite} \<and> RSI regs \<ge> 0xC0000000)) \<and>
    regs' = regs\<lparr>RAX := if err = None then word_of_int ret
                        else if n \<in> {1..13} - {SysKill} then toErrno 22 else toErrno 1\<rparr>"
  proof (cases "sd_Table sd n")
    case None
    then show ?thesis using D standard_entry[OF S, of n] by (auto simp: Dispatch_def n_def Let_def)
  next
    case (Some e)
    then have n: "n \<in> {1..13} - {SysKill}" using standard_entry[OF S, of n] by simp
    obtain regs1 ret1 err1 where H: "se_Handler e pid regs = (regs1, ret1, err1)" by (metis prod_cases3)
    have "default_handler n = Some (se_Handler e)" using S Some
      by (simp add: standard_def handlers_def fun_eq_iff) (metis option.map(2))
    from default_handler_answers[OF this H] have h: "regs1 = regs"
      "(err1 = None) = (\<not> (n \<in> {SysRead, SysWrite} \<and> RSI regs \<ge> 0xC0000000))" by blast+
    have "err = err1 \<and> ret = ret1 \<and> regs' = regs1\<lparr>RAX := if err1 = None then word_of_int ret1 else toErrno 22\<rparr>"
      using D Some H by (cases err1) (auto simp: Dispatch_def n_def[symmetric] Let_def)
    with h n show ?thesis by simp
  qed
  then show "err = None \<longleftrightarrow> n \<in> {1..13} - {SysKill} \<and> \<not> (n \<in> {SysRead, SysWrite} \<and> RSI regs \<ge> 0xC0000000)"
    "regs' = regs\<lparr>RAX := if err = None then word_of_int ret
                        else if n \<in> {1..13} - {SysKill} then toErrno 22 else toErrno 1\<rparr>" by blast+
qed

lemma run_calls_counted:
  assumes "standard sd" "total_calls sd = int (length (sd_CallHistory sd))"
  shows "total_calls (run_calls sd cs) = int (length (sd_CallHistory (run_calls sd cs)))"
  using assms
proof (induction sd cs rule: run_calls.induct)
  case (2 sd pid regs cs)
  obtain sd' regs' ret err where D: "Dispatch sd pid regs = (sd', regs', ret, err)" by (metis prod_cases4)
  have "standard sd'" using 2(2) handlers_Dispatch[of sd pid regs] D by (simp add: standard_def)
  with 2 D Dispatch_counts[OF 2(2) D] show ?case by simp
qed simp

lemma total_calls_New: "total_calls NewSyscallDispatcher = int (length (sd_CallHistory NewSyscallDispatcher))"
  by (simp add: total_calls_def NewSyscallDispatcher_def Register_def Let_def sys_numbers upto_rec1[of 1 13])

text \<open>
  The counter of one entry of the table, the calls of a list that ask for a number, and the calls of
  read and write by where their buffer lies: its start is in kernel space, or all of it is in user
  space. Every other call has no buffer.
\<close>

definition calls_of :: "SyscallDispatcher \<Rightarrow> int \<Rightarrow> int" where
  "calls_of sd n = (case sd_Table sd n of None \<Rightarrow> 0 | Some e \<Rightarrow> se_TotalCalls e)"

definition asked :: "(int \<times> SyscallRegisters) list \<Rightarrow> int \<Rightarrow> int" where
  "asked cs n = int (length (filter (\<lambda>c. sint (RAX (snd c)) = n) cs))"

definition kernel_buffer :: "SyscallRegisters \<Rightarrow> bool" where
  "kernel_buffer regs \<longleftrightarrow> sint (RAX regs) \<in> {SysRead, SysWrite} \<and> RSI regs \<ge> 0xC0000000"

definition user_buffer :: "SyscallRegisters \<Rightarrow> bool" where
  "user_buffer regs \<longleftrightarrow> (sint (RAX regs) \<in> {SysRead, SysWrite} \<longrightarrow>
     RSI regs < 0xC0000000 \<and> unat (RSI regs) + unat (RDX regs) \<le> 0xC0000000)"

lemma Dispatch_calls_of:
  "calls_of (fst (Dispatch sd pid regs)) n =
     calls_of sd n + (if sint (RAX regs) = n \<and> sd_Table sd n \<noteq> None then 1 else 0)"
  by (auto simp: calls_of_def Dispatch_def Let_def split: option.splits prod.splits)

lemma Dispatch_table: "sd_Table (fst (Dispatch sd pid regs)) n = None \<longleftrightarrow> sd_Table sd n = None"
  using handlers_Dispatch[of sd pid regs] by (metis handlers_def map_option_is_None)

lemma run_calls_of:
  "calls_of (run_calls sd cs) n = calls_of sd n + (if sd_Table sd n \<noteq> None then asked cs n else 0)"
  by (induction sd cs rule: run_calls.induct)
    (auto simp: asked_def Dispatch_calls_of Dispatch_table)

lemma calls_of_New: "calls_of NewSyscallDispatcher n = 0"
  by (simp add: calls_of_def NewSyscallDispatcher_def Register_def Let_def)

lemma Dispatch_logs:
  assumes "Dispatch sd pid regs = (sd', regs', ret, err)"
  shows "\<exists>ls. sd_CallHistory sd' = sd_CallHistory sd @ ls \<and>
     length ls = (if sd_Table sd (sint (RAX regs)) \<noteq> None then 1 else 0)"
  using assms by (auto simp: Dispatch_def Let_def split: option.splits prod.splits)

lemma Dispatch_RAX:
  assumes "standard sd" and "Dispatch sd pid regs = (sd', regs', ret, err)"
  shows "\<exists>a. regs' = regs\<lparr>RAX := a\<rparr> \<and> (if err = None then a = word_of_int ret else sint a < 0)"
proof -
  have "sint (toErrno 22) < 0" "sint (toErrno 1) < 0" by (simp_all add: toErrno_def)
  then show ?thesis using Dispatch_result(2)[OF assms] by auto
qed


definition regs0 :: SyscallRegisters where
  "regs0 = \<lparr>RAX = 0, RDI = 1, RSI = 0xC0000000, RDX = 16, R10 = 0, R8 = 0, R9 = 0\<rparr>"


text \<open>The errors that the two failures leave in \<open>RAX\<close>: -22 for every error of a handler, a bad pointer
  included, and -1 for a number that is not registered.\<close>

lemma Dispatch_errno:
  assumes "Dispatch (run_calls NewSyscallDispatcher cs) pid regs = (sd', regs', ret, Some e)"
  shows "RAX regs' = (if sint (RAX regs) \<in> {1..13} - {SysKill} then - 22 else - 1)"
proof -
  have S: "standard (run_calls NewSyscallDispatcher cs)"
    using standard_New by (simp add: standard_def run_calls_handlers)
  show ?thesis using Dispatch_result(2)[OF S assms] by (simp add: toErrno_def)
qed

text \<open>A buffer that starts in user space and ends in kernel space passes the check of the write
  handler, which the dispatcher's own pointer check would refuse.\<close>

lemma write_across_kernel_base:
  "let regs = regs0\<lparr>RSI := 0xBFFFFFFF\<rparr> in
   ValidateUserPointer NewSyscallDispatcher (RSI regs) (RDX regs) \<noteq> None \<and> defaultWrite 7 regs = (regs, 16, None)"
  by (simp add: ValidateUserPointer_def defaultWrite_def regs0_def)

end
