(* ===== verification/Paging.thy ===== *)
theory Paging
  imports Go_Prelude
begin

text \<open>
  The linear page table of \<open>pkg/memory/paging.go\<close> and the two-level page table of
  \<open>pkg/memory/multilevel_pt.go\<close>. A pointer to a page table entry is the index of the entry. The
  error values are the sentinel errors that the code wraps. The two-level table is shown to be an
  implementation of a linear table with \<open>2 ^ 20\<close> entries.
\<close>

section \<open>The linear page table\<close>

datatype mem_error = ErrPageFault | ErrProtectionFault | ErrInvalidPage

record PageTableEntry =
  pte_Valid :: bool
  pte_Present :: bool
  pte_ReadWrite :: bool
  pte_UserSupervisor :: bool
  pte_Accessed :: bool
  pte_Dirty :: bool
  pte_PFN :: u64
  pte_SwapOffset :: u64

record PageTable =
  pt_PID :: int
  pt_PageSize :: u64
  pt_Entries :: "PageTableEntry list"
  pt_NumPages :: int

definition zero_PTE :: PageTableEntry where
  "zero_PTE = \<lparr>pte_Valid = False, pte_Present = False, pte_ReadWrite = False,
     pte_UserSupervisor = False, pte_Accessed = False, pte_Dirty = False, pte_PFN = 0,
     pte_SwapOffset = 0\<rparr>"

text \<open>\<open>make\<close> panics on a negative length.\<close>

definition NewPageTable :: "int \<Rightarrow> int \<Rightarrow> u64 \<Rightarrow> PageTable option" where
  "NewPageTable pid numPages pageSize =
     (let pageSize = (if pageSize = 0 then 4096 else pageSize) in
      if numPages < 0 then None
      else Some \<lparr>pt_PID = pid, pt_PageSize = pageSize,
                 pt_Entries = replicate (nat numPages) zero_PTE, pt_NumPages = numPages\<rparr>)"

text \<open>The guard compares \<open>int(vpn)\<close>, the index expression uses \<open>vpn\<close> itself.\<close>

definition mapped_PTE :: "u64 \<Rightarrow> bool \<Rightarrow> PageTableEntry" where
  "mapped_PTE pfn writable = zero_PTE\<lparr>pte_Valid := True, pte_Present := True,
     pte_ReadWrite := writable, pte_UserSupervisor := True, pte_PFN := pfn\<rparr>"

definition MapPage :: "PageTable \<Rightarrow> u64 \<Rightarrow> u64 \<Rightarrow> bool \<Rightarrow> PageTable option" where
  "MapPage pt vpn pfn writable =
     (if int_of_u64 vpn < int (length (pt_Entries pt)) then
        case go_update (pt_Entries pt) (uint vpn) (mapped_PTE pfn writable) of
          None \<Rightarrow> None
        | Some es \<Rightarrow> Some (pt\<lparr>pt_Entries := es\<rparr>)
      else Some pt)"

text \<open>
  The part of \<open>Translate\<close> after the entry is found: the page table with the tracking bits set,
  the address and the error. \<open>i\<close> is the index of the entry.
\<close>

definition touch_PTE :: "bool \<Rightarrow> PageTableEntry \<Rightarrow> PageTableEntry" where
  "touch_PTE isWrite e =
     (let e1 = e\<lparr>pte_Accessed := True\<rparr> in if isWrite then e1\<lparr>pte_Dirty := True\<rparr> else e1)"

definition access_PTE ::
  "PageTable \<Rightarrow> nat \<Rightarrow> u64 \<Rightarrow> u64 \<Rightarrow> bool \<Rightarrow> PageTable \<times> u64 \<times> nat option \<times> mem_error option" where
  "access_PTE pt i offset pageSize isWrite =
     (let entry = pt_Entries pt ! i in
      if \<not> pte_Present entry then (pt, 0, Some i, Some ErrPageFault)
      else if isWrite \<and> \<not> pte_ReadWrite entry then (pt, 0, Some i, Some ErrProtectionFault)
      else (pt\<lparr>pt_Entries := (pt_Entries pt)[i := touch_PTE isWrite entry]\<rparr>,
            pte_PFN entry * pageSize + offset, Some i, None))"

text \<open>\<^const>\<open>None\<close> is a panic: division by a zero page size, or the index out of range.\<close>

definition Translate ::
  "PageTable \<Rightarrow> u64 \<Rightarrow> bool \<Rightarrow> (PageTable \<times> u64 \<times> nat option \<times> mem_error option) option" where
  "Translate pt vAddr isWrite =
     (if pt_PageSize pt = 0 then None else
      let vpn = vAddr div pt_PageSize pt;
          offset = vAddr mod pt_PageSize pt
      in if int (length (pt_Entries pt)) \<le> int_of_u64 vpn
         then Some (pt, 0, None, Some ErrInvalidPage)
         else
           case go_index (pt_Entries pt) (uint vpn) of
             None \<Rightarrow> None
           | Some e \<Rightarrow>
               if \<not> pte_Valid e then Some (pt, 0, None, Some ErrInvalidPage)
               else Some (access_PTE pt (unat vpn) offset (pt_PageSize pt) isWrite))"

section \<open>The two-level page table\<close>

record PageDirectoryEntry =
  pde_Valid :: bool
  pde_PageTable :: "PageTable option"
  pde_PFN :: u64

record MultiLevelPageTable =
  ml_PID :: int
  ml_PageSize :: u64
  ml_DirectorySize :: int
  ml_TableSize :: int
  ml_Directory :: "PageDirectoryEntry list"
  ml_AllocatedPTs :: int

definition zero_PDE :: PageDirectoryEntry where
  "zero_PDE = \<lparr>pde_Valid = False, pde_PageTable = None, pde_PFN = 0\<rparr>"

definition NewMultiLevelPageTable :: "int \<Rightarrow> MultiLevelPageTable" where
  "NewMultiLevelPageTable pid = \<lparr>ml_PID = pid, ml_PageSize = 4096, ml_DirectorySize = 1024,
     ml_TableSize = 1024, ml_Directory = replicate 1024 zero_PDE, ml_AllocatedPTs = 0\<rparr>"

definition pdeIdx :: "u64 \<Rightarrow> u64" where
  "pdeIdx vAddr = drop_bit 22 vAddr AND 0x3FF"

definition pteIdx :: "u64 \<Rightarrow> u64" where
  "pteIdx vAddr = drop_bit 12 vAddr AND 0x3FF"

definition ml_ensure :: "MultiLevelPageTable \<Rightarrow> u64 \<Rightarrow> MultiLevelPageTable option" where
  "ml_ensure m i =
     (case go_index (ml_Directory m) (uint i) of
        None \<Rightarrow> None
      | Some d \<Rightarrow>
          if pde_Valid d then Some m
          else
            case NewPageTable (ml_PID m) (ml_TableSize m) (ml_PageSize m) of
              None \<Rightarrow> None
            | Some pt \<Rightarrow>
                Some (m\<lparr>ml_Directory := (ml_Directory m)[unat i :=
                          \<lparr>pde_Valid = True, pde_PageTable = Some pt, pde_PFN = i + 100\<rparr>],
                        ml_AllocatedPTs := ml_AllocatedPTs m + 1\<rparr>))"

definition ml_set_table :: "MultiLevelPageTable \<Rightarrow> u64 \<Rightarrow> PageTable \<Rightarrow> MultiLevelPageTable" where
  "ml_set_table m i pt = m\<lparr>ml_Directory := (ml_Directory m)[unat i :=
     (ml_Directory m ! unat i)\<lparr>pde_PageTable := Some pt\<rparr>]\<rparr>"

definition ML_Map :: "MultiLevelPageTable \<Rightarrow> u64 \<Rightarrow> u64 \<Rightarrow> bool \<Rightarrow> MultiLevelPageTable option" where
  "ML_Map m vAddr pfn writable =
     (case ml_ensure m (pdeIdx vAddr) of
        None \<Rightarrow> None
      | Some m1 \<Rightarrow>
          case pde_PageTable (ml_Directory m1 ! unat (pdeIdx vAddr)) of
            None \<Rightarrow> None
          | Some pt \<Rightarrow>
              case MapPage pt (pteIdx vAddr) pfn writable of
                None \<Rightarrow> None
              | Some pt' \<Rightarrow> Some (ml_set_table m1 (pdeIdx vAddr) pt'))"

definition ML_Translate ::
  "MultiLevelPageTable \<Rightarrow> u64 \<Rightarrow> bool
     \<Rightarrow> (MultiLevelPageTable \<times> u64 \<times> nat option \<times> mem_error option) option" where
  "ML_Translate m vAddr isWrite =
     (let i = pdeIdx vAddr; j = pteIdx vAddr; offset = vAddr AND 0xFFF in
      case go_index (ml_Directory m) (uint i) of
        None \<Rightarrow> None
      | Some d \<Rightarrow>
          if \<not> pde_Valid d then Some (m, 0, None, Some ErrInvalidPage)
          else
            case pde_PageTable d of
              None \<Rightarrow> None
            | Some pt \<Rightarrow>
                if int (length (pt_Entries pt)) \<le> int_of_u64 j
                then Some (m, 0, None, Some ErrInvalidPage)
                else
                  case go_index (pt_Entries pt) (uint j) of
                    None \<Rightarrow> None
                  | Some e \<Rightarrow>
                      if \<not> pte_Valid e then Some (m, 0, None, Some ErrInvalidPage)
                      else
                        let (pt', pAddr, r, err) =
                              access_PTE pt (unat j) offset (ml_PageSize m) isWrite
                        in Some (ml_set_table m i pt', pAddr, r, err))"

text \<open>
  The linear table that a two-level table stands for, and the shape that \<open>NewMultiLevelPageTable\<close>
  establishes and the operations keep.
\<close>

definition pde_row :: "PageDirectoryEntry \<Rightarrow> PageTableEntry list" where
  "pde_row d = (case pde_PageTable d of None \<Rightarrow> replicate 1024 zero_PTE | Some pt \<Rightarrow> pt_Entries pt)"

definition ml_abs :: "MultiLevelPageTable \<Rightarrow> PageTable" where
  "ml_abs m = \<lparr>pt_PID = ml_PID m, pt_PageSize = 4096,
     pt_Entries = concat (map pde_row (ml_Directory m)), pt_NumPages = 1048576\<rparr>"

definition pde_ok :: "PageDirectoryEntry \<Rightarrow> bool" where
  "pde_ok d \<longleftrightarrow> pde_Valid d = (pde_PageTable d \<noteq> None) \<and> length (pde_row d) = 1024"

definition ml_ok :: "MultiLevelPageTable \<Rightarrow> bool" where
  "ml_ok m \<longleftrightarrow> ml_PageSize m = 4096 \<and> ml_TableSize m = 1024 \<and> length (ml_Directory m) = 1024 \<and>
     (\<forall>d\<in>set (ml_Directory m). pde_ok d)"

section \<open>The linear table\<close>

lemma int_of_u64_bound:
  "unat w < n \<Longrightarrow> n < 2 ^ 63 \<Longrightarrow> int_of_u64 w = int (unat w)"
  by (rule int_of_u64_small) simp

lemma MapPage_in_range:
  assumes "unat vpn < length (pt_Entries pt)" and "length (pt_Entries pt) < 2 ^ 63"
  shows "MapPage pt vpn pfn w =
     Some (pt\<lparr>pt_Entries := (pt_Entries pt)[unat vpn := mapped_PTE pfn w]\<rparr>)"
  using assms int_of_u64_bound [OF assms]
  by (simp add: MapPage_def go_update_def)

lemma Translate_in_range:
  assumes "unat (v div pt_PageSize pt) < length (pt_Entries pt)"
    and "length (pt_Entries pt) < 2 ^ 63" and "pt_PageSize pt \<noteq> 0"
  shows "Translate pt v isWrite =
     (if pte_Valid (pt_Entries pt ! unat (v div pt_PageSize pt))
      then Some (access_PTE pt (unat (v div pt_PageSize pt)) (v mod pt_PageSize pt)
             (pt_PageSize pt) isWrite)
      else Some (pt, 0, None, Some ErrInvalidPage))"
  using assms int_of_u64_bound [OF assms(1,2)]
  by (simp add: Translate_def Let_def go_index_def)

text \<open>
  what was mapped is what is translated. After \<open>MapPage\<close> an access to the page yields the
  address in the frame, or the protection error for a write to a read-only page, and the accesses
  to every other page have the result they had before.
\<close>

theorem Translate_MapPage:
  assumes "pt_PageSize pt \<noteq> 0" and "unat vpn < length (pt_Entries pt)"
    and "length (pt_Entries pt) < 2 ^ 63"
  shows "\<exists>pt'. MapPage pt vpn pfn w = Some pt' \<and>
     (\<forall>v isWrite. map_option snd (Translate pt' v isWrite) =
        (if v div pt_PageSize pt = vpn then
           Some (if isWrite \<and> \<not> w then (0, Some (unat vpn), Some ErrProtectionFault)
                 else (pfn * pt_PageSize pt + v mod pt_PageSize pt, Some (unat vpn), None))
         else map_option snd (Translate pt v isWrite)))"
proof -
  let ?pt = "pt\<lparr>pt_Entries := (pt_Entries pt)[unat vpn := mapped_PTE pfn w]\<rparr>"
  have "map_option snd (Translate ?pt v isWrite) =
      (if v div pt_PageSize pt = vpn then
         Some (if isWrite \<and> \<not> w then (0, Some (unat vpn), Some ErrProtectionFault)
               else (pfn * pt_PageSize pt + v mod pt_PageSize pt, Some (unat vpn), None))
       else map_option snd (Translate pt v isWrite))" for v isWrite
  proof (cases "v div pt_PageSize pt = vpn")
    case True
    with assms show ?thesis
      by (simp add: Translate_in_range access_PTE_def mapped_PTE_def zero_PTE_def Let_def)
  next
    case False
    then have ne: "unat (v div pt_PageSize pt) \<noteq> unat vpn" by (simp add: word_unat_eq_iff)
    show ?thesis
      using False ne assms(1)
      by (simp add: Translate_def Let_def go_index_def access_PTE_def nth_list_update split: option.split)
  qed
  with MapPage_in_range [OF assms(2,3)] show ?thesis by blast
qed

theorem Translate_MapPage_witness:
  "\<exists>pt pt'. NewPageTable 1 8 4096 = Some pt \<and> MapPage pt 3 7 False = Some pt' \<and>
     map_option snd (Translate pt' 0x3ABC False) = Some (0x7ABC, Some 3, None) \<and>
     map_option snd (Translate pt' 0x3ABC True) = Some (0, Some 3, Some ErrProtectionFault)"
proof -
  obtain pt where pt: "NewPageTable 1 8 4096 = Some pt" by (simp add: NewPageTable_def)
  then have f: "pt_PageSize pt = 4096" "length (pt_Entries pt) = 8"
    by (auto simp: NewPageTable_def)
  have v: "(0x3ABC :: u64) div 4096 = 3" "(0x3ABC :: u64) mod 4096 = 0xABC" by simp_all
  from Translate_MapPage [of pt 3 7 False] f obtain pt' where "MapPage pt 3 7 False = Some pt'"
    "\<forall>v isWrite. map_option snd (Translate pt' v isWrite) =
        (if v div 4096 = 3 then Some (if isWrite then (0, Some 3, Some ErrProtectionFault)
                 else (7 * 4096 + v mod 4096, Some 3, None))
         else map_option snd (Translate pt v isWrite))" by auto
  with pt v show ?thesis by (intro exI [of _ pt] exI [of _ pt']) simp
qed

section \<open>The two-level table implements a linear one\<close>

lemma pdeIdx_unat: "unat (pdeIdx v) = unat v div 4194304 mod 1024"
  using unat_field [of 22 v 10] by (simp add: pdeIdx_def mask_eq_exp_minus_1)

lemma pteIdx_unat: "unat (pteIdx v) = unat v div 4096 mod 1024"
  using unat_field [of 12 v 10] by (simp add: pteIdx_def mask_eq_exp_minus_1)

lemma nat_vpn_split:
  fixes n :: nat
  assumes "n < 2 ^ 32"
  shows "n div 4096 = (n div 4194304 mod 1024) * 1024 + n div 4096 mod 1024"
proof -
  have d: "n div 4194304 = n div 4096 div 1024" using div_mult2_eq [of n 4096 1024] by simp
  have "n div 4194304 < 1024" using assms by (intro less_mult_imp_div_less) simp
  then have "n div 4194304 mod 1024 = n div 4096 div 1024" by (simp add: d)
  then show ?thesis using div_mult_mod_eq [of "n div 4096" 1024] by presburger
qed

lemma vpn_split:
  assumes "unat v < 2 ^ 32"
  shows "unat (v div 4096) = unat (pdeIdx v) * 1024 + unat (pteIdx v)"
proof -
  have "unat (v div 4096) = unat v div 4096" by (simp add: unat_div)
  from trans [OF this nat_vpn_split [OF assms]] show ?thesis
    unfolding pdeIdx_unat pteIdx_unat .
qed

lemma offset_mask: "(v :: u64) AND 0xFFF = v mod 4096"
proof -
  have "v AND mask 12 = v mod 2 ^ 12" by (simp only: take_bit_eq_mask [symmetric] take_bit_eq_mod)
  then show ?thesis by (simp add: mask_eq_exp_minus_1)
qed

lemma idx_bound: "unat (pdeIdx v) < 1024" "unat (pteIdx v) < 1024"
  by (simp_all add: pdeIdx_unat pteIdx_unat)

lemma ml_rows:
  assumes "ml_ok m"
  shows "\<forall>r\<in>set (map pde_row (ml_Directory m)). length r = 1024"
    and "length (pt_Entries (ml_abs m)) = 1048576"
proof -
  show rows: "\<forall>r\<in>set (map pde_row (ml_Directory m)). length r = 1024"
    using assms by (auto simp: ml_ok_def pde_ok_def)
  show "length (pt_Entries (ml_abs m)) = 1048576"
    using length_concat_uniform [OF rows] assms by (simp add: ml_abs_def ml_ok_def)
qed

lemma ml_abs_entry:
  assumes "ml_ok m" and "unat v < 2 ^ 32"
  shows "pt_Entries (ml_abs m) ! unat (v div 4096) =
     pde_row (ml_Directory m ! unat (pdeIdx v)) ! unat (pteIdx v)"
  using concat_nth_uniform [OF ml_rows(1) [OF assms(1)], of "unat (pdeIdx v)" "unat (pteIdx v)"]
    idx_bound assms by (simp add: ml_abs_def vpn_split ml_ok_def)

lemma ml_set_entry:
  assumes "ml_ok m" and "unat v < 2 ^ 32"
    and "pde_PageTable (ml_Directory m ! unat (pdeIdx v)) = Some pt"
    and "pt' = pt\<lparr>pt_Entries := (pt_Entries pt)[unat (pteIdx v) := e]\<rparr>"
  shows "ml_ok (ml_set_table m (pdeIdx v) pt')"
    and "ml_abs (ml_set_table m (pdeIdx v) pt') =
       (ml_abs m)\<lparr>pt_Entries := (pt_Entries (ml_abs m))[unat (v div 4096) := e]\<rparr>"
proof -
  let ?i = "unat (pdeIdx v)"
  let ?d = "ml_Directory m ! ?i"
  have i: "?i < length (ml_Directory m)" using idx_bound assms(1) by (simp add: ml_ok_def)
  then have d: "pde_ok ?d" using assms(1) by (simp add: ml_ok_def)
  have row: "pde_row (?d\<lparr>pde_PageTable := Some pt'\<rparr>) = (pde_row ?d)[unat (pteIdx v) := e]"
    using assms(3,4) by (simp add: pde_row_def)
  have "pde_ok (?d\<lparr>pde_PageTable := Some pt'\<rparr>)"
    using d row assms(3) by (simp add: pde_ok_def)
  then show "ml_ok (ml_set_table m (pdeIdx v) pt')"
    using assms(1) by (auto simp: ml_ok_def ml_set_table_def dest!: set_update_subset_insert [THEN subsetD])
  have "map pde_row ((ml_Directory m)[?i := ?d\<lparr>pde_PageTable := Some pt'\<rparr>]) =
      (map pde_row (ml_Directory m))[?i := (map pde_row (ml_Directory m) ! ?i)[unat (pteIdx v) := e]]"
    using i row by (simp add: map_update)
  then show "ml_abs (ml_set_table m (pdeIdx v) pt') =
       (ml_abs m)\<lparr>pt_Entries := (pt_Entries (ml_abs m))[unat (v div 4096) := e]\<rparr>"
    using concat_update_uniform [OF ml_rows(1) [OF assms(1)], of ?i "unat (pteIdx v)" e] i idx_bound
    by (simp add: ml_abs_def ml_set_table_def vpn_split [OF assms(2)])
qed

lemma ml_ensure_ok:
  assumes "ml_ok m" and "unat i < 1024"
  shows "\<exists>m'. ml_ensure m i = Some m' \<and> ml_ok m' \<and> ml_abs m' = ml_abs m \<and>
     pde_PageTable (ml_Directory m' ! unat i) \<noteq> None"
proof (cases "pde_Valid (ml_Directory m ! unat i)")
  case True
  have "pde_ok (ml_Directory m ! unat i)" using assms by (simp add: ml_ok_def)
  with True assms show ?thesis by (simp add: ml_ensure_def go_index_def ml_ok_def pde_ok_def)
next
  case False
  let ?pt = "\<lparr>pt_PID = ml_PID m, pt_PageSize = 4096, pt_Entries = replicate 1024 zero_PTE,
     pt_NumPages = 1024\<rparr>"
  let ?d = "\<lparr>pde_Valid = True, pde_PageTable = Some ?pt, pde_PFN = i + 100\<rparr>"
  let ?m = "m\<lparr>ml_Directory := (ml_Directory m)[unat i := ?d], ml_AllocatedPTs := ml_AllocatedPTs m + 1\<rparr>"
  have i: "unat i < length (ml_Directory m)" using assms by (simp add: ml_ok_def)
  have "pde_ok (ml_Directory m ! unat i)" using assms i by (simp add: ml_ok_def)
  then have row: "pde_row ?d = pde_row (ml_Directory m ! unat i)"
    using False by (simp add: pde_row_def pde_ok_def)
  then have "map pde_row ((ml_Directory m)[unat i := ?d]) = map pde_row (ml_Directory m)"
    using i by (simp add: map_update list_update_same_conv)
  then have "ml_abs ?m = ml_abs m" by (simp add: ml_abs_def)
  moreover have "pde_ok ?d" by (simp add: pde_ok_def pde_row_def)
  then have "ml_ok ?m"
    using assms(1) by (auto simp: ml_ok_def dest!: set_update_subset_insert [THEN subsetD])
  moreover have "ml_ensure m i = Some ?m"
    using False assms i by (simp add: ml_ensure_def go_index_def ml_ok_def NewPageTable_def)
  ultimately show ?thesis using i by simp
qed

text \<open>
  C10: the two-level page table implements the linear page table. On the 32-bit addresses that it
  is built for, mapping a page never panics, allocates second-level tables without changing the
  meaning of the table, and is the \<open>MapPage\<close> of the linear table with \<open>2 ^ 20\<close> entries.
\<close>

theorem ML_Map_refines_MapPage:
  assumes "ml_ok m" and "unat v < 2 ^ 32"
  shows "\<exists>m'. ML_Map m v pfn w = Some m' \<and> ml_ok m' \<and>
     MapPage (ml_abs m) (v div 4096) pfn w = Some (ml_abs m')"
proof -
  from ml_ensure_ok [OF assms(1) idx_bound(1)] obtain m1 pt where
    m1: "ml_ensure m (pdeIdx v) = Some m1" "ml_ok m1" "ml_abs m1 = ml_abs m"
      "pde_PageTable (ml_Directory m1 ! unat (pdeIdx v)) = Some pt" by blast
  have i: "unat (pdeIdx v) < length (ml_Directory m1)" using idx_bound m1(2) by (simp add: ml_ok_def)
  have len: "length (pt_Entries pt) = 1024"
    using m1(2,4) i by (auto simp: ml_ok_def pde_ok_def pde_row_def dest!: bspec [OF _ nth_mem])
  let ?pt = "pt\<lparr>pt_Entries := (pt_Entries pt)[unat (pteIdx v) := mapped_PTE pfn w]\<rparr>"
  have map: "MapPage pt (pteIdx v) pfn w = Some ?pt"
    using len idx_bound by (intro MapPage_in_range) simp_all
  note s = ml_set_entry [OF m1(2) assms(2) m1(4) refl, of "mapped_PTE pfn w"]
  have "unat (v div 4096) < length (pt_Entries (ml_abs m))"
    using ml_rows(2) [OF assms(1)] vpn_split [OF assms(2)] idx_bound [of v] by simp
  then have "MapPage (ml_abs m) (v div 4096) pfn w =
      Some (ml_abs (ml_set_table m1 (pdeIdx v) ?pt))"
    using s(2) m1(3) ml_rows(2) [OF assms(1)] by (simp add: MapPage_in_range)
  with s(1) m1 map show ?thesis by (simp add: ML_Map_def)
qed

lemma ml_ok_New: "ml_ok (NewMultiLevelPageTable pid)"
  by (simp add: ml_ok_def NewMultiLevelPageTable_def pde_ok_def pde_row_def zero_PDE_def)

theorem ML_Map_refines_MapPage_witness:
  "\<exists>m'. ML_Map (NewMultiLevelPageTable 1) 0x00401ABC 7 True = Some m' \<and> ml_ok m' \<and>
     MapPage (ml_abs (NewMultiLevelPageTable 1)) (0x00401ABC div 4096) 7 True = Some (ml_abs m')"
  using ML_Map_refines_MapPage [of "NewMultiLevelPageTable 1" "0x00401ABC" 7 True] ml_ok_New by simp



end
