(* ===== verification/Address_Space.thy ===== *)
theory Address_Space
  imports Go_Prelude
begin

text \<open>
  The virtual address space of a process (\<open>pkg/memory/address_space.go\<close>: segments, base and bounds
  translation and \<open>sbrk\<close>) and the call stack (\<open>pkg/memory/stack_heap.go\<close>). Addresses are 64-bit
  words and wrap as in Go; a nil dereference is \<^const>\<open>None\<close>.
\<close>

section \<open>Address spaces\<close>

datatype as_error = ErrSegmentationFault | ErrStackOverflow | ErrInvalidSbrk | ErrStackUnderflow

datatype SegmentType = SegmentCode | SegmentData | SegmentHeap | SegmentStack

record SegmentDescriptor =
  seg_Type :: SegmentType
  seg_Base :: u64
  seg_Limit :: u64
  seg_GrowsDown :: bool
  seg_Readable :: bool
  seg_Writable :: bool
  seg_Executable :: bool

record AddressSpace =
  as_PID :: int
  as_TotalSize :: u64
  as_PhysicalBase :: u64
  as_CodeStart :: u64
  as_CodeEnd :: u64
  as_DataStart :: u64
  as_DataEnd :: u64
  as_HeapStart :: u64
  as_HeapBreak :: u64
  as_StackTop :: u64
  as_StackPtr :: u64
  as_GuardPage :: u64
  as_Segments :: "SegmentType \<rightharpoonup> SegmentDescriptor"

definition NewAddressSpace :: "int \<Rightarrow> u64 \<Rightarrow> u64 \<Rightarrow> AddressSpace" where
  "NewAddressSpace pid totalSize physicalBase =
     (let totalSize = (if totalSize = 0 then 64 * 1024 else totalSize);
          codeSize = 8 * 1024;
          dataSize = 4 * 1024;
          heapInit = 12 * 1024;
          stackInit = totalSize - 1
      in \<lparr>as_PID = pid, as_TotalSize = totalSize, as_PhysicalBase = physicalBase,
          as_CodeStart = 0, as_CodeEnd = codeSize, as_DataStart = codeSize,
          as_DataEnd = codeSize + dataSize, as_HeapStart = heapInit, as_HeapBreak = heapInit,
          as_StackTop = stackInit, as_StackPtr = stackInit, as_GuardPage = 32 * 1024,
          as_Segments =
            [SegmentCode \<mapsto> \<lparr>seg_Type = SegmentCode, seg_Base = physicalBase + 0, seg_Limit = codeSize,
               seg_GrowsDown = False, seg_Readable = True, seg_Writable = False, seg_Executable = True\<rparr>,
             SegmentData \<mapsto> \<lparr>seg_Type = SegmentData, seg_Base = physicalBase + codeSize, seg_Limit = dataSize,
               seg_GrowsDown = False, seg_Readable = True, seg_Writable = True, seg_Executable = False\<rparr>,
             SegmentHeap \<mapsto> \<lparr>seg_Type = SegmentHeap, seg_Base = physicalBase + heapInit, seg_Limit = 0,
               seg_GrowsDown = False, seg_Readable = True, seg_Writable = True, seg_Executable = False\<rparr>,
             SegmentStack \<mapsto> \<lparr>seg_Type = SegmentStack, seg_Base = physicalBase + totalSize, seg_Limit = 0,
               seg_GrowsDown = True, seg_Readable = True, seg_Writable = True, seg_Executable = False\<rparr>]\<rparr>)"

definition TranslateBaseAndBounds :: "AddressSpace \<Rightarrow> u64 \<Rightarrow> as_error + u64" where
  "TranslateBaseAndBounds as vAddr =
     (if as_TotalSize as \<le> vAddr then Inl ErrSegmentationFault else Inr (as_PhysicalBase as + vAddr))"

definition Sbrk :: "AddressSpace \<Rightarrow> int \<Rightarrow> (AddressSpace \<times> (as_error + u64)) option" where
  "Sbrk as increment =
     (let oldBreak = as_HeapBreak as;
          newBreak = u64_of_int (int_of_u64 oldBreak + increment)
      in if newBreak < as_HeapStart as then Some (as, Inl ErrInvalidSbrk)
         else if as_StackPtr as \<le> newBreak then Some (as, Inl ErrStackOverflow)
         else
           case as_Segments as SegmentHeap of
             None \<Rightarrow> None
           | Some d \<Rightarrow>
               Some (as\<lparr>as_HeapBreak := newBreak,
                        as_Segments := (as_Segments as)(SegmentHeap \<mapsto> d\<lparr>seg_Limit := newBreak - as_HeapStart as\<rparr>)\<rparr>,
                     Inr oldBreak))"

section \<open>The call stack\<close>

record 'v StackFrame =
  sf_FunctionName :: string
  sf_ReturnAddress :: u64
  sf_FramePointer :: u64
  sf_StackPointer :: u64
  sf_LocalVariables :: "string \<rightharpoonup> 'v"
  sf_FrameSizeBytes :: u64

record 'v CallStack =
  cs_BaseAddress :: u64
  cs_CurrentSP :: u64
  cs_CurrentBP :: u64
  cs_Frames :: "'v StackFrame list"
  cs_MaxDepth :: int
  cs_TotalSizeBytes :: u64

definition NewCallStack :: "u64 \<Rightarrow> u64 \<Rightarrow> 'v CallStack" where
  "NewCallStack baseAddr totalSize =
     \<lparr>cs_BaseAddress = baseAddr, cs_CurrentSP = baseAddr, cs_CurrentBP = baseAddr, cs_Frames = [],
      cs_MaxDepth = 256, cs_TotalSizeBytes = totalSize\<rparr>"

definition PushFrame ::
  "'v CallStack \<Rightarrow> string \<Rightarrow> u64 \<Rightarrow> u64 \<Rightarrow> (string \<rightharpoonup> 'v) \<Rightarrow> as_error + 'v CallStack \<times> 'v StackFrame" where
  "PushFrame cs funcName retAddr frameSize locals =
     (if cs_MaxDepth cs \<le> int (length (cs_Frames cs)) then Inl ErrStackOverflow
      else
        let newSP = cs_CurrentSP cs - frameSize in
        if cs_CurrentSP cs < newSP \<or> cs_TotalSizeBytes cs < cs_BaseAddress cs - newSP
        then Inl ErrStackOverflow
        else
          let frame = \<lparr>sf_FunctionName = funcName, sf_ReturnAddress = retAddr,
                       sf_FramePointer = cs_CurrentBP cs, sf_StackPointer = newSP,
                       sf_LocalVariables = locals, sf_FrameSizeBytes = frameSize\<rparr>
          in Inr (cs\<lparr>cs_CurrentBP := cs_CurrentSP cs, cs_CurrentSP := newSP,
                     cs_Frames := cs_Frames cs @ [frame]\<rparr>, frame))"

definition PopFrame :: "'v CallStack \<Rightarrow> as_error + 'v CallStack \<times> 'v StackFrame" where
  "PopFrame cs =
     (if cs_Frames cs = [] then Inl ErrStackUnderflow
      else
        let popped = last (cs_Frames cs) in
        Inr (cs\<lparr>cs_Frames := butlast (cs_Frames cs),
                cs_CurrentSP := cs_CurrentSP cs + sf_FrameSizeBytes popped,
                cs_CurrentBP := sf_FramePointer popped\<rparr>, popped))"

text \<open>The instructions that move the stack, and a run of them; an error ends the run.\<close>

datatype 'v stack_op = Call string u64 u64 "string \<rightharpoonup> 'v" | Ret

fun stack_step :: "'v CallStack \<Rightarrow> 'v stack_op \<Rightarrow> as_error + 'v CallStack \<times> 'v StackFrame" where
  "stack_step cs (Call f ra sz locals) = PushFrame cs f ra sz locals"
| "stack_step cs Ret = PopFrame cs"

fun stack_run :: "'v CallStack \<Rightarrow> 'v stack_op list \<Rightarrow> 'v CallStack option" where
  "stack_run cs [] = Some cs"
| "stack_run cs (x # xs) = (case stack_step cs x of Inl _ \<Rightarrow> None | Inr (cs', _) \<Rightarrow> stack_run cs' xs)"

text \<open>Runs in which every call has returned.\<close>

inductive balanced :: "'v stack_op list \<Rightarrow> bool" where
  balanced_Nil: "balanced []"
| balanced_Call: "balanced xs \<Longrightarrow> balanced ys \<Longrightarrow> balanced (Call f ra sz locals # xs @ Ret # ys)"

definition cs_ok :: "'v CallStack \<Rightarrow> bool" where
  "cs_ok cs \<longleftrightarrow> int (length (cs_Frames cs)) \<le> cs_MaxDepth cs \<and>
     unat (cs_BaseAddress cs) = unat (cs_CurrentSP cs) + sum_list (map (unat \<circ> sf_FrameSizeBytes) (cs_Frames cs)) \<and>
     unat (cs_BaseAddress cs) - unat (cs_CurrentSP cs) \<le> unat (cs_TotalSizeBytes cs)"

definition as_ok :: "AddressSpace \<Rightarrow> bool" where
  "as_ok as \<longleftrightarrow> as_DataEnd as \<le> as_HeapStart as \<and> as_HeapStart as \<le> as_HeapBreak as \<and>
     as_HeapBreak as < as_StackPtr as \<and> as_StackPtr as \<le> as_StackTop as \<and> as_StackTop as < as_TotalSize as \<and>
     unat (as_TotalSize as) < 2 ^ 63 \<and>
     (\<exists>d. as_Segments as SegmentHeap = Some d \<and> seg_Limit d = as_HeapBreak as - as_HeapStart as)"

section \<open>Correctness of the address space\<close>

lemma NewAddressSpace_ok:
  assumes "size_b = 0 \<or> 12 * 1024 + 1 < unat size_b" and "unat size_b < 2 ^ 63"
  shows "as_ok (NewAddressSpace pid size_b base)"
proof (cases "size_b = 0")
  case True
  then show ?thesis by (simp add: as_ok_def NewAddressSpace_def Let_def)
next
  case False
  then have "unat (size_b - 1) = unat size_b - 1" by (simp add: unat_minus_one)
  with assms False show ?thesis
    by (auto simp: as_ok_def NewAddressSpace_def Let_def word_less_nat_alt)
qed

text \<open>
  the program break. On a well-formed address space \<open>Sbrk\<close> never panics and keeps the space
  well-formed; it succeeds exactly when the exact sum of the break and the increment lies between
  the start of the heap and the stack pointer, returns the old break then and moves the break by
  exactly the increment, and otherwise changes nothing.
\<close>

theorem Sbrk_exact:
  assumes "as_ok as" and "- (2 ^ 63) \<le> inc" and "inc < 2 ^ 63"
  shows "\<exists>as' r. Sbrk as inc = Some (as', r) \<and> as_ok as' \<and>
     (if uint (as_HeapStart as) \<le> uint (as_HeapBreak as) + inc \<and>
         uint (as_HeapBreak as) + inc < uint (as_StackPtr as)
      then r = Inr (as_HeapBreak as) \<and> uint (as_HeapBreak as') = uint (as_HeapBreak as) + inc \<and>
        as_StackPtr as' = as_StackPtr as \<and> as_HeapStart as' = as_HeapStart as
      else as' = as \<and> (r = Inl ErrInvalidSbrk \<or> r = Inl ErrStackOverflow))"
proof -
  let ?b = "as_HeapBreak as" and ?n = "u64_of_int (int_of_u64 (as_HeapBreak as) + inc)"
  let ?new = "uint ?b + inc"
  have u: "unat ?b < 2 ^ 63" "unat (as_StackPtr as) < 2 ^ 63"
    using assms(1) by (auto simp: as_ok_def word_le_nat_alt word_less_nat_alt)
  have o: "uint (as_HeapStart as) \<le> uint ?b" "uint ?b < uint (as_StackPtr as)" "uint (as_StackPtr as) < 2 ^ 63"
    using assms(1) u(2) by (auto simp: as_ok_def word_le_def word_less_def)
  from u(1) have b: "int_of_u64 ?b = uint ?b" by (simp add: int_of_u64_small)
  obtain d where d: "as_Segments as SegmentHeap = Some d" using assms(1) by (auto simp: as_ok_def)
  have two: "(2 :: int) ^ 64 = 2 ^ 63 + 2 ^ 63" "(0 :: int) < 2 ^ 63" by simp_all
  show ?thesis
  proof (cases "0 \<le> ?new")
    case True
    have n: "uint ?n = ?new" unfolding u64_of_int_def b using True o assms(3) two
      by (intro uint_of_int_u64) linarith+
    have c: "?n < as_HeapStart as \<longleftrightarrow> ?new < uint (as_HeapStart as)"
      "as_StackPtr as \<le> ?n \<longleftrightarrow> uint (as_StackPtr as) \<le> ?new"
      unfolding word_less_def word_le_def n by (rule refl)+
    show ?thesis
    proof (cases "uint (as_HeapStart as) \<le> ?new \<and> ?new < uint (as_StackPtr as)")
      case True
      let ?as = "as\<lparr>as_HeapBreak := ?n, as_Segments := (as_Segments as)(SegmentHeap \<mapsto> d\<lparr>seg_Limit := ?n - as_HeapStart as\<rparr>)\<rparr>"
      have "Sbrk as inc = Some (?as, Inr ?b)" using c d True by (simp add: Sbrk_def Let_def)
      moreover have "as_ok ?as" using assms(1) c True by (simp add: as_ok_def not_less [symmetric])
      ultimately show ?thesis using True n by auto
    next
      case False
      then show ?thesis using c assms(1) by (auto simp: Sbrk_def Let_def)
    qed
  next
    case False
    have "?n = word_of_int (?new + 2 ^ 64)" by (simp add: u64_of_int_def b)
    moreover have "uint (word_of_int (?new + 2 ^ 64) :: u64) = ?new + 2 ^ 64"
      using False assms(2) two uint_ge_0 [of ?b] by (intro uint_of_int_u64) linarith+
    ultimately have "uint ?n = ?new + 2 ^ 64" by simp
    then have "uint (as_StackPtr as) \<le> uint ?n" using o assms(2) two uint_ge_0 [of ?b] by linarith
    then have "as_StackPtr as \<le> ?n" by (simp add: word_le_def)
    then have "Sbrk as inc = Some (as, Inl ErrInvalidSbrk) \<or> Sbrk as inc = Some (as, Inl ErrStackOverflow)"
      by (simp add: Sbrk_def Let_def)
    moreover have "\<not> uint (as_HeapStart as) \<le> ?new" using False uint_ge_0 [of "as_HeapStart as"] by linarith
    ultimately show ?thesis using assms(1) by auto
  qed
qed

theorem Sbrk_exact_witness:
  "\<exists>as' r. Sbrk (NewAddressSpace 1 0 0x10000) 4096 = Some (as', r) \<and> as_ok as' \<and>
     r = Inr 12288 \<and> uint (as_HeapBreak as') = 16384"
proof -
  let ?a = "NewAddressSpace 1 0 0x10000"
  have "as_ok ?a" by (rule NewAddressSpace_ok) simp_all
  moreover have "as_HeapStart ?a = 12288" "as_HeapBreak ?a = 12288" "as_StackPtr ?a = 65535"
    by (simp_all add: NewAddressSpace_def Let_def)
  ultimately show ?thesis using Sbrk_exact [of ?a 4096] by auto
qed

text \<open>
  base and bounds isolate. Two address spaces whose physical ranges do not wrap and do not
  overlap never translate to the same physical address, every translation stays in the range of
  its space, and within one space different addresses stay different.
\<close>

theorem base_and_bounds_isolate:
  assumes "unat (as_PhysicalBase a) + unat (as_TotalSize a) \<le> 2 ^ 64"
    and "unat (as_PhysicalBase b) + unat (as_TotalSize b) \<le> 2 ^ 64"
    and "unat (as_PhysicalBase a) + unat (as_TotalSize a) \<le> unat (as_PhysicalBase b)"
    and "TranslateBaseAndBounds a v = Inr p" and "TranslateBaseAndBounds b w = Inr q"
  shows "p \<noteq> q \<and> unat p = unat (as_PhysicalBase a) + unat v \<and> unat v < unat (as_TotalSize a) \<and>
     unat q = unat (as_PhysicalBase b) + unat w \<and> unat w < unat (as_TotalSize b)"
proof -
  have t: "unat r = unat (as_PhysicalBase c) + unat u \<and> unat u < unat (as_TotalSize c)"
    if "unat (as_PhysicalBase c) + unat (as_TotalSize c) \<le> 2 ^ 64" "TranslateBaseAndBounds c u = Inr r" for c u r
  proof -
    have u: "unat u < unat (as_TotalSize c)" and r: "r = as_PhysicalBase c + u"
      using that(2) by (auto simp: TranslateBaseAndBounds_def word_le_nat_alt split: if_splits)
    have "unat (as_PhysicalBase c) + unat u < 2 ^ 64" using that(1) u by linarith
    then show ?thesis using u unat_add_lem [of "as_PhysicalBase c" u] unfolding r by simp
  qed
  from t [OF assms(1,4)] t [OF assms(2,5)] assms(3) have "unat p < unat q" by linarith
  with t [OF assms(1,4)] t [OF assms(2,5)] show ?thesis by auto
qed

theorem base_and_bounds_isolate_witness:
  "(0x10010 :: u64) \<noteq> 0x20010 \<and> unat (0x10010 :: u64) = unat (0x10000 :: u64) + unat (0x10 :: u64) \<and>
     unat (0x10 :: u64) < unat (as_TotalSize (NewAddressSpace 1 0 0x10000))"
  using base_and_bounds_isolate
    [of "NewAddressSpace 1 0 0x10000" "NewAddressSpace 2 0 0x20000" "0x10" "0x10010" "0x10" "0x20010"]
  by (simp add: NewAddressSpace_def TranslateBaseAndBounds_def Let_def)

section \<open>Correctness of the call stack\<close>

lemma NewCallStack_ok: "cs_ok (NewCallStack base len)"
  by (simp add: cs_ok_def NewCallStack_def)

lemma PushFrame_ok:
  assumes "cs_ok cs" and "PushFrame cs f ra sz locals = Inr (cs', fr)"
  shows "cs_ok cs' \<and> unat (cs_CurrentSP cs') = unat (cs_CurrentSP cs) - unat sz \<and> unat sz \<le> unat (cs_CurrentSP cs)"
proof -
  let ?sp = "cs_CurrentSP cs" and ?n = "cs_CurrentSP cs - sz"
  have g: "int (length (cs_Frames cs)) < cs_MaxDepth cs" "?n \<le> ?sp" "cs_BaseAddress cs - ?n \<le> cs_TotalSizeBytes cs"
    and cs': "cs' = cs\<lparr>cs_CurrentBP := ?sp, cs_CurrentSP := ?n, cs_Frames := cs_Frames cs @ [fr]\<rparr>"
    and fr: "sf_FrameSizeBytes fr = sz"
    using assms(2) by (auto simp: PushFrame_def Let_def not_less split: if_splits)
  have sz: "sz \<le> ?sp" using g(2) by (metis word_sub_le_iff)
  then have n: "unat ?n = unat ?sp - unat sz" by (rule unat_sub)
  have le: "unat ?n \<le> unat (cs_BaseAddress cs)" using assms(1) n by (simp add: cs_ok_def)
  then have "unat (cs_BaseAddress cs - ?n) = unat (cs_BaseAddress cs) - unat ?n"
    by (intro unat_sub) (simp add: word_le_nat_alt)
  then have "unat (cs_BaseAddress cs) - unat ?n \<le> unat (cs_TotalSizeBytes cs)"
    using g(3) by (simp add: word_le_nat_alt)
  with assms(1) g(1) n sz show ?thesis unfolding cs' by (simp add: cs_ok_def fr word_le_nat_alt)
qed

lemma PopFrame_PushFrame:
  assumes "PushFrame cs f ra sz locals = Inr (cs', fr)"
  shows "PopFrame cs' = Inr (cs, fr)"
  using assms by (auto simp: PushFrame_def PopFrame_def Let_def split: if_splits)

lemma PopFrame_ok:
  assumes "cs_ok cs" and "PopFrame cs = Inr (cs', fr)"
  shows "cs_ok cs'"
proof -
  obtain gs where gs: "cs_Frames cs = gs @ [fr]"
    and cs': "cs' = cs\<lparr>cs_Frames := gs, cs_CurrentSP := cs_CurrentSP cs + sf_FrameSizeBytes fr,
                cs_CurrentBP := sf_FramePointer fr\<rparr>"
    using assms(2) by (cases "cs_Frames cs" rule: rev_cases) (auto simp: PopFrame_def Let_def)
  let ?s = "sum_list (map (unat \<circ> sf_FrameSizeBytes) gs)" and ?z = "unat (sf_FrameSizeBytes fr)"
  have ok: "int (length gs) + 1 \<le> cs_MaxDepth cs"
    "unat (cs_BaseAddress cs) = unat (cs_CurrentSP cs) + (?s + ?z)"
    "unat (cs_BaseAddress cs) - unat (cs_CurrentSP cs) \<le> unat (cs_TotalSizeBytes cs)"
    using assms(1) by (auto simp: cs_ok_def gs)
  then have "unat (cs_CurrentSP cs) + ?z < 2 ^ 64" using unat_less_u64 [of "cs_BaseAddress cs"] by linarith
  then have sp: "unat (cs_CurrentSP cs + sf_FrameSizeBytes fr) = unat (cs_CurrentSP cs) + ?z" by (rule unat_add_u64)
  show ?thesis unfolding cs_ok_def cs' using ok by (simp add: sp)
qed

lemma stack_step_ok: "cs_ok cs \<Longrightarrow> stack_step cs x = Inr (cs', fr) \<Longrightarrow> cs_ok cs'"
  by (cases x) (auto dest: PushFrame_ok PopFrame_ok)

lemma stack_run_ok: "cs_ok cs \<Longrightarrow> stack_run cs xs = Some cs' \<Longrightarrow> cs_ok cs'"
proof (induction xs arbitrary: cs)
  case (Cons x xs)
  from Cons.prems(2) obtain cs1 fr where s: "stack_step cs x = Inr (cs1, fr)" "stack_run cs1 xs = Some cs'"
    by (auto split: sum.splits prod.splits)
  from Cons.IH [OF stack_step_ok [OF Cons.prems(1) s(1)] s(2)] show ?case .
qed simp

text \<open>
  the stack never leaves its region. After any sequence of calls and returns from a new
  stack, the stack pointer is below the base by exactly the sum of the sizes of the active
  frames, that sum is at most the size of the stack, and at most 256 frames are active.
\<close>

theorem call_stack_bounds:
  assumes "stack_run (NewCallStack base len) xs = Some cs"
  shows "unat base = unat (cs_CurrentSP cs) + sum_list (map (unat \<circ> sf_FrameSizeBytes) (cs_Frames cs)) \<and>
     sum_list (map (unat \<circ> sf_FrameSizeBytes) (cs_Frames cs)) \<le> unat len \<and> length (cs_Frames cs) \<le> 256"
proof -
  have st: "cs_BaseAddress cs' = cs_BaseAddress cs \<and> cs_TotalSizeBytes cs' = cs_TotalSizeBytes cs \<and>
      cs_MaxDepth cs' = cs_MaxDepth cs" if "stack_run cs xs = Some cs'" for cs cs' :: "'a CallStack" and xs
    using that
  proof (induction xs arbitrary: cs)
    case (Cons x xs)
    then show ?case
      by (cases x) (auto simp: PushFrame_def PopFrame_def Let_def split: if_splits dest!: Cons.IH)
  qed simp
  from stack_run_ok [OF NewCallStack_ok assms] st [OF assms] show ?thesis
    by (auto simp: cs_ok_def NewCallStack_def)
qed

definition stack_example :: "nat stack_op list" where
  "stack_example = [Call ''main'' 0 64 Map.empty, Call ''foo'' 4 32 [''x'' \<mapsto> 7], Ret, Call ''bar'' 8 16 Map.empty]"

theorem call_stack_bounds_witness:
  "\<exists>cs. stack_run (NewCallStack 0x1000 0x100) stack_example = Some cs \<and>
     unat (0x1000 :: u64) = unat (cs_CurrentSP cs) + sum_list (map (unat \<circ> sf_FrameSizeBytes) (cs_Frames cs)) \<and>
     length (cs_Frames cs) = 2"
proof -
  let ?r = "stack_run (NewCallStack 0x1000 0x100) stack_example"
  have "map_option (length \<circ> cs_Frames) ?r = Some 2"
    by (simp add: stack_example_def NewCallStack_def PushFrame_def PopFrame_def Let_def)
  then obtain cs where "?r = Some cs" "length (cs_Frames cs) = 2" by auto
  with call_stack_bounds [of "0x1000" "0x100" stack_example cs] show ?thesis by auto
qed

text \<open>
  a balanced run of calls and returns, if no call overflows, leaves the stack exactly as it
  was: the stack pointer, the base pointer and every frame.
\<close>

theorem balanced_run_restores:
  assumes "balanced xs" and "stack_run cs xs = Some cs'"
  shows "cs' = cs"
proof -
  have app: "stack_run cs (xs @ ys) = (case stack_run cs xs of None \<Rightarrow> None | Some c \<Rightarrow> stack_run c ys)"
    for cs :: "'a CallStack" and xs ys
    by (induction xs arbitrary: cs) (auto split: sum.splits prod.splits)
  from assms show ?thesis
  proof (induction arbitrary: cs cs' rule: balanced.induct)
    case (balanced_Call xs ys f ra sz locals)
    from balanced_Call.prems obtain c1 fr c2 where
      p: "PushFrame cs f ra sz locals = Inr (c1, fr)" "stack_run c1 xs = Some c2"
      and q: "stack_run c2 (Ret # ys) = Some cs'"
      by (auto simp: app split: sum.splits prod.splits option.splits)
    have "c2 = c1" using balanced_Call.IH(1) [OF p(2)] .
    then have "stack_run cs ys = Some cs'" using q PopFrame_PushFrame [OF p(1)] by simp
    then show ?case by (rule balanced_Call.IH(2))
  qed simp
qed

theorem balanced_run_restores_witness:
  "stack_run (NewCallStack 0x1000 0x100) [Call ''main'' 0 64 [''x'' \<mapsto> (7::nat)], Ret] = Some (NewCallStack 0x1000 0x100)"
proof -
  let ?xs = "Call ''main'' 0 64 [''x'' \<mapsto> (7::nat)] # [] @ Ret # []"
  have "balanced ?xs" by (intro balanced_Call balanced_Nil)
  moreover have "\<exists>cs. stack_run (NewCallStack 0x1000 0x100) ?xs = Some cs"
    by (simp add: NewCallStack_def PushFrame_def PopFrame_def Let_def)
  ultimately show ?thesis using balanced_run_restores [of ?xs "NewCallStack 0x1000 0x100"] by auto
qed

end
