(* ===== verification/Process_Lifecycle.thy ===== *)
theory Process_Lifecycle
  imports Syscalls Paging Address_Space
begin

text \<open>
  The process manager of \<open>pkg/kernel/process_lifecycle.go\<close>: fork, exec, exit and wait on the table of
  processes. The address space of a process is a pointer in the code, so an option here, which exit
  sets to nil. A run that dereferences it then panics, which is the outcome \<open>None\<close>. The mutex
  of the manager makes each operation atomic: a run is a sequence of operations.
\<close>

section \<open>Data\<close>

datatype lifecycle_error =
    ErrNoSuchProcess int | ErrNoChild int | ErrTerminateInit | ErrWouldBlock

datatype UnixProcessState =
  ProcStateReady | ProcStateRunning | ProcStateBlocked | ProcStateZombie | ProcStateReaped

record UnixProcess =
  up_PID :: int
  up_PPID :: int
  up_Name :: string
  up_State :: UnixProcessState
  up_ExitCode :: int
  up_AddressSpace :: "AddressSpace option"
  up_PageTable :: PageTable
  up_Registers :: SyscallRegisters
  up_OpenFDs :: "int \<rightharpoonup> string"
  up_Children :: "int list"

datatype life_line =
    LineFork int string int
  | LineExec int string string
  | LineOrphan int int
  | LineExit int string int
  | LineReap int int int

record ProcessManager =
  pm_Processes :: "int \<rightharpoonup> UnixProcess"
  pm_NextPID :: int
  pm_InitPID :: int
  pm_LifecycleLog :: "life_line list"

definition zero_registers :: SyscallRegisters where
  "zero_registers = \<lparr>RAX = 0, RDI = 0, RSI = 0, RDX = 0, R10 = 0, R8 = 0, R9 = 0\<rparr>"

section \<open>Operations\<close>

definition NewProcessManager :: "ProcessManager option" where
  "NewProcessManager =
     (case NewPageTable 1 16 4096 of
        None \<Rightarrow> None
      | Some pt \<Rightarrow> Some
          \<lparr>pm_Processes = [1 \<mapsto>
             \<lparr>up_PID = 1, up_PPID = 0, up_Name = ''init'', up_State = ProcStateReady, up_ExitCode = 0,
              up_AddressSpace = Some (NewAddressSpace 1 (64 * 1024) 0x00100000), up_PageTable = pt,
              up_Registers = zero_registers, up_OpenFDs = [0 \<mapsto> ''stdin'', 1 \<mapsto> ''stdout'', 2 \<mapsto> ''stderr''],
              up_Children = []\<rparr>],
           pm_NextPID = 2, pm_InitPID = 1, pm_LifecycleLog = []\<rparr>)"

fun fork_pages :: "PageTable \<Rightarrow> nat \<Rightarrow> PageTableEntry list \<Rightarrow> u64 \<Rightarrow> PageTable option" where
  "fork_pages pt i [] off = Some pt"
| "fork_pages pt i (entry # es) off =
     (if pte_Valid entry
      then case MapPage pt (of_nat i) (pte_PFN entry + off) (pte_ReadWrite entry) of
             None \<Rightarrow> None
           | Some pt' \<Rightarrow> fork_pages pt' (Suc i) es off
      else fork_pages pt (Suc i) es off)"

definition Fork :: "ProcessManager \<Rightarrow> int \<Rightarrow> (ProcessManager \<times> (lifecycle_error + UnixProcess)) option" where
  "Fork pm parentPID =
     (case pm_Processes pm parentPID of
        None \<Rightarrow> Some (pm, Inl (ErrNoSuchProcess parentPID))
      | Some parent \<Rightarrow>
          let childPID = pm_NextPID pm in
          case up_AddressSpace parent of
            None \<Rightarrow> None
          | Some as \<Rightarrow>
              let childAS = NewAddressSpace childPID (as_TotalSize as)
                              (as_PhysicalBase as + word_of_int (childPID * 0x10000)) in
              case Option.bind (NewPageTable childPID 16 4096)
                     (\<lambda>pt. fork_pages pt 0 (pt_Entries (up_PageTable parent)) (word_of_int (childPID * 10))) of
                None \<Rightarrow> None
              | Some childPT \<Rightarrow>
                  let child = \<lparr>up_PID = childPID, up_PPID = parentPID, up_Name = up_Name parent @ ''_child'',
                               up_State = ProcStateReady, up_ExitCode = 0, up_AddressSpace = Some childAS,
                               up_PageTable = childPT, up_Registers = (up_Registers parent)\<lparr>RAX := 0\<rparr>,
                               up_OpenFDs = up_OpenFDs parent, up_Children = []\<rparr>;
                      parent' = parent\<lparr>up_Registers := (up_Registers parent)\<lparr>RAX := word_of_int childPID\<rparr>,
                                       up_Children := up_Children parent @ [childPID]\<rparr>
                  in Some (pm\<lparr>pm_NextPID := childPID + 1,
                              pm_Processes := (pm_Processes pm)(parentPID \<mapsto> parent', childPID \<mapsto> child),
                              pm_LifecycleLog := pm_LifecycleLog pm @ [LineFork parentPID (up_Name parent) childPID]\<rparr>,
                           Inr child))"

definition Exec ::
  "ProcessManager \<Rightarrow> int \<Rightarrow> string \<Rightarrow> string list \<Rightarrow> (ProcessManager \<times> lifecycle_error option) option" where
  "Exec pm pid binaryName args =
     (case pm_Processes pm pid of
        None \<Rightarrow> Some (pm, Some (ErrNoSuchProcess pid))
      | Some proc \<Rightarrow>
          case up_AddressSpace proc of
            None \<Rightarrow> None
          | Some as \<Rightarrow>
              case Option.bind (NewPageTable pid 16 4096) (\<lambda>pt. MapPage pt 0 (word_of_int (pid * 20)) True) of
                None \<Rightarrow> None
              | Some pt \<Rightarrow>
                  let proc' = proc\<lparr>up_Name := binaryName,
                                   up_AddressSpace := Some (NewAddressSpace pid (64 * 1024) (as_PhysicalBase as)),
                                   up_PageTable := pt,
                                   up_Registers := (up_Registers proc)\<lparr>RAX := 0, RDI := of_nat (length args), RSI := 0x00408000\<rparr>\<rparr>
                  in Some (pm\<lparr>pm_Processes := (pm_Processes pm)(pid \<mapsto> proc'),
                              pm_LifecycleLog := pm_LifecycleLog pm @ [LineExec pid (up_Name proc) binaryName]\<rparr>,
                           None))"

definition adopt :: "ProcessManager \<Rightarrow> int \<Rightarrow> int \<Rightarrow> UnixProcess \<Rightarrow> ProcessManager option" where
  "adopt pm pid childPID child =
     (let procs = (pm_Processes pm)(childPID \<mapsto> child\<lparr>up_PPID := pm_InitPID pm\<rparr>) in
      case procs (pm_InitPID pm) of
        None \<Rightarrow> None
      | Some initProc \<Rightarrow>
          Some (pm\<lparr>pm_Processes := procs(pm_InitPID pm \<mapsto> initProc\<lparr>up_Children := up_Children initProc @ [childPID]\<rparr>),
                   pm_LifecycleLog := pm_LifecycleLog pm @ [LineOrphan childPID pid]\<rparr>))"

fun reparent :: "ProcessManager \<Rightarrow> int \<Rightarrow> int list \<Rightarrow> ProcessManager option" where
  "reparent pm pid [] = Some pm"
| "reparent pm pid (c # cs) =
     (case pm_Processes pm c of
        None \<Rightarrow> reparent pm pid cs
      | Some child \<Rightarrow> (case adopt pm pid c child of None \<Rightarrow> None | Some pm' \<Rightarrow> reparent pm' pid cs))"

definition Exit :: "ProcessManager \<Rightarrow> int \<Rightarrow> int \<Rightarrow> (ProcessManager \<times> lifecycle_error option) option" where
  "Exit pm pid exitCode =
     (case pm_Processes pm pid of
        None \<Rightarrow> Some (pm, Some (ErrNoSuchProcess pid))
      | Some proc \<Rightarrow>
          if pid = pm_InitPID pm then Some (pm, Some ErrTerminateInit)
          else
            let pm1 = pm\<lparr>pm_Processes := (pm_Processes pm)(pid \<mapsto>
                        proc\<lparr>up_State := ProcStateZombie, up_ExitCode := exitCode, up_AddressSpace := None\<rparr>)\<rparr> in
            case reparent pm1 pid (up_Children proc) of
              None \<Rightarrow> None
            | Some pm2 \<Rightarrow>
                Some (pm2\<lparr>pm_Processes := (pm_Processes pm2)(pid := map_option (\<lambda>p. p\<lparr>up_Children := []\<rparr>) (pm_Processes pm2 pid)),
                          pm_LifecycleLog := pm_LifecycleLog pm2 @ [LineExit pid (up_Name proc) exitCode]\<rparr>, None))"

definition is_zombie :: "ProcessManager \<Rightarrow> int \<Rightarrow> bool" where
  "is_zombie pm c = (case pm_Processes pm c of None \<Rightarrow> False | Some p \<Rightarrow> up_State p = ProcStateZombie)"

text \<open>The loop over the children ends at the first zombie, which leaves the table and the list of
  its parent.\<close>

definition Wait :: "ProcessManager \<Rightarrow> int \<Rightarrow> ProcessManager \<times> (lifecycle_error + int \<times> int)" where
  "Wait pm parentPID =
     (case pm_Processes pm parentPID of
        None \<Rightarrow> (pm, Inl (ErrNoSuchProcess parentPID))
      | Some parent \<Rightarrow>
          if up_Children parent = [] then (pm, Inl (ErrNoChild parentPID))
          else case dropWhile (\<lambda>c. \<not> is_zombie pm c) (up_Children parent) of
                 [] \<Rightarrow> (pm, Inl ErrWouldBlock)
               | childPID # rest \<Rightarrow>
                   let exitCode = (case pm_Processes pm childPID of None \<Rightarrow> 0 | Some child \<Rightarrow> up_ExitCode child);
                       kept = takeWhile (\<lambda>c. \<not> is_zombie pm c) (up_Children parent) @ rest
                   in (pm\<lparr>pm_Processes := ((pm_Processes pm)(parentPID \<mapsto> parent\<lparr>up_Children := kept\<rparr>))(childPID := None),
                          pm_LifecycleLog := pm_LifecycleLog pm @ [LineReap parentPID childPID exitCode]\<rparr>,
                       Inr (childPID, exitCode)))"

datatype unix_call = CFork int | CExec int string "string list" | CExit int int | CWait int

fun unix_step :: "ProcessManager \<Rightarrow> unix_call \<Rightarrow> ProcessManager option" where
  "unix_step pm (CFork p) = map_option fst (Fork pm p)"
| "unix_step pm (CExec p b as) = map_option fst (Exec pm p b as)"
| "unix_step pm (CExit p code) = map_option fst (Exit pm p code)"
| "unix_step pm (CWait p) = Some (fst (Wait pm p))"

fun unix_run :: "ProcessManager \<Rightarrow> unix_call list \<Rightarrow> ProcessManager option" where
  "unix_run pm [] = Some pm"
| "unix_run pm (c # cs) = Option.bind (unix_step pm c) (\<lambda>pm'. unix_run pm' cs)"

section \<open>The process tree\<close>

text \<open>The abstract state: the set of process numbers, their lists of children and their parents. Every process
  but the first is in the list of its parent, and numbers grow from parents to children.\<close>

definition tree_ok :: "int set \<Rightarrow> (int \<Rightarrow> int list) \<Rightarrow> (int \<Rightarrow> int) \<Rightarrow> int \<Rightarrow> bool" where
  "tree_ok D k q n \<longleftrightarrow> 1 \<in> D \<and> q 1 = 0 \<and> (\<forall>x\<in>D. 1 \<le> x \<and> x < n \<and> distinct (k x)) \<and>
     (\<forall>x\<in>D. \<forall>c\<in>set (k x). c \<in> D \<and> x < c \<and> q c = x) \<and>
     (\<forall>x\<in>D. x \<noteq> 1 \<longrightarrow> q x \<in> D \<and> x \<in> set (k (q x)))"

lemma tree_okD:
  assumes "tree_ok D k q n"
  shows "1 \<in> D" "q 1 = 0" "x \<in> D \<Longrightarrow> 1 \<le> x" "x \<in> D \<Longrightarrow> x < n" "x \<in> D \<Longrightarrow> distinct (k x)"
    "x \<in> D \<Longrightarrow> c \<in> set (k x) \<Longrightarrow> c \<in> D" "x \<in> D \<Longrightarrow> c \<in> set (k x) \<Longrightarrow> x < c"
    "x \<in> D \<Longrightarrow> c \<in> set (k x) \<Longrightarrow> q c = x"
    "x \<in> D \<Longrightarrow> x \<noteq> 1 \<Longrightarrow> q x \<in> D" "x \<in> D \<Longrightarrow> x \<noteq> 1 \<Longrightarrow> x \<in> set (k (q x))"
  using assms by (simp_all add: tree_ok_def)

lemma tree_okI:
  assumes "1 \<in> D" "q 1 = 0" "\<And>x. x \<in> D \<Longrightarrow> 1 \<le> x" "\<And>x. x \<in> D \<Longrightarrow> x < n" "\<And>x. x \<in> D \<Longrightarrow> distinct (k x)"
    "\<And>x c. x \<in> D \<Longrightarrow> c \<in> set (k x) \<Longrightarrow> c \<in> D \<and> x < c \<and> q c = x"
    "\<And>x. x \<in> D \<Longrightarrow> x \<noteq> 1 \<Longrightarrow> q x \<in> D \<and> x \<in> set (k (q x))"
  shows "tree_ok D k q n"
  using assms by (simp add: tree_ok_def)

lemma tree_fork:
  assumes T: "tree_ok D k q n" and p: "p \<in> D"
  shows "tree_ok (insert n D) (k(p := k p @ [n], n := [])) (q(n := p)) (n + 1)"
proof -
  have n: "n \<notin> D" "n \<noteq> 1" "p \<noteq> n" "p < n"
    using tree_okD(4)[OF T, of n] tree_okD(4)[OF T p] tree_okD(4)[OF T tree_okD(1)[OF T]] by auto
  have no: "n \<notin> set (k x)" if "x \<in> D" for x using tree_okD(6)[OF T that] n(1) by blast
  have q: "q x \<noteq> n" if "x \<in> D" "x \<noteq> 1" for x using tree_okD(9)[OF T that] n(1) by blast
  show ?thesis
  proof (rule tree_okI)
    fix x c assume "x \<in> insert n D" "c \<in> set ((k(p := k p @ [n], n := [])) x)"
    then show "c \<in> insert n D \<and> x < c \<and> (q(n := p)) c = x"
      using tree_okD(6-8)[OF T] no n p by (auto split: if_splits)
  next
    fix x assume "x \<in> insert n D" "x \<noteq> 1"
    then show "(q(n := p)) x \<in> insert n D \<and> x \<in> set ((k(p := k p @ [n], n := [])) ((q(n := p)) x))"
      using tree_okD(9,10)[OF T] q n p by auto
  next
    fix x assume "x \<in> insert n D"
    then show "1 \<le> x" "x < n + 1" "distinct ((k(p := k p @ [n], n := [])) x)"
      using tree_okD(3)[OF T p] tree_okD(3-5)[OF T, of x] n no[of p] p tree_okD(5)[OF T p] by auto
  qed (use tree_okD(1,2)[OF T] n in simp_all)
qed

lemma tree_exit:
  assumes T: "tree_ok D k q n" and p: "p \<in> D" "p \<noteq> 1"
  shows "tree_ok D (k(1 := k 1 @ k p, p := [])) (\<lambda>x. if x \<in> set (k p) then 1 else q x) n"
proof (rule tree_okI)
  have one: "1 \<notin> set (k x)" if "x \<in> D" for x using tree_okD(3)[OF T that] tree_okD(7)[OF T that, of 1] by force
  show "(if 1 \<in> set (k p) then 1 else q 1) = 0" using one[OF p(1)] tree_okD(2)[OF T] by simp
  have "distinct (k 1 @ k p)"
    using tree_okD(5)[OF T p(1)] tree_okD(5,8)[OF T tree_okD(1)[OF T]] tree_okD(8)[OF T p(1)] p(2) by auto
  then show "distinct ((k(1 := k 1 @ k p, p := [])) x)" if "x \<in> D" for x
    using tree_okD(5)[OF T that] by simp
  fix x assume x: "x \<in> D"
  show "c \<in> D \<and> x < c \<and> (if c \<in> set (k p) then 1 else q c) = x" if cx: "c \<in> set ((k(1 := k 1 @ k p, p := [])) x)" for c
  proof -
    consider "x = 1" "c \<in> set (k p)" "p < c" | "x \<noteq> p" "c \<in> set (k x)"
      using cx tree_okD(7)[OF T p(1), of c] p(2) by (cases "x = p"; cases "x = 1"; auto)
    then show ?thesis
    proof cases
      case 1
      then show ?thesis using tree_okD(6)[OF T p(1)] tree_okD(3)[OF T p(1)] by auto
    next
      case 2
      then have "c \<notin> set (k p)" using tree_okD(8)[OF T x, of c] tree_okD(8)[OF T p(1), of c] by auto
      with 2 show ?thesis using tree_okD(6-8)[OF T x, of c] by simp
    qed
  qed
  show "(if x \<in> set (k p) then 1 else q x) \<in> D \<and>
      x \<in> set ((k(1 := k 1 @ k p, p := [])) (if x \<in> set (k p) then 1 else q x))" if "x \<noteq> 1"
    using tree_okD(1)[OF T] tree_okD(9,10)[OF T x that] p by auto
qed (use tree_okD(1,3,4)[OF T] in simp_all)

lemma tree_reap:
  assumes T: "tree_ok D k q n" and p: "p \<in> D" "k p = pre @ c # post" "k c = []"
  shows "tree_ok (D - {c}) (k(p := pre @ post)) q n"
proof (rule tree_okI)
  have c: "c \<in> D" "p < c" "q c = p" using tree_okD(6-8)[OF T p(1)] p(2) by auto
  show "1 \<in> D - {c}" using tree_okD(1)[OF T] tree_okD(3)[OF T p(1)] c(2) by auto
  have d: "c \<notin> set pre" "c \<notin> set post" "distinct (pre @ post)" using tree_okD(5)[OF T p(1)] p(2) by auto
  fix x assume x: "x \<in> D - {c}"
  show "distinct ((k(p := pre @ post)) x)" using d tree_okD(5)[OF T, of x] x by auto
  show "y \<in> D - {c} \<and> x < y \<and> q y = x" if "y \<in> set ((k(p := pre @ post)) x)" for y
  proof -
    have y: "y \<in> set (k x)" using that p(2) by (auto split: if_splits)
    have "y \<noteq> c" using that d c(3) y tree_okD(8)[OF T, of x y] x by (auto split: if_splits)
    with y tree_okD(6-8)[OF T, of x y] x show ?thesis by blast
  qed
  show "q x \<in> D - {c} \<and> x \<in> set ((k(p := pre @ post)) (q x))" if "x \<noteq> 1"
  proof -
    have "q x \<in> D" "x \<in> set (k (q x))" using tree_okD(9,10)[OF T _ that] x by blast+
    with p x show ?thesis by auto
  qed
qed (use tree_okD(2-4)[OF T] in simp_all)

text \<open>The concrete state, seen as a tree, and what each process control block keeps by itself.\<close>

definition kids :: "(int \<rightharpoonup> UnixProcess) \<Rightarrow> int \<Rightarrow> int list" where
  "kids procs x = (case procs x of None \<Rightarrow> [] | Some p \<Rightarrow> up_Children p)"

definition ppid :: "(int \<rightharpoonup> UnixProcess) \<Rightarrow> int \<Rightarrow> int" where
  "ppid procs x = (case procs x of None \<Rightarrow> 0 | Some p \<Rightarrow> up_PPID p)"

definition pcb_ok :: "int \<Rightarrow> UnixProcess \<Rightarrow> bool" where
  "pcb_ok pid p \<longleftrightarrow> up_PID p = pid \<and> length (pt_Entries (up_PageTable p)) = 16 \<and>
     (if up_State p = ProcStateZombie then up_AddressSpace p = None \<and> up_Children p = [] \<and> pid \<noteq> 1
      else up_State p = ProcStateReady \<and> up_AddressSpace p \<noteq> None)"

definition pm_ok :: "ProcessManager \<Rightarrow> bool" where
  "pm_ok pm \<longleftrightarrow> pm_InitPID pm = 1 \<and>
     tree_ok (dom (pm_Processes pm)) (kids (pm_Processes pm)) (ppid (pm_Processes pm)) (pm_NextPID pm) \<and>
     (\<forall>pid p. pm_Processes pm pid = Some p \<longrightarrow> pcb_ok pid p)"

lemma pm_okD:
  assumes "pm_ok pm"
  shows "pm_InitPID pm = 1" "pm_Processes pm pid = Some p \<Longrightarrow> pcb_ok pid p"
    "tree_ok (dom (pm_Processes pm)) (kids (pm_Processes pm)) (ppid (pm_Processes pm)) (pm_NextPID pm)"
  using assms by (simp_all add: pm_ok_def)

lemma kids_upd [simp]: "kids (m(x \<mapsto> p)) = (kids m)(x := up_Children p)"
  by (simp add: kids_def fun_eq_iff)

lemma ppid_upd [simp]: "ppid (m(x \<mapsto> p)) = (ppid m)(x := up_PPID p)"
  by (simp add: ppid_def fun_eq_iff)

lemma kids_Some: "m x = Some p \<Longrightarrow> kids m x = up_Children p"
  by (simp add: kids_def)

lemma ppid_Some: "m x = Some p \<Longrightarrow> ppid m x = up_PPID p"
  by (simp add: ppid_def)

lemma MapPage_length: "MapPage pt v f w = Some pt' \<Longrightarrow> length (pt_Entries pt') = length (pt_Entries pt)"
  by (auto simp: MapPage_def go_update_def split: if_splits option.splits)

lemma MapPage_total:
  assumes "unat v < 2 ^ 63"
  shows "\<exists>pt'. MapPage pt v f w = Some pt'"
proof -
  have v: "int_of_u64 v = uint v" using int_of_u64_small[OF assms] by (simp only: uint_nat)
  show ?thesis
  proof (cases "uint v < int (length (pt_Entries pt))")
    case True
    then show ?thesis unfolding MapPage_def v by (simp add: go_update_def)
  qed (simp add: MapPage_def v)
qed

lemma fork_pages_total:
  assumes "i + length es \<le> 16"
  shows "\<exists>pt'. fork_pages pt i es off = Some pt' \<and> length (pt_Entries pt') = length (pt_Entries pt)"
  using assms
proof (induction pt i es off rule: fork_pages.induct)
  case (2 pt i entry es off)
  have "unat (of_nat i :: u64) < 2 ^ 63" using 2(3) by (simp add: unat_of_nat take_bit_nat_eq_self)
  then obtain pt1 where "MapPage pt (of_nat i) (pte_PFN entry + off) (pte_ReadWrite entry) = Some pt1"
    using MapPage_total by blast
  then show ?case using 2 MapPage_length by fastforce
qed simp

lemma NewPageTable_16: "\<exists>pt. NewPageTable pid 16 4096 = Some pt \<and> length (pt_Entries pt) = 16"
  by (simp add: NewPageTable_def)

lemma NewProcessManager_ok: "\<exists>pm. NewProcessManager = Some pm \<and> pm_ok pm"
  by (auto simp: NewProcessManager_def NewPageTable_def pm_ok_def pcb_ok_def tree_ok_def kids_def ppid_def)

section \<open>Every operation keeps the tree\<close>

lemma Fork_cases:
  assumes ok: "pm_ok pm" and P: "pm_Processes pm parentPID = Some parent"
  obtains (zombie) "up_State parent = ProcStateZombie" "Fork pm parentPID = None"
  | (live) child where "up_State parent = ProcStateReady" "up_PID child = pm_NextPID pm" "up_PPID child = parentPID"
      "up_State child = ProcStateReady" "up_AddressSpace child \<noteq> None" "up_Children child = []"
      "length (pt_Entries (up_PageTable child)) = 16" "up_OpenFDs child = up_OpenFDs parent"
      "up_Registers child = (up_Registers parent)\<lparr>RAX := 0\<rparr>"
      "Fork pm parentPID = Some (pm\<lparr>pm_NextPID := pm_NextPID pm + 1,
          pm_Processes := (pm_Processes pm)(parentPID \<mapsto> parent\<lparr>
             up_Registers := (up_Registers parent)\<lparr>RAX := word_of_int (pm_NextPID pm)\<rparr>,
             up_Children := up_Children parent @ [pm_NextPID pm]\<rparr>, pm_NextPID pm \<mapsto> child),
          pm_LifecycleLog := pm_LifecycleLog pm @ [LineFork parentPID (up_Name parent) (pm_NextPID pm)]\<rparr>, Inr child)"
proof (cases "up_AddressSpace parent")
  case None
  then show ?thesis using zombie P pm_okD(2)[OF ok P] by (auto simp: Fork_def pcb_ok_def split: if_splits)
next
  case (Some as)
  from pm_okD(2)[OF ok P] have 16: "length (pt_Entries (up_PageTable parent)) = 16" by (simp add: pcb_ok_def)
  obtain pt where pt: "NewPageTable (pm_NextPID pm) 16 4096 = Some pt" "length (pt_Entries pt) = 16"
    using NewPageTable_16 by blast
  obtain pt' where pt': "fork_pages pt 0 (pt_Entries (up_PageTable parent)) (word_of_int (pm_NextPID pm * 10)) = Some pt'"
      "length (pt_Entries pt') = 16"
    using fork_pages_total[of 0 "pt_Entries (up_PageTable parent)" pt] 16 pt(2) by fastforce
  have "up_State parent = ProcStateReady" using pm_okD(2)[OF ok P] Some by (auto simp: pcb_ok_def split: if_splits)
  then show ?thesis
    using P Some pt pt' by (intro live) (simp_all add: Fork_def Let_def)
qed

lemma Fork_ok:
  assumes ok: "pm_ok pm" and F: "Fork pm parentPID = Some (pm', r)"
  shows "pm_ok pm'"
proof (cases "pm_Processes pm parentPID")
  case None
  with F ok show ?thesis by (auto simp: Fork_def)
next
  case (Some parent)
  from ok Some show ?thesis
  proof (cases rule: Fork_cases)
    case zombie
    with F show ?thesis by simp
  next
    case (live child)
    let ?n = "pm_NextPID pm" and ?m = "pm_Processes pm"
    define parent' where "parent' = parent\<lparr>up_Registers := (up_Registers parent)\<lparr>RAX := word_of_int ?n\<rparr>,
             up_Children := up_Children parent @ [?n]\<rparr>"
    have pm': "pm_Processes pm' = ?m(parentPID \<mapsto> parent', ?n \<mapsto> child)" "pm_NextPID pm' = ?n + 1"
      "pm_InitPID pm' = 1" using F live(10) pm_okD(1)[OF ok] by (auto simp: parent'_def)
    note T = pm_okD(3)[OF ok]
    have "1 \<noteq> ?n" using tree_okD(4)[OF T tree_okD(1)[OF T]] by simp
    have q: "(ppid ?m)(parentPID := up_PPID parent) = ppid ?m" using Some by (simp add: ppid_Some fun_upd_idem_iff)
    have "tree_ok (dom (pm_Processes pm')) (kids (pm_Processes pm')) (ppid (pm_Processes pm')) (?n + 1)"
      using tree_fork[OF T, of parentPID] Some live(3,6) q
      by (simp add: pm' parent'_def kids_Some insert_absorb domI insert_commute)
    moreover have "pcb_ok pid p" if "pm_Processes pm' pid = Some p" for pid p
      using that pm_okD(2)[OF ok, of pid p] pm_okD(2)[OF ok Some] live(1-7) \<open>1 \<noteq> ?n\<close>
      by (auto simp: pm' parent'_def pcb_ok_def split: if_splits)
    ultimately show ?thesis by (simp add: pm_ok_def pm')
  qed
qed

lemma Exec_ok:
  assumes ok: "pm_ok pm" and E: "Exec pm pid b as = Some (pm', r)"
  shows "pm_ok pm'"
proof (cases "pm_Processes pm pid")
  case None
  with E ok show ?thesis by (auto simp: Exec_def)
next
  case (Some proc)
  then obtain as0 pt p' where as0: "up_AddressSpace proc = Some as0"
    and pt: "Option.bind (NewPageTable pid 16 4096) (\<lambda>pt. MapPage pt 0 (word_of_int (pid * 20)) True) = Some pt"
    and p': "pm_Processes pm' = (pm_Processes pm)(pid \<mapsto> p')" "pm_NextPID pm' = pm_NextPID pm" "pm_InitPID pm' = pm_InitPID pm"
      "up_PID p' = up_PID proc" "up_PPID p' = up_PPID proc" "up_State p' = up_State proc" "up_Children p' = up_Children proc"
      "up_AddressSpace p' \<noteq> None" "up_PageTable p' = pt"
    using E by (auto simp: Exec_def Let_def split: option.splits)
  have 16: "length (pt_Entries pt) = 16" using pt NewPageTable_16[of pid] MapPage_length by (auto split: bind_splits)
  have same: "kids (pm_Processes pm') = kids (pm_Processes pm)" "ppid (pm_Processes pm') = ppid (pm_Processes pm)"
    "dom (pm_Processes pm') = dom (pm_Processes pm)"
    using Some p' by (auto simp: kids_Some ppid_Some fun_upd_idem_iff)
  have "pcb_ok x p" if "pm_Processes pm' x = Some p" for x p
    using that pm_okD(2)[OF ok, of x p] pm_okD(2)[OF ok Some] as0 p' 16 by (auto simp: pcb_ok_def split: if_splits)
  then show ?thesis using ok unfolding pm_ok_def same p'(2,3) by blast
qed

text \<open>The whole loop of exit: the children get the first process as parent and it gets them.\<close>

definition adopted :: "(int \<rightharpoonup> UnixProcess) \<Rightarrow> UnixProcess \<Rightarrow> int list \<Rightarrow> int \<rightharpoonup> UnixProcess" where
  "adopted m i cs x = (if x = 1 then Some (i\<lparr>up_Children := up_Children i @ cs\<rparr>)
     else if x \<in> set cs then map_option (\<lambda>p. p\<lparr>up_PPID := 1\<rparr>) (m x) else m x)"

lemma adopted_Nil: "m 1 = Some i \<Longrightarrow> adopted m i [] = m"
  by (auto simp: adopted_def fun_eq_iff)

lemma adopted_Cons:
  assumes "m c = Some child" "c \<noteq> 1" "c \<notin> set cs"
  shows "adopted (m(c \<mapsto> child\<lparr>up_PPID := 1\<rparr>, 1 \<mapsto> i\<lparr>up_Children := up_Children i @ [c]\<rparr>)) (i\<lparr>up_Children := up_Children i @ [c]\<rparr>) cs
    = adopted m i (c # cs)"
  using assms by (auto simp: adopted_def fun_eq_iff)

lemma reparent_loop:
  assumes "pm_InitPID pm = 1" "pm_Processes pm 1 = Some i" "1 \<notin> set cs" "distinct cs" "set cs \<subseteq> dom (pm_Processes pm)"
  shows "\<exists>log. reparent pm pid cs = Some (pm\<lparr>pm_LifecycleLog := log, pm_Processes := adopted (pm_Processes pm) i cs\<rparr>)"
  using assms
proof (induction cs arbitrary: pm i)
  case Nil
  then show ?case by (intro exI[of _ "pm_LifecycleLog pm"]) (simp add: adopted_Nil)
next
  case (Cons c cs)
  then obtain child where c: "pm_Processes pm c = Some child" "c \<noteq> 1" by auto
  define i' where "i' = i\<lparr>up_Children := up_Children i @ [c]\<rparr>"
  define pm1 where "pm1 = pm\<lparr>pm_Processes := (pm_Processes pm)(c \<mapsto> child\<lparr>up_PPID := 1\<rparr>, 1 \<mapsto> i'),
                   pm_LifecycleLog := pm_LifecycleLog pm @ [LineOrphan c pid]\<rparr>"
  have A: "adopt pm pid c child = Some pm1" using Cons.prems c by (simp add: adopt_def pm1_def i'_def)
  have pm1: "pm_InitPID pm1 = 1" "pm_Processes pm1 1 = Some i'" "set cs \<subseteq> dom (pm_Processes pm1)"
    using Cons.prems by (auto simp: pm1_def)
  from Cons.IH[OF pm1(1,2) _ _ pm1(3)] Cons.prems(3,4) obtain log where
    R: "reparent pm1 pid cs = Some (pm1\<lparr>pm_LifecycleLog := log, pm_Processes := adopted (pm_Processes pm1) i' cs\<rparr>)" by auto
  have "reparent pm pid (c # cs) = reparent pm1 pid cs" using c A by simp
  moreover have "adopted (pm_Processes pm1) i' cs = adopted (pm_Processes pm) i (c # cs)"
    using adopted_Cons[of "pm_Processes pm", OF c] Cons.prems(4) by (simp add: pm1_def i'_def)
  ultimately have "reparent pm pid (c # cs) = Some (pm\<lparr>pm_LifecycleLog := log, pm_Processes := adopted (pm_Processes pm) i (c # cs)\<rparr>)"
    using R by (simp add: pm1_def)
  then show ?case by blast
qed

lemma child_facts:
  assumes ok: "pm_ok pm" and P: "pm_Processes pm pid = Some proc"
  shows "1 \<notin> set (up_Children proc)" "pid \<notin> set (up_Children proc)" "distinct (up_Children proc)"
    "set (up_Children proc) \<subseteq> dom (pm_Processes pm)"
proof -
  note T = pm_okD(3)[OF ok]
  have d: "pid \<in> dom (pm_Processes pm)" and k: "kids (pm_Processes pm) pid = up_Children proc"
    using P by (auto simp: kids_Some)
  show "distinct (up_Children proc)" using tree_okD(5)[OF T d] k by simp
  show "set (up_Children proc) \<subseteq> dom (pm_Processes pm)" using tree_okD(6)[OF T d] k by auto
  have "pid < c" if "c \<in> set (up_Children proc)" for c using tree_okD(7)[OF T d, of c] k that by simp
  then show "1 \<notin> set (up_Children proc)" "pid \<notin> set (up_Children proc)"
    using tree_okD(3)[OF T d] by force+
qed

lemma Exit_cases:
  assumes ok: "pm_ok pm" and P: "pm_Processes pm pid = Some proc" and "pid \<noteq> 1"
  obtains i log where "pm_Processes pm 1 = Some i"
    "Exit pm pid code = Some (pm\<lparr>pm_LifecycleLog := log, pm_Processes := (adopted (pm_Processes pm) i (up_Children proc))
       (pid \<mapsto> proc\<lparr>up_State := ProcStateZombie, up_ExitCode := code, up_AddressSpace := None, up_Children := []\<rparr>)\<rparr>, None)"
proof -
  obtain i where i: "pm_Processes pm 1 = Some i" using tree_okD(1)[OF pm_okD(3)[OF ok]] by auto
  define z where "z = proc\<lparr>up_State := ProcStateZombie, up_ExitCode := code, up_AddressSpace := None\<rparr>"
  define pm1 where "pm1 = pm\<lparr>pm_Processes := (pm_Processes pm)(pid \<mapsto> z)\<rparr>"
  note no = child_facts[OF ok P]
  have "\<exists>log. reparent pm1 pid (up_Children proc)
      = Some (pm1\<lparr>pm_LifecycleLog := log, pm_Processes := adopted (pm_Processes pm1) i (up_Children proc)\<rparr>)"
    by (rule reparent_loop) (use i no pm_okD(1)[OF ok] \<open>pid \<noteq> 1\<close> in \<open>auto simp: pm1_def\<close>)
  then obtain log where R: "reparent pm1 pid (up_Children proc)
      = Some (pm1\<lparr>pm_LifecycleLog := log, pm_Processes := adopted (pm_Processes pm1) i (up_Children proc)\<rparr>)" by blast
  have z: "adopted (pm_Processes pm1) i (up_Children proc) pid = Some z"
    using no \<open>pid \<noteq> 1\<close> by (simp add: adopted_def pm1_def)
  have f: "(adopted (pm_Processes pm1) i (up_Children proc))(pid := w) = (adopted (pm_Processes pm) i (up_Children proc))(pid := w)" for w
    by (auto simp: adopted_def pm1_def fun_eq_iff)
  have "Exit pm pid code = Some (pm1\<lparr>pm_LifecycleLog := log @ [LineExit pid (up_Name proc) code],
       pm_Processes := (adopted (pm_Processes pm1) i (up_Children proc))(pid \<mapsto> z\<lparr>up_Children := []\<rparr>)\<rparr>, None)"
    using P R z \<open>pid \<noteq> 1\<close> pm_okD(1)[OF ok]
    by (simp add: Exit_def Let_def z_def[symmetric] pm1_def[symmetric])
  then have "Exit pm pid code = Some (pm\<lparr>pm_LifecycleLog := log @ [LineExit pid (up_Name proc) code],
       pm_Processes := (adopted (pm_Processes pm) i (up_Children proc))(pid \<mapsto> z\<lparr>up_Children := []\<rparr>)\<rparr>, None)"
    unfolding f by (simp add: pm1_def)
  with i show ?thesis using that by (simp add: z_def)
qed

lemma adopted_view:
  assumes ok: "pm_ok pm" and P: "pm_Processes pm pid = Some proc" and i: "pm_Processes pm 1 = Some i" and "pid \<noteq> 1"
    and z: "up_Children z = []" "up_PPID z = up_PPID proc"
  defines "m \<equiv> pm_Processes pm"
  defines "m' \<equiv> (adopted m i (up_Children proc))(pid \<mapsto> z)"
  shows "dom m' = dom m" "kids m' = (kids m)(1 := kids m 1 @ kids m pid, pid := [])"
    "ppid m' = (\<lambda>x. if x \<in> set (kids m pid) then 1 else ppid m x)"
proof -
  note no = child_facts[OF ok P]
  have k: "kids m pid = up_Children proc" "kids m 1 = up_Children i" using P i by (simp_all add: kids_Some m_def)
  show "dom m' = dom m" using P i by (auto simp: m'_def m_def adopted_def split: if_splits)
  show "kids m' = (kids m)(1 := kids m 1 @ kids m pid, pid := [])"
    using k z \<open>pid \<noteq> 1\<close> by (auto simp: m'_def kids_def adopted_def fun_eq_iff split: option.splits)
  have "x \<in> dom m" if "x \<in> set (up_Children proc)" for x using no(4) that by (auto simp: m_def)
  then show "ppid m' = (\<lambda>x. if x \<in> set (kids m pid) then 1 else ppid m x)"
    using k no z P i \<open>pid \<noteq> 1\<close> by (fastforce simp: m'_def m_def ppid_def adopted_def fun_eq_iff split: option.splits)
qed

lemma pcb_ok_adopted:
  assumes "adopted m i cs x = Some p" "pcb_ok 1 i" "\<And>p. m x = Some p \<Longrightarrow> pcb_ok x p"
  shows "pcb_ok x p"
proof (cases "x = 1")
  case True
  then have "p = i\<lparr>up_Children := up_Children i @ cs\<rparr>" using assms(1) by (simp add: adopted_def)
  with True assms(2) show ?thesis by (auto simp: pcb_ok_def split: if_splits)
next
  case False
  then obtain p0 where "m x = Some p0" "p = p0 \<or> p = p0\<lparr>up_PPID := 1\<rparr>"
    using assms(1) by (auto simp: adopted_def split: if_splits)
  with assms(3)[of p0] show ?thesis by (auto simp: pcb_ok_def)
qed

lemma Exit_ok:
  assumes ok: "pm_ok pm" and E: "Exit pm pid code = Some (pm', r)"
  shows "pm_ok pm'"
proof (cases "pm_Processes pm pid = None \<or> pid = 1")
  case True
  then have "pm' = pm" using E pm_okD(1)[OF ok] by (cases "pm_Processes pm pid") (simp_all add: Exit_def)
  with ok show ?thesis by simp
next
  case False
  then obtain proc where P: "pm_Processes pm pid = Some proc" and "pid \<noteq> 1" by auto
  define z where "z = proc\<lparr>up_State := ProcStateZombie, up_ExitCode := code, up_AddressSpace := None, up_Children := []\<rparr>"
  obtain i log where i: "pm_Processes pm 1 = Some i" and
    X: "Exit pm pid code = Some (pm\<lparr>pm_LifecycleLog := log, pm_Processes := (adopted (pm_Processes pm) i (up_Children proc))(pid \<mapsto> z)\<rparr>, None)"
    unfolding z_def by (rule Exit_cases[OF ok P \<open>pid \<noteq> 1\<close>, of code])
  have m': "pm_Processes pm' = (adopted (pm_Processes pm) i (up_Children proc))(pid \<mapsto> z)"
    "pm_InitPID pm' = 1" "pm_NextPID pm' = pm_NextPID pm" using E X pm_okD(1)[OF ok] by auto
  have z: "up_Children z = []" "up_PPID z = up_PPID proc" by (simp_all add: z_def)
  have "tree_ok (dom (pm_Processes pm')) (kids (pm_Processes pm')) (ppid (pm_Processes pm')) (pm_NextPID pm')"
    unfolding m' adopted_view[OF ok P i \<open>pid \<noteq> 1\<close> z]
    by (rule tree_exit[OF pm_okD(3)[OF ok] _ \<open>pid \<noteq> 1\<close>]) (use P in blast)
  moreover have "pcb_ok x p" if x: "pm_Processes pm' x = Some p" for x p
  proof (cases "x = pid")
    case True
    with x have "p = z" by (simp add: m')
    with True pm_okD(2)[OF ok P] \<open>pid \<noteq> 1\<close> show ?thesis by (simp add: z_def pcb_ok_def)
  next
    case False
    then have a: "adopted (pm_Processes pm) i (up_Children proc) x = Some p" using x by (simp add: m')
    show ?thesis by (rule pcb_ok_adopted[OF a pm_okD(2)[OF ok i] pm_okD(2)[OF ok]])
  qed
  ultimately show ?thesis unfolding pm_ok_def using m'(2) by blast
qed

lemma tree_ok_cong:
  assumes "tree_ok D k q n" "\<And>x. x \<in> D \<Longrightarrow> k' x = k x \<and> q' x = q x"
  shows "tree_ok D k' q' n"
  using assms by (auto simp: tree_ok_def)

definition exit_code :: "ProcessManager \<Rightarrow> int \<Rightarrow> int" where
  "exit_code pm c = (case pm_Processes pm c of None \<Rightarrow> 0 | Some p \<Rightarrow> up_ExitCode p)"

text \<open>What wait does, on the list of zombies among the children.\<close>

definition zombies :: "ProcessManager \<Rightarrow> int \<Rightarrow> int list" where
  "zombies pm p = filter (is_zombie pm) (kids (pm_Processes pm) p)"

lemma Wait_none:
  assumes "pm_Processes pm p = Some parent" "zombies pm p = []"
  shows "Wait pm p = (pm, Inl (if up_Children parent = [] then ErrNoChild p else ErrWouldBlock))"
proof -
  have "dropWhile (\<lambda>c. \<not> is_zombie pm c) (up_Children parent) = []"
    using assms by (simp add: zombies_def kids_Some filter_empty_conv)
  with assms(1) show ?thesis unfolding Wait_def by (simp del: dropWhile_eq_Nil_conv)
qed

lemma Wait_some:
  assumes "pm_Processes pm p = Some parent" "zombies pm p = c # zs"
  obtains pre post where "up_Children parent = pre @ c # post" "is_zombie pm c" "filter (is_zombie pm) (pre @ post) = zs"
    "Wait pm p = (pm\<lparr>pm_Processes := ((pm_Processes pm)(p \<mapsto> parent\<lparr>up_Children := pre @ post\<rparr>))(c := None),
       pm_LifecycleLog := pm_LifecycleLog pm @ [LineReap p c (exit_code pm c)]\<rparr>, Inr (c, exit_code pm c))"
proof -
  have f: "filter (is_zombie pm) (up_Children parent) = c # zs" using assms by (simp add: zombies_def kids_Some)
  let ?pre = "takeWhile (\<lambda>c. \<not> is_zombie pm c) (up_Children parent)"
  obtain d post where d: "dropWhile (\<lambda>c. \<not> is_zombie pm c) (up_Children parent) = d # post"
    using f by (cases "dropWhile (\<lambda>c. \<not> is_zombie pm c) (up_Children parent)") (auto simp: filter_empty_conv)
  have z: "is_zombie pm d" using d by (metis (full_types) dropWhile_eq_Cons_conv)
  have e: "up_Children parent = ?pre @ d # post" using d by (metis takeWhile_dropWhile_id)
  have p0: "filter (is_zombie pm) ?pre = []" by (auto simp: filter_empty_conv dest: set_takeWhileD)
  from f have "filter (is_zombie pm) (?pre @ d # post) = c # zs" using e by metis
  then have dc: "d = c" "filter (is_zombie pm) (?pre @ post) = zs" using p0 z by simp_all
  have "up_Children parent \<noteq> []" using e by auto
  then have "Wait pm p = (pm\<lparr>pm_Processes := ((pm_Processes pm)(p \<mapsto> parent\<lparr>up_Children := ?pre @ post\<rparr>))(c := None),
       pm_LifecycleLog := pm_LifecycleLog pm @ [LineReap p c (exit_code pm c)]\<rparr>, Inr (c, exit_code pm c))"
    using assms(1) d dc by (simp add: Wait_def Let_def exit_code_def)
  with that[of ?pre post] e z dc show ?thesis by simp
qed

lemma Wait_reaps:
  assumes ok: "pm_ok pm" and P: "pm_Processes pm p = Some parent" and Z: "zombies pm p = c # zs"
    and W: "Wait pm p = (pm', r)"
  shows "pm_ok pm'" "r = Inr (c, exit_code pm c)" "zombies pm' p = zs" "pm_Processes pm' p \<noteq> None"
    "pm_Processes pm' c = None" "x \<noteq> c \<Longrightarrow> exit_code pm' x = exit_code pm x"
proof -
  from P Z obtain pre post where e: "up_Children parent = pre @ c # post" and zc: "is_zombie pm c" and
    f: "filter (is_zombie pm) (pre @ post) = zs" and
    W': "Wait pm p = (pm\<lparr>pm_Processes := ((pm_Processes pm)(p \<mapsto> parent\<lparr>up_Children := pre @ post\<rparr>))(c := None),
       pm_LifecycleLog := pm_LifecycleLog pm @ [LineReap p c (exit_code pm c)]\<rparr>, Inr (c, exit_code pm c))"
    by (rule Wait_some)
  have cp: "c \<noteq> p" "c \<notin> set (pre @ post)" using child_facts[OF ok P] e by auto
  let ?m = "pm_Processes pm" and ?m' = "pm_Processes pm'"
  have m': "?m' = (?m(p \<mapsto> parent\<lparr>up_Children := pre @ post\<rparr>))(c := None)" "pm_NextPID pm' = pm_NextPID pm"
    "pm_InitPID pm' = pm_InitPID pm" using W W' by auto
  show "r = Inr (c, exit_code pm c)" "pm_Processes pm' p \<noteq> None" "pm_Processes pm' c = None"
    "x \<noteq> c \<Longrightarrow> exit_code pm' x = exit_code pm x"
    using W W' cp P by (auto simp: m' exit_code_def)
  obtain child where ch: "?m c = Some child" "up_State child = ProcStateZombie"
    using zc by (auto simp: is_zombie_def split: option.splits)
  then have kc: "kids ?m c = []" using pm_okD(2)[OF ok ch(1)] by (simp add: kids_Some pcb_ok_def)
  have "dom ?m' = dom ?m - {c}" using P by (auto simp: m'(1))
  moreover have "tree_ok (dom ?m - {c}) ((kids ?m)(p := pre @ post)) (ppid ?m) (pm_NextPID pm)"
    by (rule tree_reap[OF pm_okD(3)[OF ok]]) (use P e kc in \<open>auto simp: kids_Some\<close>)
  moreover have "kids ?m' x = ((kids ?m)(p := pre @ post)) x \<and> ppid ?m' x = ppid ?m x" if "x \<in> dom ?m - {c}" for x
    using that P by (auto simp: m'(1) kids_def ppid_def)
  ultimately have "tree_ok (dom ?m') (kids ?m') (ppid ?m') (pm_NextPID pm')"
    unfolding m'(2) by (simp only: tree_ok_cong)
  moreover have "pcb_ok x q" if "?m' x = Some q" for x q
    using that pm_okD(2)[OF ok, of x q] pm_okD(2)[OF ok P] e by (auto simp: m'(1) pcb_ok_def split: if_splits)
  ultimately show "pm_ok pm'" unfolding pm_ok_def m'(3) using pm_okD(1)[OF ok] by blast
  have "is_zombie pm' x = is_zombie pm x" if "x \<in> set (pre @ post)" for x
    using that cp P by (auto simp: is_zombie_def m'(1))
  moreover have "kids ?m' p = pre @ post" using cp by (simp add: m'(1) kids_def)
  ultimately show "zombies pm' p = zs" using f unfolding zombies_def by (metis (mono_tags, lifting) filter_cong)
qed

lemma Wait_none_stays: "Wait pm p = (pm', r) \<Longrightarrow> pm_Processes pm x = None \<Longrightarrow> pm_Processes pm' x = None"
  by (auto simp: Wait_def Let_def split: option.splits if_splits list.splits)

lemma Wait_ok:
  assumes ok: "pm_ok pm" and W: "Wait pm p = (pm', r)"
  shows "pm_ok pm'"
proof (cases "pm_Processes pm p")
  case None
  with W have "pm' = pm" by (simp add: Wait_def)
  with ok show ?thesis by simp
next
  case (Some parent)
  show ?thesis
  proof (cases "zombies pm p")
    case Nil
    with W Wait_none[OF Some] ok show ?thesis by simp
  next
    case (Cons c zs)
    from Wait_reaps(1)[OF ok Some Cons W] show ?thesis .
  qed
qed

lemma unix_step_ok:
  assumes ok: "pm_ok pm" and S: "unix_step pm c = Some pm'"
  shows "pm_ok pm'"
proof (cases c)
  case (CFork p)
  with S obtain r where "Fork pm p = Some (pm', r)" by auto
  with Fork_ok[OF ok] show ?thesis by blast
next
  case (CExec p b as)
  with S obtain r where "Exec pm p b as = Some (pm', r)" by auto
  with Exec_ok[OF ok] show ?thesis by blast
next
  case (CExit p code)
  with S obtain r where "Exit pm p code = Some (pm', r)" by auto
  with Exit_ok[OF ok] show ?thesis by blast
next
  case (CWait p)
  with S obtain r where "Wait pm p = (pm', r)" by (cases "Wait pm p") auto
  with Wait_ok[OF ok] show ?thesis by blast
qed

lemma unix_run_ok: "pm_ok pm \<Longrightarrow> unix_run pm cs = Some pm' \<Longrightarrow> pm_ok pm'"
proof (induction cs arbitrary: pm)
  case (Cons c cs)
  then obtain pm1 where "unix_step pm c = Some pm1" "unix_run pm1 cs = Some pm'" by (auto split: bind_splits)
  with Cons unix_step_ok show ?case by blast
qed simp

lemma reachable_ok:
  assumes "Option.bind NewProcessManager (\<lambda>pm0. unix_run pm0 cs) = Some pm"
  shows "pm_ok pm"
proof -
  obtain pm0 where 0: "NewProcessManager = Some pm0" "pm_ok pm0" using NewProcessManager_ok by blast
  from assms have "unix_run pm0 cs = Some pm" unfolding 0(1) by simp
  with 0(2) show ?thesis by (rule unix_run_ok)
qed

section \<open>The process table\<close>

text \<open>C6: After any sequence of fork, exec, exit and wait the table is a tree with the first process as its
  root. The first process is there and has not exited. Every other process has a parent in the table that
  has not exited, that lists it as a child and that has a smaller number, so no exit leaves an orphan
  behind. A process that has exited holds neither an address space nor children.\<close>

theorem process_tree:
  assumes "Option.bind NewProcessManager (\<lambda>pm0. unix_run pm0 cs) = Some pm"
  shows "(\<exists>i. pm_Processes pm 1 = Some i \<and> up_State i = ProcStateReady) \<and>
    (\<forall>c p. pm_Processes pm c = Some p \<longrightarrow> up_PID p = c \<and> c < pm_NextPID pm \<and>
       (c \<noteq> 1 \<longrightarrow> up_PPID p < c \<and> (\<exists>q. pm_Processes pm (up_PPID p) = Some q \<and>
          c \<in> set (up_Children q) \<and> distinct (up_Children q) \<and> up_State q = ProcStateReady)) \<and>
       (\<forall>d\<in>set (up_Children p). \<exists>r. pm_Processes pm d = Some r \<and> up_PPID r = c) \<and>
       (up_State p = ProcStateZombie \<longleftrightarrow> up_AddressSpace p = None) \<and>
       (up_State p = ProcStateZombie \<longrightarrow> up_Children p = []))"
proof -
  note ok = reachable_ok[OF assms]
  note T = pm_okD(3)[OF ok]
  have 1: "\<exists>i. pm_Processes pm 1 = Some i \<and> up_State i = ProcStateReady"
    using tree_okD(1)[OF T] pm_okD(2)[OF ok, of 1] by (fastforce simp: pcb_ok_def split: if_splits)
  have 2: "up_PPID p < c \<and> (\<exists>q. pm_Processes pm (up_PPID p) = Some q \<and>
          c \<in> set (up_Children q) \<and> distinct (up_Children q) \<and> up_State q = ProcStateReady)"
    if c: "pm_Processes pm c = Some p" "c \<noteq> 1" for c p
  proof -
    have d: "c \<in> dom (pm_Processes pm)" using c by auto
    have q: "up_PPID p \<in> dom (pm_Processes pm)" "c \<in> set (kids (pm_Processes pm) (up_PPID p))"
      using tree_okD(9,10)[OF T d c(2)] c(1) by (simp_all add: ppid_Some)
    then obtain q where q': "pm_Processes pm (up_PPID p) = Some q" "c \<in> set (up_Children q)" by (auto simp: kids_Some)
    with pm_okD(2)[OF ok q'(1)] have "up_State q = ProcStateReady" by (auto simp: pcb_ok_def split: if_splits)
    with q' child_facts(3)[OF ok q'(1)] tree_okD(7)[OF T q(1,2)] show ?thesis by blast
  qed
  have 3: "\<exists>r. pm_Processes pm d = Some r \<and> up_PPID r = c"
    if c: "pm_Processes pm c = Some p" "d \<in> set (up_Children p)" for c p d
  proof -
    have "c \<in> dom (pm_Processes pm)" "d \<in> set (kids (pm_Processes pm) c)" using c by (auto simp: kids_Some)
    from tree_okD(6,8)[OF T this] show ?thesis by (auto simp: ppid_def split: option.splits)
  qed
  have 4: "up_PID p = c \<and> c < pm_NextPID pm \<and> (up_State p = ProcStateZombie \<longleftrightarrow> up_AddressSpace p = None) \<and>
       (up_State p = ProcStateZombie \<longrightarrow> up_Children p = [])" if "pm_Processes pm c = Some p" for c p
    using pm_okD(2)[OF ok that] tree_okD(4)[OF T, of c] that by (auto simp: pcb_ok_def split: if_splits)
  show ?thesis using 1 2 3 4 by blast
qed

definition family :: "unix_call list" where
  "family = [CFork 1, CFork 2, CExec 3 ''sh'' [''-c''], CExit 2 7]"

lemma family_reachable:
  "(case Option.bind NewProcessManager (\<lambda>pm0. unix_run pm0 family) of None \<Rightarrow> False | Some pm \<Rightarrow>
      map_option up_PPID (pm_Processes pm 3) = Some 1 \<and> map_option up_State (pm_Processes pm 2) = Some ProcStateZombie)"
  by code_simp

theorem process_tree_witness:
  "\<exists>pm p q. Option.bind NewProcessManager (\<lambda>pm0. unix_run pm0 family) = Some pm \<and>
     pm_Processes pm 3 = Some p \<and> up_PPID p = 1 \<and> pm_Processes pm 1 = Some q \<and> 3 \<in> set (up_Children q)"
proof -
  obtain pm p where R: "Option.bind NewProcessManager (\<lambda>pm0. unix_run pm0 family) = Some pm"
    and p: "pm_Processes pm 3 = Some p" "up_PPID p = 1"
    using family_reachable by (auto split: option.splits)
  from process_tree[OF R] p have "\<exists>q. pm_Processes pm 1 = Some q \<and> 3 \<in> set (up_Children q)"
    by (metis numeral_eq_one_iff semiring_norm(84))
  with R p show ?thesis by blast
qed

text \<open>Which operations panic.\<close>

lemma Fork_None_iff:
  assumes ok: "pm_ok pm"
  shows "Fork pm p = None \<longleftrightarrow> is_zombie pm p"
proof (cases "pm_Processes pm p")
  case None
  then show ?thesis by (simp add: Fork_def is_zombie_def)
next
  case (Some parent)
  from ok Some show ?thesis by (cases rule: Fork_cases) (simp_all add: is_zombie_def Some)
qed

lemma Exec_None_iff:
  assumes ok: "pm_ok pm"
  shows "Exec pm p b as = None \<longleftrightarrow> is_zombie pm p"
proof (cases "pm_Processes pm p")
  case None
  then show ?thesis by (simp add: Exec_def is_zombie_def)
next
  case (Some proc)
  obtain pt where "NewPageTable p 16 4096 = Some pt" using NewPageTable_16 by blast
  moreover obtain pt' where "MapPage pt 0 (word_of_int (p * 20)) True = Some pt'" using MapPage_total[of 0 pt] by auto
  ultimately show ?thesis using Some pm_okD(2)[OF ok Some]
    by (auto simp: Exec_def is_zombie_def pcb_ok_def split: if_splits option.splits)
qed

lemma Exit_total:
  assumes ok: "pm_ok pm"
  shows "Exit pm p code \<noteq> None"
proof (cases "pm_Processes pm p = None \<or> p = 1")
  case True
  then show ?thesis using pm_okD(1)[OF ok] by (cases "pm_Processes pm p") (simp_all add: Exit_def)
next
  case False
  then obtain proc where "pm_Processes pm p = Some proc" "p \<noteq> 1" by auto
  from Exit_cases[OF ok this, of code] show ?thesis by blast
qed

text \<open>On a table that fork, exec, exit and wait have built, an operation panics exactly when it is
  a fork or an exec of a process that has exited and is still in the table: both read the address space
  that exit has set to nil.\<close>

theorem panic_iff_zombie:
  assumes "Option.bind NewProcessManager (\<lambda>pm0. unix_run pm0 cs) = Some pm"
  shows "unix_step pm c = None \<longleftrightarrow>
    (case c of CFork p \<Rightarrow> is_zombie pm p | CExec p _ _ \<Rightarrow> is_zombie pm p | _ \<Rightarrow> False)"
proof -
  note ok = reachable_ok[OF assms]
  show ?thesis using Fork_None_iff[OF ok] Exec_None_iff[OF ok] Exit_total[OF ok] by (cases c) auto
qed

theorem panic_iff_zombie_witness:
  "\<exists>pm. Option.bind NewProcessManager (\<lambda>pm0. unix_run pm0 family) = Some pm \<and>
     unix_step pm (CFork 2) = None \<and> unix_step pm (CFork 3) \<noteq> None"
proof -
  obtain pm where R: "Option.bind NewProcessManager (\<lambda>pm0. unix_run pm0 family) = Some pm"
    and s: "map_option up_State (pm_Processes pm 2) = Some ProcStateZombie"
    using family_reachable by (auto split: option.splits)
  have "case Option.bind NewProcessManager (\<lambda>pm0. unix_run pm0 family) of None \<Rightarrow> False | Some pm \<Rightarrow> \<not> is_zombie pm 3"
    by code_simp
  with R s panic_iff_zombie[OF R, of "CFork 2"] panic_iff_zombie[OF R, of "CFork 3"] show ?thesis
    by (auto simp: is_zombie_def)
qed

section \<open>Exit and wait\<close>

fun wait_n :: "nat \<Rightarrow> ProcessManager \<Rightarrow> int \<Rightarrow> ProcessManager \<times> (lifecycle_error + int \<times> int) list" where
  "wait_n 0 pm p = (pm, [])"
| "wait_n (Suc n) pm p = (let (pm1, r) = Wait pm p; (pm2, rs) = wait_n n pm1 p in (pm2, r # rs))"

lemma wait_n_zombies:
  assumes "pm_ok pm" "pm_Processes pm p \<noteq> None" "zombies pm p = zs" "distinct zs"
  shows "\<exists>pm'. wait_n (length zs) pm p = (pm', map (\<lambda>c. Inr (c, exit_code pm c)) zs) \<and> zombies pm' p = [] \<and>
     pm_Processes pm' p \<noteq> None \<and> (\<forall>c. c \<in> set zs \<or> pm_Processes pm c = None \<longrightarrow> pm_Processes pm' c = None)"
  using assms
proof (induction zs arbitrary: pm)
  case (Cons c zs)
  obtain parent where P: "pm_Processes pm p = Some parent" using Cons.prems by auto
  obtain pm1 r where W: "Wait pm p = (pm1, r)" by fastforce
  note R = Wait_reaps[OF Cons.prems(1) P Cons.prems(3) W]
  from Cons.IH[OF R(1) R(4) R(3)] Cons.prems(4) obtain pm' where
    I: "wait_n (length zs) pm1 p = (pm', map (\<lambda>c. Inr (c, exit_code pm1 c)) zs)" "zombies pm' p = []" "pm_Processes pm' p \<noteq> None"
    "\<forall>c. c \<in> set zs \<or> pm_Processes pm1 c = None \<longrightarrow> pm_Processes pm' c = None" by auto
  have "exit_code pm1 x = exit_code pm x" if "x \<in> set zs" for x
    by (rule R(6)) (use that Cons.prems(4) in auto)
  then have "wait_n (length (c # zs)) pm p = (pm', map (\<lambda>c. Inr (c, exit_code pm c)) (c # zs))"
    using I(1) W R(2) by simp
  moreover have "pm_Processes pm1 x = None" if "pm_Processes pm x = None" for x
    using that Wait_none_stays[OF W] by blast
  ultimately show ?case using I R(5) by auto
qed simp

lemma Exit_zombie:
  assumes ok: "pm_ok pm" and P: "pm_Processes pm c = Some proc" and "c \<noteq> 1"
  shows "\<exists>pm1. Exit pm c code = Some (pm1, None) \<and> pm_ok pm1 \<and> pm_Processes pm1 (up_PPID proc) \<noteq> None \<and>
    c \<in> set (zombies pm1 (up_PPID proc)) \<and> exit_code pm1 c = code"
proof -
  define z where "z = proc\<lparr>up_State := ProcStateZombie, up_ExitCode := code, up_AddressSpace := None, up_Children := []\<rparr>"
  obtain i log where i: "pm_Processes pm 1 = Some i" and
    X: "Exit pm c code = Some (pm\<lparr>pm_LifecycleLog := log, pm_Processes := (adopted (pm_Processes pm) i (up_Children proc))(c \<mapsto> z)\<rparr>, None)"
    unfolding z_def by (rule Exit_cases[OF ok P \<open>c \<noteq> 1\<close>, of code])
  obtain pm1 where E: "Exit pm c code = Some (pm1, None)"
    and m1: "pm_Processes pm1 = (adopted (pm_Processes pm) i (up_Children proc))(c \<mapsto> z)" using X by auto
  have ok1: "pm_ok pm1" by (rule Exit_ok[OF ok E])
  have c: "pm_Processes pm1 c = Some z" by (simp add: m1)
  have d: "c \<in> dom (pm_Processes pm1)" using c by auto
  have "ppid (pm_Processes pm1) c = up_PPID proc" using c by (simp add: ppid_Some z_def)
  with tree_okD(9,10)[OF pm_okD(3)[OF ok1] d \<open>c \<noteq> 1\<close>]
  have "up_PPID proc \<in> dom (pm_Processes pm1)" "c \<in> set (kids (pm_Processes pm1) (up_PPID proc))" by simp_all
  moreover have "is_zombie pm1 c" "exit_code pm1 c = code" using c by (simp_all add: is_zombie_def exit_code_def z_def)
  ultimately show ?thesis using E ok1 by (auto simp: zombies_def)
qed

lemma zombies_distinct: "pm_ok pm \<Longrightarrow> distinct (zombies pm p)"
  unfolding zombies_def kids_def using child_facts(3) by (cases "pm_Processes pm p") auto

text \<open>C7: The status of a process that exits reaches its parent. Exit of any process but the first
  succeeds, and when the parent then waits once for each of its exited children, every wait succeeds,
  one of them returns the number of the process with its exit code, the process is gone from the table, and the
  next wait reports that no exited child is left.\<close>

theorem exit_status_delivered:
  assumes "Option.bind NewProcessManager (\<lambda>pm0. unix_run pm0 cs) = Some pm"
    and "pm_Processes pm c = Some proc" and "c \<noteq> 1"
  shows "\<exists>pm1 pm2 rs. Exit pm c code = Some (pm1, None) \<and>
    wait_n (length (zombies pm1 (up_PPID proc))) pm1 (up_PPID proc) = (pm2, rs) \<and>
    (\<forall>r\<in>set rs. isl r = False) \<and> Inr (c, code) \<in> set rs \<and> pm_Processes pm2 c = None \<and>
    snd (Wait pm2 (up_PPID proc)) \<in> {Inl (ErrNoChild (up_PPID proc)), Inl ErrWouldBlock}"
proof -
  let ?p = "up_PPID proc"
  from Exit_zombie[OF reachable_ok[OF assms(1)] assms(2,3), of code] obtain pm1 where
    1: "Exit pm c code = Some (pm1, None)" "pm_ok pm1" "pm_Processes pm1 ?p \<noteq> None" "c \<in> set (zombies pm1 ?p)" "exit_code pm1 c = code"
    by blast
  from wait_n_zombies[OF 1(2,3) refl zombies_distinct[OF 1(2)]] obtain pm2 where
    2: "wait_n (length (zombies pm1 ?p)) pm1 ?p = (pm2, map (\<lambda>c. Inr (c, exit_code pm1 c)) (zombies pm1 ?p))"
      "zombies pm2 ?p = []" "pm_Processes pm2 ?p \<noteq> None" "pm_Processes pm2 c = None" using 1(4) by blast
  from 2(3) obtain parent where "pm_Processes pm2 ?p = Some parent" by blast
  from Wait_none[OF this 2(2)] have "snd (Wait pm2 ?p) \<in> {Inl (ErrNoChild ?p), Inl ErrWouldBlock}" by simp
  with 1 2 show ?thesis by (intro exI conjI) auto
qed

theorem exit_status_delivered_witness:
  "\<exists>pm1 pm2 rs pm. Option.bind NewProcessManager (\<lambda>pm0. unix_run pm0 family) = Some pm \<and>
    Exit pm 3 9 = Some (pm1, None) \<and> wait_n (length (zombies pm1 1)) pm1 1 = (pm2, rs) \<and>
    Inr (3, 9) \<in> set rs \<and> pm_Processes pm2 3 = None"
proof -
  obtain pm p where R: "Option.bind NewProcessManager (\<lambda>pm0. unix_run pm0 family) = Some pm"
    and p: "pm_Processes pm 3 = Some p" "up_PPID p = 1"
    using family_reachable by (auto split: option.splits)
  have "(3::int) \<noteq> 1" by simp
  from exit_status_delivered[OF R p(1) this, of 9] R p(2) show ?thesis by auto
qed

end
