(* ===== verification/Trap_Gate.thy ===== *)
theory Trap_Gate
  imports Go_Prelude
begin

text \<open>
  The two privilege modes of the CPU (\<open>pkg/kernel/cpu_mode.go\<close>) and the interrupt descriptor table
  (\<open>pkg/kernel/trap_table.go\<close>). The lines of the execution log are values with the data that the
  code prints. Interrupt service routines are values of a function type, as in the code: the ones
  that the code registers are modelled, and the theorems hold for any other.
\<close>

section \<open>The CPU\<close>

datatype CPUMode = ModeKernel | ModeUser

datatype InstructionType =
    InstUserArithmetic | InstUserBranch | InstSyscall | InstPrivilegedHalt | InstPrivilegedCLI
  | InstPrivilegedSTI | InstPrivilegedSetCR3 | InstPrivilegedPortIO | InstOther string

record CPUInstruction =
  inst_Opcode :: InstructionType
  inst_Description :: string
  inst_IsPrivileged :: bool

datatype cpu_line =
    LineExecuted CPUMode u64 InstructionType string
  | LineViolation CPUMode u64 InstructionType string
  | LineTrap int u64 u64
  | LineReturn u64

record HardwareCPU =
  hw_CurrentMode :: CPUMode
  hw_UserRSP :: u64
  hw_KernelRSP :: u64
  hw_ProgramCounter :: u64
  hw_CR3 :: u64
  hw_InterruptsOn :: bool
  hw_ExecutionLog :: "cpu_line list"

datatype cpu_error = ErrPrivilegeViolation

definition NewHardwareCPU :: HardwareCPU where
  "NewHardwareCPU = \<lparr>hw_CurrentMode = ModeUser, hw_UserRSP = 0x7FFFFFFF, hw_KernelRSP = 0xFFFFFFFF,
     hw_ProgramCounter = 0x00400000, hw_CR3 = 0x00100000, hw_InterruptsOn = True, hw_ExecutionLog = []\<rparr>"

definition SwitchToKernelMode :: "HardwareCPU \<Rightarrow> int \<Rightarrow> HardwareCPU" where
  "SwitchToKernelMode cpu vector =
     (if hw_CurrentMode cpu = ModeKernel then cpu
      else cpu\<lparr>hw_CurrentMode := ModeKernel,
               hw_ExecutionLog := hw_ExecutionLog cpu @ [LineTrap vector (hw_UserRSP cpu) (hw_KernelRSP cpu)]\<rparr>)"

definition ReturnToUserMode :: "HardwareCPU \<Rightarrow> HardwareCPU" where
  "ReturnToUserMode cpu =
     (if hw_CurrentMode cpu = ModeUser then cpu
      else cpu\<lparr>hw_CurrentMode := ModeUser,
               hw_ExecutionLog := hw_ExecutionLog cpu @ [LineReturn (hw_UserRSP cpu)]\<rparr>)"

definition ExecuteInstruction :: "HardwareCPU \<Rightarrow> CPUInstruction \<Rightarrow> HardwareCPU \<times> cpu_error option" where
  "ExecuteInstruction cpu inst =
     (let line = (\<lambda>f. f (hw_CurrentMode cpu) (hw_ProgramCounter cpu) (inst_Opcode inst) (inst_Description inst))
      in if inst_IsPrivileged inst \<and> hw_CurrentMode cpu = ModeUser
         then (cpu\<lparr>hw_ExecutionLog := hw_ExecutionLog cpu @ [line LineViolation]\<rparr>, Some ErrPrivilegeViolation)
         else
           let cpu1 = (case inst_Opcode inst of
                         InstPrivilegedCLI \<Rightarrow> cpu\<lparr>hw_InterruptsOn := False\<rparr>
                       | InstPrivilegedSTI \<Rightarrow> cpu\<lparr>hw_InterruptsOn := True\<rparr>
                       | InstPrivilegedSetCR3 \<Rightarrow> cpu\<lparr>hw_CR3 := 0x00200000\<rparr>
                       | InstSyscall \<Rightarrow> SwitchToKernelMode cpu 0x80
                       | _ \<Rightarrow> cpu)
           in (cpu1\<lparr>hw_ProgramCounter := hw_ProgramCounter cpu1 + 4,
                    hw_ExecutionLog := hw_ExecutionLog cpu1 @ [line LineExecuted]\<rparr>, None))"

section \<open>The trap table\<close>

datatype TrapType = TrapSyscall | TrapException | TrapInterrupt

record TrapContext =
  tc_Vector :: int
  tc_Type :: TrapType
  tc_Name :: string
  tc_SavedPC :: u64
  tc_SavedRSP :: u64
  tc_SavedFlags :: u64
  tc_ErrorCode :: u64
  tc_SyscallNum :: int
  tc_Args :: "u64 list"
  tc_ReturnValue :: u64

datatype trap_error = ErrCPUException string u64 | ErrUnhandledVector int

text \<open>A service routine updates the CPU and the context and returns a status and an error.\<close>

type_synonym TrapHandlerFunc =
  "HardwareCPU \<Rightarrow> TrapContext \<Rightarrow> HardwareCPU \<times> TrapContext \<times> int \<times> trap_error option"

record TrapDescriptor =
  td_Vector :: int
  td_Name :: string
  td_Type :: TrapType
  td_Description :: string
  td_Handler :: "TrapHandlerFunc option"
  td_Count :: int

record TrapTable =
  tt_Descriptors :: "int \<rightharpoonup> TrapDescriptor"
  tt_History :: "TrapContext list"

definition defaultExceptionHandler :: TrapHandlerFunc where
  "defaultExceptionHandler cpu ctx = (cpu, ctx, -1, Some (ErrCPUException (tc_Name ctx) (tc_SavedPC ctx)))"

definition defaultInterruptHandler :: TrapHandlerFunc where
  "defaultInterruptHandler cpu ctx = (cpu, ctx, 0, None)"

definition defaultSyscallGateHandler :: TrapHandlerFunc where
  "defaultSyscallGateHandler cpu ctx = (cpu, ctx\<lparr>tc_ReturnValue := 0\<rparr>, 0, None)"

definition RegisterHandler ::
  "TrapTable \<Rightarrow> int \<Rightarrow> string \<Rightarrow> TrapType \<Rightarrow> string \<Rightarrow> TrapHandlerFunc option \<Rightarrow> TrapTable" where
  "RegisterHandler tt vector name tType desc handler =
     tt\<lparr>tt_Descriptors := (tt_Descriptors tt)(vector \<mapsto>
       \<lparr>td_Vector = vector, td_Name = name, td_Type = tType, td_Description = desc,
        td_Handler = handler, td_Count = 0\<rparr>)\<rparr>"

definition NewTrapTable :: TrapTable where
  "NewTrapTable =
     (let tt = \<lparr>tt_Descriptors = Map.empty, tt_History = []\<rparr>;
          tt = RegisterHandler tt 0 ''Divide-by-Zero (#DE)'' TrapException
                 ''Triggered by integer division by zero'' (Some defaultExceptionHandler);
          tt = RegisterHandler tt 6 ''Invalid Opcode (#UD)'' TrapException
                 ''CPU encountered unmapped instruction opcode'' (Some defaultExceptionHandler);
          tt = RegisterHandler tt 13 ''General Protection Fault (#GP)'' TrapException
                 ''Privilege violation or memory segment fault'' (Some defaultExceptionHandler);
          tt = RegisterHandler tt 14 ''Page Fault (#PF)'' TrapException
                 ''Page not present in RAM or protection violation (CR2 holds faulting address)''
                 (Some defaultExceptionHandler);
          tt = RegisterHandler tt 32 ''PIT Timer Interrupt (IRQ 0)'' TrapInterrupt
                 ''Periodic hardware timer for preemptive CPU scheduling'' (Some defaultInterruptHandler);
          tt = RegisterHandler tt 33 ''Keyboard Controller (IRQ 1)'' TrapInterrupt
                 ''Key press / release event'' (Some defaultInterruptHandler);
          tt = RegisterHandler tt 46 ''Disk Controller (IRQ 14)'' TrapInterrupt
                 ''Disk read/write DMA transfer completed'' (Some defaultInterruptHandler)
      in RegisterHandler tt 0x80 ''System Call Gate (INT 0x80)'' TrapSyscall
           ''User space requesting kernel service'' (Some defaultSyscallGateHandler))"

definition DispatchTrap ::
  "TrapTable \<Rightarrow> HardwareCPU \<Rightarrow> int \<Rightarrow> int \<Rightarrow> u64 list
     \<Rightarrow> TrapTable \<times> HardwareCPU \<times> (trap_error + TrapContext)" where
  "DispatchTrap tt cpu vector syscallNum args =
     (case tt_Descriptors tt vector of
        None \<Rightarrow> (tt, cpu, Inl (ErrUnhandledVector vector))
      | Some desc \<Rightarrow>
          let tt1 = tt\<lparr>tt_Descriptors := (tt_Descriptors tt)(vector \<mapsto> desc\<lparr>td_Count := td_Count desc + 1\<rparr>)\<rparr>;
              ctx = \<lparr>tc_Vector = vector, tc_Type = td_Type desc, tc_Name = td_Name desc,
                     tc_SavedPC = hw_ProgramCounter cpu, tc_SavedRSP = hw_UserRSP cpu, tc_SavedFlags = 0,
                     tc_ErrorCode = 0, tc_SyscallNum = syscallNum, tc_Args = args, tc_ReturnValue = 0\<rparr>;
              cpu1 = SwitchToKernelMode cpu vector;
              (cpu2, ctx2) = (case td_Handler desc of
                                None \<Rightarrow> (cpu1, ctx)
                              | Some h \<Rightarrow> (let (c, x, _, _) = h cpu1 ctx in (c, x)))
          in (tt1\<lparr>tt_History := tt_History tt1 @ [ctx2]\<rparr>, ReturnToUserMode cpu2, Inr ctx2))"

text \<open>
  The opcodes that the code names privileged. The CPU goes by the flag of an instruction and not by
  its opcode, so nothing in the code makes the two agree; \<open>flagged\<close> says of an instruction that its
  flag is set when its opcode is privileged.
\<close>

definition privileged_opcode :: "InstructionType \<Rightarrow> bool" where
  "privileged_opcode op \<longleftrightarrow>
     op \<in> {InstPrivilegedHalt, InstPrivilegedCLI, InstPrivilegedSTI, InstPrivilegedSetCR3, InstPrivilegedPortIO}"

definition flagged :: "CPUInstruction \<Rightarrow> bool" where
  "flagged inst \<longleftrightarrow> (privileged_opcode (inst_Opcode inst) \<longrightarrow> inst_IsPrivileged inst)"

text \<open>A program, and a program interrupted by traps.\<close>

datatype cpu_event = RunInst CPUInstruction | Trap int int "u64 list"

fun cpu_step :: "TrapTable \<times> HardwareCPU \<Rightarrow> cpu_event \<Rightarrow> TrapTable \<times> HardwareCPU" where
  "cpu_step (tt, cpu) (RunInst inst) = (tt, fst (ExecuteInstruction cpu inst))"
| "cpu_step (tt, cpu) (Trap v n args) = (let (tt', cpu', _) = DispatchTrap tt cpu v n args in (tt', cpu'))"

fun cpu_run :: "TrapTable \<times> HardwareCPU \<Rightarrow> cpu_event list \<Rightarrow> TrapTable \<times> HardwareCPU" where
  "cpu_run s [] = s"
| "cpu_run s (e # es) = cpu_run (cpu_step s e) es"

section \<open>Privilege\<close>

text \<open>What a service routine must leave alone: the page-directory register, the interrupt flag and
  the vector of its context.\<close>

definition isr_keeps :: "TrapHandlerFunc \<Rightarrow> bool" where
  "isr_keeps h \<longleftrightarrow> (\<forall>cpu ctx. let (cpu', ctx', _) = h cpu ctx in
     hw_CR3 cpu' = hw_CR3 cpu \<and> hw_InterruptsOn cpu' = hw_InterruptsOn cpu \<and> tc_Vector ctx' = tc_Vector ctx)"

definition table_keeps :: "TrapTable \<Rightarrow> bool" where
  "table_keeps tt \<longleftrightarrow> (\<forall>v d h. tt_Descriptors tt v = Some d \<longrightarrow> td_Handler d = Some h \<longrightarrow> isr_keeps h)"

lemma default_isr_keeps [simp]:
  "isr_keeps defaultExceptionHandler" "isr_keeps defaultInterruptHandler" "isr_keeps defaultSyscallGateHandler"
  by (simp_all add: isr_keeps_def defaultExceptionHandler_def defaultInterruptHandler_def
      defaultSyscallGateHandler_def)

lemma table_keeps_empty [simp]: "table_keeps \<lparr>tt_Descriptors = Map.empty, tt_History = []\<rparr>"
  by (simp add: table_keeps_def)

lemma table_keeps_Register [intro]:
  assumes "table_keeps tt" "\<And>h'. h = Some h' \<Longrightarrow> isr_keeps h'"
  shows "table_keeps (RegisterHandler tt v n ty d h)"
  using assms by (auto simp: table_keeps_def RegisterHandler_def)

lemma table_keeps_New: "table_keeps NewTrapTable"
  unfolding NewTrapTable_def Let_def by (intro table_keeps_Register table_keeps_empty) auto

lemma mode_switch_simps [simp]:
  "hw_CR3 (SwitchToKernelMode cpu v) = hw_CR3 cpu"
  "hw_InterruptsOn (SwitchToKernelMode cpu v) = hw_InterruptsOn cpu"
  "hw_ProgramCounter (SwitchToKernelMode cpu v) = hw_ProgramCounter cpu"
  "hw_UserRSP (SwitchToKernelMode cpu v) = hw_UserRSP cpu"
  "hw_CurrentMode (SwitchToKernelMode cpu v) = ModeKernel"
  "hw_CR3 (ReturnToUserMode cpu) = hw_CR3 cpu"
  "hw_InterruptsOn (ReturnToUserMode cpu) = hw_InterruptsOn cpu"
  "hw_ProgramCounter (ReturnToUserMode cpu) = hw_ProgramCounter cpu"
  "hw_UserRSP (ReturnToUserMode cpu) = hw_UserRSP cpu"
  "hw_CurrentMode (ReturnToUserMode cpu) = ModeUser"
  by (simp_all add: SwitchToKernelMode_def ReturnToUserMode_def)

text \<open>Entering and leaving the kernel from user mode leaves only the two log lines behind.\<close>

lemma enter_leave:
  "hw_CurrentMode cpu = ModeUser \<Longrightarrow> ReturnToUserMode (SwitchToKernelMode cpu v)
     = cpu\<lparr>hw_ExecutionLog := hw_ExecutionLog cpu @ [LineTrap v (hw_UserRSP cpu) (hw_KernelRSP cpu), LineReturn (hw_UserRSP cpu)]\<rparr>"
  by (simp add: SwitchToKernelMode_def ReturnToUserMode_def)

lemma ExecuteInstruction_user:
  assumes "hw_CurrentMode cpu = ModeUser" "inst_Opcode inst \<noteq> InstSyscall"
    and "ExecuteInstruction cpu inst = (cpu', err)"
  shows "hw_CurrentMode cpu' = ModeUser"
    "flagged inst \<Longrightarrow> hw_CR3 cpu' = hw_CR3 cpu \<and> hw_InterruptsOn cpu' = hw_InterruptsOn cpu"
    "err = (if inst_IsPrivileged inst then Some ErrPrivilegeViolation else None)"
    "hw_ProgramCounter cpu' = hw_ProgramCounter cpu + (if inst_IsPrivileged inst then 0 else 4)"
  using assms
  by (auto simp: ExecuteInstruction_def flagged_def privileged_opcode_def Let_def
      split: if_splits InstructionType.splits)

lemma DispatchTrap_None:
  "tt_Descriptors tt v = None \<Longrightarrow> DispatchTrap tt cpu v n args = (tt, cpu, Inl (ErrUnhandledVector v))"
  by (simp add: DispatchTrap_def)

lemma DispatchTrap_Some:
  assumes d: "tt_Descriptors tt v = Some d" and k: "table_keeps tt"
    and D: "DispatchTrap tt cpu v n args = (tt', cpu', r)"
  shows "hw_CurrentMode cpu' = ModeUser" "hw_CR3 cpu' = hw_CR3 cpu" "hw_InterruptsOn cpu' = hw_InterruptsOn cpu"
    "tt_Descriptors tt' = (tt_Descriptors tt)(v \<mapsto> d\<lparr>td_Count := td_Count d + 1\<rparr>)"
    "\<exists>ctx. r = Inr ctx \<and> tt_History tt' = tt_History tt @ [ctx] \<and> tc_Vector ctx = v"
proof -
  have "isr_keeps h" if "td_Handler d = Some h" for h
    using k d that by (auto simp: table_keeps_def)
  then have keep: "hw_CR3 (fst (h c x)) = hw_CR3 c \<and> hw_InterruptsOn (fst (h c x)) = hw_InterruptsOn c \<and>
      tc_Vector (fst (snd (h c x))) = tc_Vector x" if "td_Handler d = Some h" for h c x
    using that by (simp add: isr_keeps_def case_prod_beta)
  show "hw_CurrentMode cpu' = ModeUser"
    "tt_Descriptors tt' = (tt_Descriptors tt)(v \<mapsto> d\<lparr>td_Count := td_Count d + 1\<rparr>)"
    using d D by (auto simp: DispatchTrap_def Let_def split: prod.splits)
  show "hw_CR3 cpu' = hw_CR3 cpu" "hw_InterruptsOn cpu' = hw_InterruptsOn cpu"
    "\<exists>ctx. r = Inr ctx \<and> tt_History tt' = tt_History tt @ [ctx] \<and> tc_Vector ctx = v"
    using d D by (cases "td_Handler d"; auto simp: DispatchTrap_def Let_def case_prod_beta keep)+
qed

text \<open>The table counts the traps that its history holds.\<close>

definition traps_in :: "TrapTable \<Rightarrow> int \<Rightarrow> int" where
  "traps_in tt v = int (length (filter (\<lambda>c. tc_Vector c = v) (tt_History tt)))"

definition counts_match :: "TrapTable \<Rightarrow> bool" where
  "counts_match tt \<longleftrightarrow> 
     (\<forall>v. traps_in tt v = (case tt_Descriptors tt v of None \<Rightarrow> 0 | Some d \<Rightarrow> td_Count d))"

definition registered :: "TrapTable \<Rightarrow> int set" where
  "registered tt = dom (tt_Descriptors tt)"

lemma NewTrapTable_registered: "registered NewTrapTable = {0, 6, 13, 14, 32, 33, 46, 0x80}"
  by (auto simp: registered_def NewTrapTable_def RegisterHandler_def Let_def)

lemma counts_match_New: "counts_match NewTrapTable"
  by (simp add: counts_match_def NewTrapTable_def RegisterHandler_def Let_def traps_in_def)

definition trap_ok :: "TrapTable \<Rightarrow> bool" where
  "trap_ok tt \<longleftrightarrow> table_keeps tt \<and> counts_match tt"

lemma DispatchTrap_ok:
  assumes ok: "trap_ok tt" and D: "DispatchTrap tt cpu v n args = (tt', cpu', r)"
  shows "trap_ok tt' \<and> registered tt' = registered tt"
proof (cases "tt_Descriptors tt v")
  case None
  with D have "tt' = tt" by (simp add: DispatchTrap_None)
  with ok show ?thesis by simp
next
  case (Some d)
  from ok have k: "table_keeps tt" and c: "counts_match tt" by (simp_all add: trap_ok_def)
  note S = DispatchTrap_Some[OF Some k D]
  from S(5) obtain ctx where h: "tt_History tt' = tt_History tt @ [ctx]" "tc_Vector ctx = v" by blast
  have "traps_in tt' w = traps_in tt w + (if w = v then 1 else 0)" for w
    using h by (simp add: traps_in_def)
  then have "counts_match tt'" using c Some S(4) by (simp add: counts_match_def)
  moreover have "table_keeps tt'" using k Some S(4) by (auto simp: table_keeps_def split: if_splits)
  moreover have "registered tt' = registered tt" using Some S(4) by (auto simp: registered_def)
  ultimately show ?thesis by (simp add: trap_ok_def)
qed

text \<open>The events of a program that does not use the system-call instruction, and of one whose
  privileged instructions all carry the flag.\<close>

definition no_syscall :: "cpu_event \<Rightarrow> bool" where
  "no_syscall e \<longleftrightarrow> (case e of RunInst inst \<Rightarrow> inst_Opcode inst \<noteq> InstSyscall | Trap v n args \<Rightarrow> True)"

definition flags_set :: "cpu_event \<Rightarrow> bool" where
  "flags_set e \<longleftrightarrow> (case e of RunInst inst \<Rightarrow> flagged inst | Trap v n args \<Rightarrow> True)"

lemma cpu_step_user:
  assumes "no_syscall e" "hw_CurrentMode cpu = ModeUser" "trap_ok tt" "cpu_step (tt, cpu) e = (tt', cpu')"
  shows "hw_CurrentMode cpu' = ModeUser \<and> trap_ok tt' \<and> registered tt' = registered tt \<and>
     (flags_set e \<longrightarrow> hw_CR3 cpu' = hw_CR3 cpu \<and> hw_InterruptsOn cpu' = hw_InterruptsOn cpu)"
proof (cases e)
  case (RunInst inst)
  obtain r where "ExecuteInstruction cpu inst = (cpu', r)" "tt' = tt"
    using assms(4) RunInst by (cases "ExecuteInstruction cpu inst") auto
  with ExecuteInstruction_user[of cpu inst cpu' r] assms RunInst show ?thesis
    by (simp add: no_syscall_def flags_set_def)
next
  case (Trap v n args)
  obtain r where D: "DispatchTrap tt cpu v n args = (tt', cpu', r)"
    using assms(4) Trap by (auto simp: Let_def split: prod.splits)
  show ?thesis
  proof (cases "tt_Descriptors tt v")
    case None
    with D assms show ?thesis by (simp add: DispatchTrap_None)
  next
    case (Some d)
    with DispatchTrap_Some[OF Some _ D] DispatchTrap_ok[OF assms(3) D] assms(3) show ?thesis
      by (simp add: trap_ok_def)
  qed
qed

lemma cpu_run_user:
  assumes "\<forall>e\<in>set es. no_syscall e" "hw_CurrentMode cpu = ModeUser" "trap_ok tt" "cpu_run (tt, cpu) es = (tt', cpu')"
  shows "hw_CurrentMode cpu' = ModeUser \<and> trap_ok tt' \<and> registered tt' = registered tt \<and>
     ((\<forall>e\<in>set es. flags_set e) \<longrightarrow>
        hw_CR3 cpu' = hw_CR3 cpu \<and> hw_InterruptsOn cpu' = hw_InterruptsOn cpu)"
  using assms
proof (induction es arbitrary: tt cpu)
  case (Cons e es)
  obtain tt1 cpu1 where 1: "cpu_step (tt, cpu) e = (tt1, cpu1)" by fastforce
  show ?case using cpu_step_user[OF _ _ _ 1] Cons.IH[of cpu1 tt1] Cons.prems 1 by simp
qed simp



section \<open>Where privilege leaks\<close>

text \<open>A trap that arrives while the kernel runs also ends with the return to user mode, and an
  instruction with a privileged opcode whose flag is not set executes in user mode.\<close>

lemma trap_in_kernel_leaves_kernel:
  assumes "tt_Descriptors tt v \<noteq> None"
  shows "hw_CurrentMode (fst (snd (DispatchTrap tt cpu v n args))) = ModeUser"
  using assms by (auto simp: DispatchTrap_def Let_def case_prod_beta)

lemma unflagged_CLI_in_user_mode:
  "let (cpu, err) = ExecuteInstruction NewHardwareCPU
         \<lparr>inst_Opcode = InstPrivilegedCLI, inst_Description = ''CLI'', inst_IsPrivileged = False\<rparr>
   in err = None \<and> hw_CurrentMode cpu = ModeUser \<and> \<not> hw_InterruptsOn cpu"
  by (simp add: ExecuteInstruction_def NewHardwareCPU_def Let_def)

end
