(* ===== verification/TLB_Cache.thy ===== *)
theory TLB_Cache
  imports Go_Prelude Complex_Main
begin

text \<open>
  The translation lookaside buffer of \<open>pkg/memory/tlb.go\<close>. Its contract as a cache of
  translations is the locale \<open>translation_cache\<close>: a client that only inserts translations of one
  function never reads a wrong translation. \<open>int64\<close> counters are integers.
\<close>

section \<open>The buffer\<close>

record TLBEntry =
  e_VPN :: u64
  e_PFN :: u64
  e_ASID :: int
  e_Valid :: bool
  e_ReadWrite :: bool
  e_LastAccess :: int

record TLB =
  tlb_Capacity :: int
  tlb_Entries :: "TLBEntry list"
  tlb_Hits :: int
  tlb_Misses :: int
  tlb_AccessTick :: int

definition zero_TLBEntry :: TLBEntry where
  "zero_TLBEntry = \<lparr>e_VPN = 0, e_PFN = 0, e_ASID = 0, e_Valid = False, e_ReadWrite = False,
     e_LastAccess = 0\<rparr>"

definition NewTLB :: "int \<Rightarrow> TLB" where
  "NewTLB capacity =
     (let capacity = (if capacity \<le> 0 then 16 else capacity) in
      \<lparr>tlb_Capacity = capacity, tlb_Entries = replicate (nat capacity) zero_TLBEntry,
       tlb_Hits = 0, tlb_Misses = 0, tlb_AccessTick = 0\<rparr>)"

definition e_matches :: "int \<Rightarrow> u64 \<Rightarrow> TLBEntry \<Rightarrow> bool" where
  "e_matches pid vpn e \<longleftrightarrow> e_Valid e \<and> e_ASID e = pid \<and> e_VPN e = vpn"

text \<open>The index of the first matching entry, counted from \<open>i\<close>.\<close>

fun lookup_loop :: "int \<Rightarrow> u64 \<Rightarrow> TLBEntry list \<Rightarrow> nat \<Rightarrow> nat option" where
  "lookup_loop pid vpn [] i = None"
| "lookup_loop pid vpn (e # es) i =
     (if e_matches pid vpn e then Some i else lookup_loop pid vpn es (Suc i))"

definition TLB_Lookup :: "TLB \<Rightarrow> int \<Rightarrow> u64 \<Rightarrow> TLB \<times> u64 \<times> bool" where
  "TLB_Lookup tlb pid vpn =
     (let t = tlb\<lparr>tlb_AccessTick := tlb_AccessTick tlb + 1\<rparr> in
      case lookup_loop pid vpn (tlb_Entries t) 0 of
        Some i \<Rightarrow>
          let e = tlb_Entries t ! i in
          (t\<lparr>tlb_Entries := (tlb_Entries t)[i := e\<lparr>e_LastAccess := tlb_AccessTick t\<rparr>],
             tlb_Hits := tlb_Hits t + 1\<rparr>, e_PFN e, True)
      | None \<Rightarrow> (t\<lparr>tlb_Misses := tlb_Misses t + 1\<rparr>, 0, False))"

text \<open>
  The scan of \<open>Insert\<close> ends at the first empty slot, at the entry for the page, or after the last
  entry with the index of the least recently used one.
\<close>

datatype insert_slot = EmptySlot nat | ExistingSlot nat | LRUSlot nat

fun insert_loop :: "int \<Rightarrow> u64 \<Rightarrow> TLBEntry list \<Rightarrow> nat \<Rightarrow> nat \<Rightarrow> int \<Rightarrow> insert_slot" where
  "insert_loop pid vpn [] i lruIdx oldestAccess = LRUSlot lruIdx"
| "insert_loop pid vpn (e # es) i lruIdx oldestAccess =
     (if \<not> e_Valid e then EmptySlot i
      else if e_matches pid vpn e then ExistingSlot i
      else if e_LastAccess e < oldestAccess
      then insert_loop pid vpn es (Suc i) i (e_LastAccess e)
      else insert_loop pid vpn es (Suc i) lruIdx oldestAccess)"

definition new_entry :: "int \<Rightarrow> u64 \<Rightarrow> u64 \<Rightarrow> bool \<Rightarrow> int \<Rightarrow> TLBEntry" where
  "new_entry pid vpn pfn writable tick =
     \<lparr>e_VPN = vpn, e_PFN = pfn, e_ASID = pid, e_Valid = True, e_ReadWrite = writable,
      e_LastAccess = tick\<rparr>"

definition TLB_Insert :: "TLB \<Rightarrow> int \<Rightarrow> u64 \<Rightarrow> u64 \<Rightarrow> bool \<Rightarrow> TLB" where
  "TLB_Insert tlb pid vpn pfn writable =
     (let t = tlb\<lparr>tlb_AccessTick := tlb_AccessTick tlb + 1\<rparr>;
          put = (\<lambda>i e. t\<lparr>tlb_Entries := (tlb_Entries t)[i := e]\<rparr>);
          fresh = new_entry pid vpn pfn writable (tlb_AccessTick t)
      in case insert_loop pid vpn (tlb_Entries t) 0 0 (tlb_AccessTick t + 1) of
           EmptySlot i \<Rightarrow> put i fresh
         | ExistingSlot i \<Rightarrow>
             put i ((tlb_Entries t ! i)\<lparr>e_PFN := pfn, e_ReadWrite := writable,
                      e_LastAccess := tlb_AccessTick t\<rparr>)
         | LRUSlot i \<Rightarrow> put i fresh)"

definition TLB_Flush :: "TLB \<Rightarrow> TLB" where
  "TLB_Flush tlb = tlb\<lparr>tlb_Entries := map (\<lambda>e. e\<lparr>e_Valid := False\<rparr>) (tlb_Entries tlb)\<rparr>"

definition TLB_HitRate :: "TLB \<Rightarrow> real" where
  "TLB_HitRate tlb =
     (let total = tlb_Hits tlb + tlb_Misses tlb in
      if total = 0 then 0 else (real_of_int (tlb_Hits tlb) / real_of_int total) * 100)"

text \<open>
  What holds of every buffer: the valid entries come first, no two of them are for the same page,
  and no entry is from the future.
\<close>

definition tlb_entries_ok :: "TLBEntry list \<Rightarrow> bool" where
  "tlb_entries_ok es \<longleftrightarrow>
     (\<forall>i j. i < j \<longrightarrow> j < length es \<longrightarrow> e_Valid (es ! j) \<longrightarrow> e_Valid (es ! i)) \<and>
     (\<forall>i j. i < length es \<longrightarrow> j < length es \<longrightarrow> e_Valid (es ! i) \<longrightarrow>
        e_matches (e_ASID (es ! i)) (e_VPN (es ! i)) (es ! j) \<longrightarrow> i = j)"

definition tlb_inv :: "TLB \<Rightarrow> bool" where
  "tlb_inv t \<longleftrightarrow> 0 < tlb_Capacity t \<and> int (length (tlb_Entries t)) = tlb_Capacity t \<and>
     tlb_entries_ok (tlb_Entries t) \<and> (\<forall>e\<in>set (tlb_Entries t). e_LastAccess e \<le> tlb_AccessTick t)"

definition tlb_view :: "TLB \<Rightarrow> int \<times> u64 \<Rightarrow> u64 option" where
  "tlb_view t k = map_option (\<lambda>i. e_PFN (tlb_Entries t ! i))
     (lookup_loop (fst k) (snd k) (tlb_Entries t) 0)"

definition tlb_lookup_pfn :: "TLB \<Rightarrow> int \<times> u64 \<Rightarrow> TLB \<times> u64 option" where
  "tlb_lookup_pfn t k =
     (let (t', pfn, found) = TLB_Lookup t (fst k) (snd k) in (t', if found then Some pfn else None))"

section \<open>The contract of a translation cache\<close>

text \<open>
  \<open>view c k\<close> is the translation that the cache holds for the key \<open>k\<close>. Nothing is promised about
  how long an entry stays; what is promised is that the entries are never invented.
\<close>

datatype ('k, 'v, 'x) cache_op = OpLookup 'k | OpInsert 'k 'v 'x | OpFlush

text \<open>The buffer after one operation; each insertion says whether its page is writable.\<close>

fun tlb_step :: "TLB \<Rightarrow> (int \<times> u64, u64, bool) cache_op \<Rightarrow> TLB" where
  "tlb_step t (OpLookup k) = fst (TLB_Lookup t (fst k) (snd k))"
| "tlb_step t (OpInsert k pfn writable) = TLB_Insert t (fst k) (snd k) pfn writable"
| "tlb_step t OpFlush = TLB_Flush t"

locale translation_cache =
  fixes view :: "'c \<Rightarrow> 'k \<Rightarrow> 'v option"
    and lookup :: "'c \<Rightarrow> 'k \<Rightarrow> 'c \<times> 'v option"
    and insert :: "'c \<Rightarrow> 'k \<Rightarrow> 'v \<Rightarrow> 'x \<Rightarrow> 'c"
    and flush :: "'c \<Rightarrow> 'c"
    and inv :: "'c \<Rightarrow> bool"
  assumes lookup_result: "inv c \<Longrightarrow> snd (lookup c k) = view c k"
    and lookup_view: "inv c \<Longrightarrow> view (fst (lookup c k)) = view c"
    and lookup_inv: "inv c \<Longrightarrow> inv (fst (lookup c k))"
    and insert_same: "inv c \<Longrightarrow> view (insert c k v x) k = Some v"
    and insert_other: "inv c \<Longrightarrow> k' \<noteq> k \<Longrightarrow> view (insert c k v x) k' = Some v' \<Longrightarrow> view c k' = Some v'"
    and insert_inv: "inv c \<Longrightarrow> inv (insert c k v x)"
    and flush_view: "inv c \<Longrightarrow> view (flush c) k = None"
    and flush_inv: "inv c \<Longrightarrow> inv (flush c)"
begin

fun cache_step :: "'c \<Rightarrow> ('k, 'v, 'x) cache_op \<Rightarrow> 'c" where
  "cache_step c (OpLookup k) = fst (lookup c k)"
| "cache_step c (OpInsert k v x) = insert c k v x"
| "cache_step c OpFlush = flush c"

definition coherent :: "('k \<Rightarrow> 'v) \<Rightarrow> 'c \<Rightarrow> bool" where
  "coherent f c \<longleftrightarrow> (\<forall>k v. view c k = Some v \<longrightarrow> v = f k)"

lemma step_inv: "inv c \<Longrightarrow> inv (cache_step c op)"
  by (cases op) (simp_all add: lookup_inv insert_inv flush_inv)

lemma step_coherent:
  assumes "inv c" and "coherent f c" and "\<forall>k v x. op = OpInsert k v x \<longrightarrow> v = f k"
  shows "coherent f (cache_step c op)"
proof (cases op)
  case (OpInsert k v x)
  have "v' = f k'" if "view (insert c k v x) k' = Some v'" for k' v'
  proof (cases "k' = k")
    case True
    with that insert_same [OF assms(1), of k v x] OpInsert assms(3) show ?thesis by simp
  next
    case False
    from insert_other [OF assms(1) False that] assms(2) show ?thesis by (simp add: coherent_def)
  qed
  with OpInsert show ?thesis by (simp add: coherent_def)
qed (use assms in \<open>simp_all add: coherent_def lookup_view flush_view\<close>)

lemma run_coherent:
  assumes "inv c" and "coherent f c" and "\<forall>k v x. OpInsert k v x \<in> set ops \<longrightarrow> v = f k"
  shows "inv (foldl cache_step c ops) \<and> coherent f (foldl cache_step c ops)"
  using assms
proof (induction ops arbitrary: c)
  case (Cons op ops)
  have "\<forall>k v x. op = OpInsert k v x \<longrightarrow> v = f k" using Cons.prems(3) by auto
  note step = step_inv [OF Cons.prems(1), of op] step_coherent [OF Cons.prems(1,2) this]
  have "inv (foldl cache_step (cache_step c op) ops) \<and> coherent f (foldl cache_step (cache_step c op) ops)"
    by (rule Cons.IH [OF step]) (use Cons.prems(3) in auto)
  then show ?case by simp
qed simp

lemma run_hit:
  assumes "inv c" and "coherent f c" and "\<forall>k v x. OpInsert k v x \<in> set ops \<longrightarrow> v = f k"
    and "snd (lookup (foldl cache_step c ops) k) = Some v"
  shows "v = f k"
  using run_coherent [OF assms(1,2,3)] assms(4) by (simp add: lookup_result coherent_def)

end

section \<open>The buffer is a translation cache\<close>

lemma lookup_loop_Some:
  "lookup_loop p v es i = Some k \<Longrightarrow> i \<le> k \<and> k < i + length es \<and> e_matches p v (es ! (k - i))"
proof (induction es arbitrary: i)
  case (Cons e es)
  show ?case
  proof (cases "e_matches p v e")
    case False
    with Cons.prems Cons.IH [of "Suc i"] show ?thesis
      by (auto simp: nth_Cons' Suc_le_eq)
  qed (use Cons.prems in auto)
qed simp

lemma lookup_loop_None: "lookup_loop p v es i = None \<longleftrightarrow> (\<forall>e\<in>set es. \<not> e_matches p v e)"
  by (induction es arbitrary: i) auto

lemma lookup_loop_unique:
  assumes "tlb_entries_ok es"
  shows "lookup_loop p v es 0 = Some k \<longleftrightarrow> k < length es \<and> e_matches p v (es ! k)"
proof
  assume "k < length es \<and> e_matches p v (es ! k)"
  then have k: "k < length es" "e_matches p v (es ! k)" by auto
  then have "lookup_loop p v es 0 \<noteq> None" by (auto simp: lookup_loop_None)
  then obtain j where j: "lookup_loop p v es 0 = Some j" by auto
  from lookup_loop_Some [OF this] have "j < length es" "e_matches p v (es ! j)" by simp_all
  with k assms have "k = j" unfolding tlb_entries_ok_def e_matches_def by metis
  with j show "lookup_loop p v es 0 = Some k" by simp
qed (use lookup_loop_Some [of p v es 0 k] in auto)

lemma tlb_view_iff:
  assumes "tlb_inv t"
  shows "tlb_view t (p, v) = Some f \<longleftrightarrow>
     (\<exists>k < length (tlb_Entries t). e_matches p v (tlb_Entries t ! k) \<and> e_PFN (tlb_Entries t ! k) = f)"
  using assms by (auto simp: tlb_view_def tlb_inv_def lookup_loop_unique)

text \<open>Where the scan of \<open>Insert\<close> ends.\<close>

lemma insert_loop_spec:
  "case insert_loop p v es i l old of
     EmptySlot k \<Rightarrow> i \<le> k \<and> k < i + length es \<and> \<not> e_Valid (es ! (k - i)) \<and>
       (\<forall>j < k - i. \<not> e_matches p v (es ! j) \<and> e_Valid (es ! j))
   | ExistingSlot k \<Rightarrow> i \<le> k \<and> k < i + length es \<and> e_matches p v (es ! (k - i))
   | LRUSlot k \<Rightarrow> (\<forall>e\<in>set es. e_Valid e \<and> \<not> e_matches p v e) \<and>
       (k = l \<and> (\<forall>e\<in>set es. old \<le> e_LastAccess e) \<or>
        i \<le> k \<and> k < i + length es \<and> e_LastAccess (es ! (k - i)) < old \<and>
          (\<forall>e\<in>set es. e_LastAccess (es ! (k - i)) \<le> e_LastAccess e))"
proof (induction es arbitrary: i l old)
  case (Cons e es)
  show ?case
  proof (cases "e_Valid e \<and> \<not> e_matches p v e")
    case True
    define l' old' where "l' = (if e_LastAccess e < old then i else l)"
      and "old' = (if e_LastAccess e < old then e_LastAccess e else old)"
    have eq: "insert_loop p v (e # es) i l old = insert_loop p v es (Suc i) l' old'"
      using True by (simp add: l'_def old'_def)
    from Cons.IH [of "Suc i" l' old'] True show ?thesis
      unfolding eq
      by (cases "insert_loop p v es (Suc i) l' old'")
         (auto simp: nth_Cons' Suc_le_eq l'_def old'_def less_diff_conv split: if_splits)
  qed auto
qed simp

text \<open>\<open>Insert\<close> writes one entry, and its choice of the entry is the first of the three that applies.\<close>

lemma TLB_Insert_shape:
  assumes "tlb_inv t"
  obtains k e where "k < length (tlb_Entries t)"
    "TLB_Insert t p v f w = t\<lparr>tlb_AccessTick := tlb_AccessTick t + 1,
       tlb_Entries := (tlb_Entries t)[k := e]\<rparr>"
    "e_matches p v e" "e_PFN e = f" "e_LastAccess e = tlb_AccessTick t + 1"
    "\<And>j. j < length (tlb_Entries t) \<Longrightarrow> j \<noteq> k \<Longrightarrow> \<not> e_matches p v (tlb_Entries t ! j)"
    "\<And>j. j < k \<Longrightarrow> e_Valid (tlb_Entries t ! j)"
    "\<not> e_Valid (tlb_Entries t ! k) \<or> e_matches p v (tlb_Entries t ! k) \<or>
     (\<forall>x\<in>set (tlb_Entries t). e_Valid x \<and> e_LastAccess (tlb_Entries t ! k) \<le> e_LastAccess x)"
proof -
  let ?es = "tlb_Entries t" and ?tick = "tlb_AccessTick t + 1"
  have ok: "tlb_entries_ok ?es" and ne: "?es \<noteq> []"
    and old: "\<And>x. x \<in> set ?es \<Longrightarrow> e_LastAccess x < ?tick + 1"
    using assms by (force simp: tlb_inv_def)+
  note spec = insert_loop_spec [where p = p and v = v and es = ?es and i = 0 and l = 0 and old = "?tick + 1"]
  show thesis
  proof (cases "insert_loop p v ?es 0 0 (?tick + 1)")
    case (EmptySlot k)
    with spec have k: "k < length ?es" "\<not> e_Valid (?es ! k)"
      "\<And>j. j < k \<Longrightarrow> \<not> e_matches p v (?es ! j) \<and> e_Valid (?es ! j)" by auto
    have "\<not> e_matches p v (?es ! j)" if "j < length ?es" "j \<noteq> k" for j
      using k that ok unfolding tlb_entries_ok_def e_matches_def by (metis linorder_neqE_nat)
    with k EmptySlot show thesis
      by (intro that [of k "new_entry p v f w ?tick"])
         (auto simp: TLB_Insert_def Let_def new_entry_def e_matches_def)
  next
    case (ExistingSlot k)
    with spec have k: "k < length ?es" "e_matches p v (?es ! k)" by auto
    have "\<not> e_matches p v (?es ! j)" if "j < length ?es" "j \<noteq> k" for j
      using k that ok unfolding tlb_entries_ok_def e_matches_def by metis
    moreover have "e_Valid (?es ! j)" if "j < k" for j
      using k that ok unfolding tlb_entries_ok_def e_matches_def by blast
    ultimately show thesis
      using k ExistingSlot
      by (intro that [of k "(?es ! k)\<lparr>e_PFN := f, e_ReadWrite := w, e_LastAccess := ?tick\<rparr>"])
         (auto simp: TLB_Insert_def Let_def e_matches_def)
  next
    case (LRUSlot k)
    have "\<not> (\<forall>e\<in>set ?es. ?tick + 1 \<le> e_LastAccess e)" using ne old by (cases ?es) force+
    with LRUSlot spec have k: "k < length ?es" "\<forall>e\<in>set ?es. e_Valid e \<and> \<not> e_matches p v e"
      "\<forall>e\<in>set ?es. e_LastAccess (?es ! k) \<le> e_LastAccess e" by auto
    with LRUSlot show thesis
      by (intro that [of k "new_entry p v f w ?tick"])
         (auto simp: TLB_Insert_def Let_def new_entry_def e_matches_def)
  qed
qed

lemma entries_ok_update:
  assumes "tlb_entries_ok es" and "k < length es" and "e_matches p v e"
    and "\<And>j. j < length es \<Longrightarrow> j \<noteq> k \<Longrightarrow> \<not> e_matches p v (es ! j)"
    and "\<And>j. j < k \<Longrightarrow> e_Valid (es ! j)"
  shows "tlb_entries_ok (es[k := e])"
  using assms unfolding tlb_entries_ok_def e_matches_def
  by (simp add: nth_list_update) (metis linorder_neqE_nat)

lemma TLB_Insert_inv:
  assumes "tlb_inv t"
  shows "tlb_inv (TLB_Insert t p v f w)"
proof (rule TLB_Insert_shape [OF assms, where p = p and v = v and f = f and w = w])
  fix k e
  assume k: "k < length (tlb_Entries t)"
      "TLB_Insert t p v f w = t\<lparr>tlb_AccessTick := tlb_AccessTick t + 1,
         tlb_Entries := (tlb_Entries t)[k := e]\<rparr>" "e_matches p v e"
      "e_LastAccess e = tlb_AccessTick t + 1"
      "\<And>j. j < length (tlb_Entries t) \<Longrightarrow> j \<noteq> k \<Longrightarrow> \<not> e_matches p v (tlb_Entries t ! j)"
      "\<And>j. j < k \<Longrightarrow> e_Valid (tlb_Entries t ! j)"
  have "tlb_entries_ok ((tlb_Entries t)[k := e])"
    using assms k by (intro entries_ok_update) (auto simp: tlb_inv_def)
  moreover have "\<forall>x\<in>set ((tlb_Entries t)[k := e]). e_LastAccess x \<le> tlb_AccessTick t + 1"
    using assms k(4) set_update_subset_insert [of "tlb_Entries t" k e] by (force simp: tlb_inv_def)
  ultimately show ?thesis using assms k(2) by (simp add: tlb_inv_def)
qed

lemma TLB_Insert_view:
  assumes "tlb_inv t"
  shows "tlb_view (TLB_Insert t p v f w) (p, v) = Some f"
    and "(p', v') \<noteq> (p, v) \<Longrightarrow> tlb_view (TLB_Insert t p v f w) (p', v') = Some f' \<Longrightarrow>
       tlb_view t (p', v') = Some f'"
proof -
  obtain k e where
    k: "k < length (tlb_Entries t)"
      "tlb_Entries (TLB_Insert t p v f w) = (tlb_Entries t)[k := e]" "e_matches p v e" "e_PFN e = f"
    by (rule TLB_Insert_shape [OF assms, where p = p and v = v and f = f and w = w]) auto
  note view = tlb_view_iff [OF TLB_Insert_inv [OF assms]] tlb_view_iff [OF assms]
  show "tlb_view (TLB_Insert t p v f w) (p, v) = Some f"
    using k by (auto simp: view)
  assume "(p', v') \<noteq> (p, v)"
  then have ne: "\<not> e_matches p' v' e" using k(3) by (auto simp: e_matches_def)
  assume "tlb_view (TLB_Insert t p v f w) (p', v') = Some f'"
  then obtain j where "j < length (tlb_Entries t)" "e_matches p' v' ((tlb_Entries t)[k := e] ! j)"
    "e_PFN ((tlb_Entries t)[k := e] ! j) = f'" by (auto simp: view k(2))
  with ne show "tlb_view t (p', v') = Some f'"
    by (cases "j = k") (auto simp: view)
qed

text \<open>\<open>Lookup\<close> only changes the access time of the entry that it finds.\<close>

lemma lookup_loop_touch:
  assumes "lookup_loop p' v' es i = r"
  shows "lookup_loop p' v' (es[k := (es ! k)\<lparr>e_LastAccess := x\<rparr>]) i = r"
  using assms
proof (induction es arbitrary: i k)
  case (Cons e es)
  then show ?case by (cases k) (auto simp: e_matches_def)
qed simp

lemma touch_nth:
  assumes "j < length es"
  shows "e_Valid (es[k := (es ! k)\<lparr>e_LastAccess := x\<rparr>] ! j) = e_Valid (es ! j)"
    "e_ASID (es[k := (es ! k)\<lparr>e_LastAccess := x\<rparr>] ! j) = e_ASID (es ! j)"
    "e_VPN (es[k := (es ! k)\<lparr>e_LastAccess := x\<rparr>] ! j) = e_VPN (es ! j)"
    "e_PFN (es[k := (es ! k)\<lparr>e_LastAccess := x\<rparr>] ! j) = e_PFN (es ! j)"
  using assms by (cases "k = j"; simp)+

lemma entries_ok_touch:
  assumes "tlb_entries_ok es"
  shows "tlb_entries_ok (es[k := (es ! k)\<lparr>e_LastAccess := x\<rparr>])"
  using assms unfolding tlb_entries_ok_def e_matches_def length_list_update
  by (simp add: touch_nth)

lemma TLB_Lookup_inv:
  assumes "tlb_inv t"
  shows "tlb_inv (fst (TLB_Lookup t p v))"
proof (cases "lookup_loop p v (tlb_Entries t) 0")
  case None
  with assms show ?thesis by (force simp: TLB_Lookup_def Let_def tlb_inv_def)
next
  case (Some k)
  let ?es = "(tlb_Entries t)[k := (tlb_Entries t ! k)\<lparr>e_LastAccess := tlb_AccessTick t + 1\<rparr>]"
  have "\<forall>x\<in>set ?es. e_LastAccess x \<le> tlb_AccessTick t + 1"
    using assms set_update_subset_insert [of "tlb_Entries t" k] by (force simp: tlb_inv_def)
  with assms Some show ?thesis
    by (simp add: TLB_Lookup_def Let_def tlb_inv_def entries_ok_touch)
qed

lemma TLB_Lookup_view: "tlb_view (fst (TLB_Lookup t p v)) k = tlb_view t k"
proof (cases "lookup_loop p v (tlb_Entries t) 0")
  case None
  then show ?thesis by (simp add: TLB_Lookup_def Let_def tlb_view_def)
next
  case (Some i)
  have "j < length (tlb_Entries t)" if "lookup_loop (fst k) (snd k) (tlb_Entries t) 0 = Some j" for j
    using lookup_loop_Some [OF that] by simp
  with Some show ?thesis
    by (auto simp: TLB_Lookup_def Let_def tlb_view_def lookup_loop_touch [OF refl] touch_nth
        intro!: option.map_cong)
qed

interpretation tlb: translation_cache tlb_view tlb_lookup_pfn
  "\<lambda>t k f w. TLB_Insert t (fst k) (snd k) f w" TLB_Flush tlb_inv
proof (unfold_locales, goal_cases)
  case (1 c k)
  then show ?case
    by (auto simp: tlb_lookup_pfn_def TLB_Lookup_def Let_def tlb_view_def split: option.split)
next
  case (2 c k)
  show ?case by (rule ext) (simp add: tlb_lookup_pfn_def TLB_Lookup_view split_beta)
next
  case (3 c k)
  then show ?case by (simp add: tlb_lookup_pfn_def split_beta TLB_Lookup_inv)
next
  case (4 c k v w)
  then show ?case using TLB_Insert_view(1) [of c "fst k" "snd k"] by simp
next
  case (5 c k' k v w v')
  then show ?case
    using TLB_Insert_view(2) [of c "fst k'" "snd k'" "fst k" "snd k" v w v'] by simp
next
  case (6 c k v w)
  then show ?case by (rule TLB_Insert_inv)
next
  case (7 c k)
  have "lookup_loop (fst k) (snd k) (tlb_Entries (TLB_Flush c)) 0 = None"
    by (auto simp: lookup_loop_None TLB_Flush_def e_matches_def)
  then show ?case by (simp add: tlb_view_def)
next
  case (8 c)
  then show ?case by (auto simp: tlb_inv_def TLB_Flush_def tlb_entries_ok_def e_matches_def)
qed

section \<open>Properties\<close>

lemma NewTLB_inv: "tlb_inv (NewTLB capacity)"
  by (auto simp: tlb_inv_def NewTLB_def Let_def tlb_entries_ok_def zero_TLBEntry_def)

lemma tlb_step_eq: "tlb_step = tlb.cache_step"
proof (intro ext)
  show "tlb_step t op = tlb.cache_step t op" for t op
    by (cases op) (simp_all add: tlb_lookup_pfn_def split_beta)
qed

text \<open>
  C24: the buffer never serves a wrong translation. Whatever sequence of lookups, insertions of read-only and of writable pages, and
  flushes is applied to a new buffer, as long as the inserted frames are those of a function \<open>f\<close>
  of the address space and the page, a hit returns the frame that \<open>f\<close> gives.
\<close>

theorem TLB_hits_are_right:
  assumes "\<forall>k pfn writable. OpInsert k pfn writable \<in> set ops \<longrightarrow> pfn = f k"
    and "TLB_Lookup (foldl tlb_step (NewTLB capacity) ops) pid vpn = (t, pfn, True)"
  shows "pfn = f (pid, vpn)"
proof -
  have "tlb.coherent f (NewTLB capacity)"
    by (auto simp: tlb.coherent_def tlb_view_def lookup_loop_None NewTLB_def Let_def e_matches_def
        zero_TLBEntry_def dest: lookup_loop_Some)
  with tlb.run_hit [OF NewTLB_inv this, of ops "(pid, vpn)" pfn] assms show ?thesis
    by (simp add: tlb_lookup_pfn_def tlb_step_eq)
qed

theorem TLB_hits_are_right_witness:
  "snd (TLB_Lookup (foldl tlb_step (NewTLB 2)
      [OpInsert (1, 5) 50 True, OpInsert (2, 5) 50 False, OpInsert (1, 6) 60 True, OpLookup (2, 5)]) 1 6) = (60, True)"
proof -
  let ?ops = "[OpInsert (1, 5) 50 True, OpInsert (2, 5) 50 False, OpInsert (1, 6) 60 True, OpLookup (2, 5)]"
  let ?t = "foldl tlb_step (NewTLB 2) ?ops"
  obtain t pfn found where l: "TLB_Lookup ?t 1 6 = (t, pfn, found)" by (metis prod_cases3)
  have "snd (snd (TLB_Lookup ?t 1 6))" by code_simp
  with l TLB_hits_are_right [of ?ops "\<lambda>k. 10 * snd k" 2 1 6 t pfn] show ?thesis by simp
qed

text \<open>
  when the buffer is full and does not have the page, \<open>Insert\<close> replaces one entry, and it is
  one that was used least recently.
\<close>

theorem TLB_Insert_evicts_LRU:
  assumes "tlb_inv t" and "\<forall>e\<in>set (tlb_Entries t). e_Valid e \<and> \<not> e_matches pid vpn e"
  shows "\<exists>k e. k < length (tlb_Entries t) \<and>
     tlb_Entries (TLB_Insert t pid vpn pfn w) = (tlb_Entries t)[k := e] \<and>
     e_matches pid vpn e \<and> e_PFN e = pfn \<and>
     (\<forall>x\<in>set (tlb_Entries t). e_LastAccess (tlb_Entries t ! k) \<le> e_LastAccess x)"
proof (rule TLB_Insert_shape [OF assms(1), where p = pid and v = vpn and f = pfn and w = w])
  fix k e
  assume "k < length (tlb_Entries t)"
    "TLB_Insert t pid vpn pfn w = t\<lparr>tlb_AccessTick := tlb_AccessTick t + 1,
       tlb_Entries := (tlb_Entries t)[k := e]\<rparr>"
    "e_matches pid vpn e" "e_PFN e = pfn"
    "\<not> e_Valid (tlb_Entries t ! k) \<or> e_matches pid vpn (tlb_Entries t ! k) \<or>
     (\<forall>x\<in>set (tlb_Entries t). e_Valid x \<and> e_LastAccess (tlb_Entries t ! k) \<le> e_LastAccess x)"
  with assms(2) show ?thesis by (intro exI [of _ k] exI [of _ e]) auto
qed

definition TLB_example :: TLB where
  "TLB_example = fst (TLB_Lookup (TLB_Insert (TLB_Insert (NewTLB 2) 1 5 50 True) 1 6 60 True) 1 5)"

lemma TLB_example_inv: "tlb_inv TLB_example"
  unfolding TLB_example_def by (intro TLB_Lookup_inv TLB_Insert_inv NewTLB_inv)

theorem TLB_Insert_evicts_LRU_witness:
  "\<exists>k e. k < length (tlb_Entries TLB_example) \<and>
     tlb_Entries (TLB_Insert TLB_example 2 7 70 False) = (tlb_Entries TLB_example)[k := e] \<and>
     e_matches 2 7 e \<and> e_PFN e = 70 \<and>
     (\<forall>x\<in>set (tlb_Entries TLB_example). e_LastAccess (tlb_Entries TLB_example ! k) \<le> e_LastAccess x)"
proof -
  have "\<forall>e\<in>set (tlb_Entries TLB_example). e_Valid e \<and> \<not> e_matches 2 7 e" by code_simp
  then show ?thesis by (rule TLB_Insert_evicts_LRU [OF TLB_example_inv])
qed

end
