(* ===== verification/Page_Replacement.thy ===== *)
theory Page_Replacement
  imports Paging TLB_Cache
begin

text \<open>
  The memory manager of \<open>pkg/memory/page_replacement.go\<close>: physical frames, page faults and the
  FIFO, LRU and clock replacement policies. The lines of \<open>History\<close> are values with the data that
  the code prints. The loop of the clock policy has no bound in the code; that it ends is the
  termination proof of \<open>clock_scan\<close>.
\<close>

section \<open>Frames and the manager\<close>

datatype ReplacementPolicy = PolicyFIFO | PolicyLRU | PolicyClock | PolicyOther string

record FrameInfo =
  f_PFN :: u64
  f_PID :: int
  f_VPN :: u64
  f_IsOccupied :: bool
  f_LoadedTick :: int
  f_LastUsedTick :: int
  f_UseBit :: bool
  f_IsDirty :: bool

record fault_event =
  fe_Tick :: int
  fe_VPN :: u64
  fe_PFN :: u64
  fe_Evicted :: "(u64 \<times> ReplacementPolicy) option"

record MemoryManager =
  mm_NumFrames :: int
  mm_Frames :: "FrameInfo list"
  mm_ClockHand :: int
  mm_CurrentTick :: int
  mm_Policy :: ReplacementPolicy
  mm_PageFaults :: int
  mm_PageEvictions :: int
  mm_SwapWrites :: int
  mm_SwapReads :: int
  mm_TLB :: TLB
  mm_History :: "fault_event list"

definition free_FrameInfo :: "u64 \<Rightarrow> FrameInfo" where
  "free_FrameInfo pfn = \<lparr>f_PFN = pfn, f_PID = 0, f_VPN = 0, f_IsOccupied = False, f_LoadedTick = 0,
     f_LastUsedTick = 0, f_UseBit = False, f_IsDirty = False\<rparr>"

definition NewMemoryManager :: "int \<Rightarrow> ReplacementPolicy \<Rightarrow> int \<Rightarrow> MemoryManager" where
  "NewMemoryManager numFrames policy tlbCapacity =
     (let numFrames = (if numFrames \<le> 0 then 4 else numFrames) in
      \<lparr>mm_NumFrames = numFrames,
       mm_Frames = map (\<lambda>i. free_FrameInfo (of_nat i)) [0..<nat numFrames],
       mm_ClockHand = 0, mm_CurrentTick = 0, mm_Policy = policy, mm_PageFaults = 0,
       mm_PageEvictions = 0, mm_SwapWrites = 0, mm_SwapReads = 0, mm_TLB = NewTLB tlbCapacity,
       mm_History = []\<rparr>)"

section \<open>Choosing a frame\<close>

fun free_frame :: "FrameInfo list \<Rightarrow> nat \<Rightarrow> nat option" where
  "free_frame [] i = None"
| "free_frame (f # fs) i = (if \<not> f_IsOccupied f then Some i else free_frame fs (Suc i))"

text \<open>The loop that both FIFO and LRU run over the frames from 1, on their own key.\<close>

fun oldest_loop :: "(FrameInfo \<Rightarrow> int) \<Rightarrow> FrameInfo list \<Rightarrow> nat list \<Rightarrow> int \<Rightarrow> nat \<Rightarrow> nat option" where
  "oldest_loop key fs [] oldest victimIdx = Some victimIdx"
| "oldest_loop key fs (i # is) oldest victimIdx =
     (case go_index fs (int i) of
        None \<Rightarrow> None
      | Some f \<Rightarrow>
          if key f < oldest then oldest_loop key fs is (key f) i
          else oldest_loop key fs is oldest victimIdx)"

definition oldest_frame :: "(FrameInfo \<Rightarrow> int) \<Rightarrow> int \<Rightarrow> FrameInfo list \<Rightarrow> nat option" where
  "oldest_frame key n fs =
     (case go_index fs 0 of
        None \<Rightarrow> None
      | Some f \<Rightarrow> oldest_loop key fs [1..<nat n] (key f) 0)"

lemma count_cleared:
  "i < length fs \<Longrightarrow> f_UseBit (fs ! i) \<Longrightarrow>
     length (filter f_UseBit (fs[i := (fs ! i)\<lparr>f_UseBit := False\<rparr>])) < length (filter f_UseBit fs)"
proof (induction fs arbitrary: i)
  case (Cons f fs)
  then show ?case by (cases i) auto
qed simp

text \<open>
  The clock: the frames with their use bits cleared, the victim and the next position of the hand.
  Each round that does not end clears a use bit.
\<close>

function clock_scan ::
  "int \<Rightarrow> FrameInfo list \<Rightarrow> int \<Rightarrow> (FrameInfo list \<times> nat \<times> int) option" where
  "clock_scan n fs hand =
     (case go_index fs hand of
        None \<Rightarrow> None
      | Some f \<Rightarrow>
          if n = 0 then None
          else if \<not> f_UseBit f then Some (fs, nat hand, (hand + 1) mod n)
          else clock_scan n (fs[nat hand := f\<lparr>f_UseBit := False\<rparr>]) ((hand + 1) mod n))"
  by pat_completeness auto

termination
  by (relation "measure (\<lambda>(n, fs, hand). length (filter f_UseBit fs))")
     (auto simp: go_index_Some intro: count_cleared)

declare clock_scan.simps [simp del]

definition loaded_frame :: "nat \<Rightarrow> int \<Rightarrow> u64 \<Rightarrow> int \<Rightarrow> FrameInfo" where
  "loaded_frame i pid vpn tick = \<lparr>f_PFN = of_nat i, f_PID = pid, f_VPN = vpn, f_IsOccupied = True,
     f_LoadedTick = tick, f_LastUsedTick = tick, f_UseBit = True, f_IsDirty = False\<rparr>"

text \<open>The frames, the hand and the victim that the policy of the manager chooses.\<close>

definition choose_victim :: "MemoryManager \<Rightarrow> (FrameInfo list \<times> nat \<times> int) option" where
  "choose_victim mm =
     (case mm_Policy mm of
        PolicyFIFO \<Rightarrow>
          map_option (\<lambda>v. (mm_Frames mm, v, mm_ClockHand mm))
            (oldest_frame f_LoadedTick (mm_NumFrames mm) (mm_Frames mm))
      | PolicyLRU \<Rightarrow>
          map_option (\<lambda>v. (mm_Frames mm, v, mm_ClockHand mm))
            (oldest_frame f_LastUsedTick (mm_NumFrames mm) (mm_Frames mm))
      | PolicyClock \<Rightarrow> clock_scan (mm_NumFrames mm) (mm_Frames mm) (mm_ClockHand mm)
      | PolicyOther _ \<Rightarrow> Some (mm_Frames mm, 0, mm_ClockHand mm))"

definition allocateFrame ::
  "MemoryManager \<Rightarrow> int \<Rightarrow> u64 \<Rightarrow> (MemoryManager \<times> u64 \<times> u64 \<times> bool) option" where
  "allocateFrame mm pid vpn =
     (case free_frame (mm_Frames mm) 0 of
        Some i \<Rightarrow>
          Some (mm\<lparr>mm_Frames := (mm_Frames mm)[i := loaded_frame i pid vpn (mm_CurrentTick mm)]\<rparr>,
                of_nat i, 0, False)
      | None \<Rightarrow>
          let mm1 = mm\<lparr>mm_PageEvictions := mm_PageEvictions mm + 1\<rparr> in
          case choose_victim mm1 of
            None \<Rightarrow> None
          | Some (fs, v, hand) \<Rightarrow>
              case go_index fs (int v) of
                None \<Rightarrow> None
              | Some victim \<Rightarrow>
                  Some (mm1\<lparr>mm_Frames := fs[v := loaded_frame v pid vpn (mm_CurrentTick mm1)],
                            mm_ClockHand := hand,
                            mm_SwapWrites := mm_SwapWrites mm1 + (if f_IsDirty victim then 1 else 0)\<rparr>,
                        of_nat v, f_VPN victim, True))"

section \<open>Memory accesses\<close>

text \<open>The update of a frame's access data, with the index panic.\<close>

definition touch_frame :: "MemoryManager \<Rightarrow> u64 \<Rightarrow> bool \<Rightarrow> MemoryManager option" where
  "touch_frame mm pfn isWrite =
     (case go_index (mm_Frames mm) (uint pfn) of
        None \<Rightarrow> None
      | Some f \<Rightarrow>
          let f1 = f\<lparr>f_LastUsedTick := mm_CurrentTick mm, f_UseBit := True\<rparr>;
              f2 = (if isWrite then f1\<lparr>f_IsDirty := True\<rparr> else f1)
          in Some (mm\<lparr>mm_Frames := (mm_Frames mm)[unat pfn := f2]\<rparr>))"

text \<open>The page fault handler: a frame is allocated and the entry \<open>i\<close> points to it.\<close>

definition fault_in :: "MemoryManager \<Rightarrow> PageTable \<Rightarrow> nat \<Rightarrow> u64 \<Rightarrow> (MemoryManager \<times> PageTable) option" where
  "fault_in mm pt i vpn =
     (let mm1 = mm\<lparr>mm_PageFaults := mm_PageFaults mm + 1, mm_SwapReads := mm_SwapReads mm + 1\<rparr> in
      case allocateFrame mm1 (pt_PID pt) vpn of
        None \<Rightarrow> None
      | Some (mm2, pfn, evictedVPN, wasEvicted) \<Rightarrow>
          let event = \<lparr>fe_Tick = mm_CurrentTick mm2, fe_VPN = vpn, fe_PFN = pfn,
                       fe_Evicted = (if wasEvicted then Some (evictedVPN, mm_Policy mm2) else None)\<rparr>;
              pte = (pt_Entries pt ! i)\<lparr>pte_Present := True, pte_PFN := pfn, pte_Accessed := True\<rparr>
          in Some (mm2\<lparr>mm_History := mm_History mm2 @ [event]\<rparr>,
                   pt\<lparr>pt_Entries := (pt_Entries pt)[i := pte]\<rparr>))"

text \<open>The end of an access: the translation is cached, the frame and the entry are marked.\<close>

definition finish_access ::
  "MemoryManager \<Rightarrow> PageTable \<Rightarrow> nat \<Rightarrow> u64 \<Rightarrow> u64 \<Rightarrow> bool
     \<Rightarrow> (MemoryManager \<times> PageTable \<times> (mem_error + u64)) option" where
  "finish_access mm pt i vpn offset isWrite =
     (let pte = pt_Entries pt ! i;
          mm1 = mm\<lparr>mm_TLB := TLB_Insert (mm_TLB mm) (pt_PID pt) vpn (pte_PFN pte) (pte_ReadWrite pte)\<rparr>
      in case touch_frame mm1 (pte_PFN pte) isWrite of
           None \<Rightarrow> None
         | Some mm2 \<Rightarrow>
             Some (mm2, if isWrite then pt\<lparr>pt_Entries := (pt_Entries pt)[i := pte\<lparr>pte_Dirty := True\<rparr>]\<rparr> else pt,
                   Inr (pte_PFN pte * pt_PageSize pt + offset)))"

definition AccessMemory ::
  "MemoryManager \<Rightarrow> PageTable \<Rightarrow> u64 \<Rightarrow> bool
     \<Rightarrow> (MemoryManager \<times> PageTable \<times> (mem_error + u64)) option" where
  "AccessMemory mm pt vAddr isWrite =
     (if pt_PageSize pt = 0 then None else
      let mm0 = mm\<lparr>mm_CurrentTick := mm_CurrentTick mm + 1\<rparr>;
          vpn = vAddr div pt_PageSize pt;
          offset = vAddr mod pt_PageSize pt;
          (tlb, pfn, hit) = TLB_Lookup (mm_TLB mm0) (pt_PID pt) vpn;
          mm1 = mm0\<lparr>mm_TLB := tlb\<rparr>
      in if hit then
           map_option (\<lambda>mm2. (mm2, pt, Inr (pfn * pt_PageSize pt + offset))) (touch_frame mm1 pfn isWrite)
         else if int (length (pt_Entries pt)) \<le> int_of_u64 vpn then Some (mm1, pt, Inl ErrInvalidPage)
         else
           case go_index (pt_Entries pt) (uint vpn) of
             None \<Rightarrow> None
           | Some pte \<Rightarrow>
               if \<not> pte_Valid pte then Some (mm1, pt, Inl ErrInvalidPage)
               else if pte_Present pte then finish_access mm1 pt (unat vpn) vpn offset isWrite
               else
                 case fault_in mm1 pt (unat vpn) vpn of
                   None \<Rightarrow> None
                 | Some (mm2, pt2) \<Rightarrow> finish_access mm2 pt2 (unat vpn) vpn offset isWrite)"

text \<open>A run of reads: the results in order.\<close>

fun access_all ::
  "MemoryManager \<Rightarrow> PageTable \<Rightarrow> u64 list
     \<Rightarrow> (MemoryManager \<times> PageTable \<times> (mem_error + u64) list) option" where
  "access_all mm pt [] = Some (mm, pt, [])"
| "access_all mm pt (v # vs) =
     (case AccessMemory mm pt v False of
        None \<Rightarrow> None
      | Some (mm1, pt1, r) \<Rightarrow>
          (case access_all mm1 pt1 vs of
             None \<Rightarrow> None
           | Some (mm2, pt2, rs) \<Rightarrow> Some (mm2, pt2, r # rs)))"

text \<open>What holds of a manager, and of a page table that is used with it.\<close>

definition mm_ok :: "MemoryManager \<Rightarrow> bool" where
  "mm_ok mm \<longleftrightarrow> mm_Frames mm \<noteq> [] \<and> mm_NumFrames mm = int (length (mm_Frames mm)) \<and>
     length (mm_Frames mm) < 2 ^ 64 \<and> 0 \<le> mm_ClockHand mm \<and> mm_ClockHand mm < mm_NumFrames mm \<and>
     (\<forall>i < length (mm_Frames mm). unat (f_PFN (mm_Frames mm ! i)) = i) \<and>
     tlb_inv (mm_TLB mm) \<and>
     (\<forall>k pfn. tlb_view (mm_TLB mm) k = Some pfn \<longrightarrow> unat pfn < length (mm_Frames mm))"

definition pt_ok :: "MemoryManager \<Rightarrow> PageTable \<Rightarrow> bool" where
  "pt_ok mm pt \<longleftrightarrow> pt_PageSize pt \<noteq> 0 \<and> length (pt_Entries pt) < 2 ^ 63 \<and>
     (\<forall>e\<in>set (pt_Entries pt). pte_Valid e \<and> pte_Present e \<longrightarrow>
        unat (pte_PFN e) < length (mm_Frames mm))"

text \<open>The frame that a policy has to evict.\<close>

definition victim_ok :: "MemoryManager \<Rightarrow> nat \<Rightarrow> bool" where
  "victim_ok mm v \<longleftrightarrow>
     (case mm_Policy mm of
        PolicyFIFO \<Rightarrow> \<forall>f\<in>set (mm_Frames mm). f_LoadedTick (mm_Frames mm ! v) \<le> f_LoadedTick f
      | PolicyLRU \<Rightarrow> \<forall>f\<in>set (mm_Frames mm). f_LastUsedTick (mm_Frames mm ! v) \<le> f_LastUsedTick f
      | PolicyClock \<Rightarrow>
          \<exists>k \<le> length (mm_Frames mm). v = (nat (mm_ClockHand mm) + k) mod length (mm_Frames mm) \<and>
            (\<forall>j < k. f_UseBit (mm_Frames mm ! ((nat (mm_ClockHand mm) + j) mod length (mm_Frames mm)))) \<and>
            (k < length (mm_Frames mm) \<longrightarrow> \<not> f_UseBit (mm_Frames mm ! v))
      | PolicyOther _ \<Rightarrow> v = 0)"

section \<open>The policies\<close>

lemma oldest_loop_spec:
  assumes "\<forall>i\<in>set is. i < length fs" and "sorted_wrt (<) is" and "v < length fs"
    and "old = key (fs ! v)" and "\<forall>i\<in>set is. v < i"
  shows "\<exists>w. oldest_loop key fs is old v = Some w \<and> (w = v \<or> w \<in> set is) \<and>
     (\<forall>i \<in> insert v (set is). key (fs ! w) \<le> key (fs ! i) \<and> (i < w \<longrightarrow> key (fs ! w) < key (fs ! i)))"
  using assms
proof (induction "is" arbitrary: old v)
  case (Cons i "is")
  have i: "go_index fs (int i) = Some (fs ! i)" using Cons.prems(1) by (simp add: go_index_def)
  show ?case
  proof (cases "key (fs ! i) < old")
    case True
    have "\<exists>w. oldest_loop key fs is (key (fs ! i)) i = Some w \<and> (w = i \<or> w \<in> set is) \<and>
        (\<forall>j \<in> insert i (set is). key (fs ! w) \<le> key (fs ! j) \<and> (j < w \<longrightarrow> key (fs ! w) < key (fs ! j)))"
      using Cons.prems by (intro Cons.IH) auto
    then obtain w where w: "oldest_loop key fs is (key (fs ! i)) i = Some w" "w = i \<or> w \<in> set is"
      "\<forall>j \<in> insert i (set is). key (fs ! w) \<le> key (fs ! j) \<and> (j < w \<longrightarrow> key (fs ! w) < key (fs ! j))"
      by blast
    then have "key (fs ! w) < key (fs ! v)" using True Cons.prems(4) by force
    with w i True show ?thesis by (intro exI [of _ w]) auto
  next
    case False
    have "\<exists>w. oldest_loop key fs is old v = Some w \<and> (w = v \<or> w \<in> set is) \<and>
        (\<forall>j \<in> insert v (set is). key (fs ! w) \<le> key (fs ! j) \<and> (j < w \<longrightarrow> key (fs ! w) < key (fs ! j)))"
      using Cons.prems by (intro Cons.IH) auto
    then obtain w where w: "oldest_loop key fs is old v = Some w" "w = v \<or> w \<in> set is"
      "\<forall>j \<in> insert v (set is). key (fs ! w) \<le> key (fs ! j) \<and> (j < w \<longrightarrow> key (fs ! w) < key (fs ! j))"
      by blast
    have "key (fs ! w) \<le> key (fs ! i) \<and> (i < w \<longrightarrow> key (fs ! w) < key (fs ! i))"
    proof (cases "w = v")
      case True
      with False Cons.prems(4,5) show ?thesis by force
    next
      case ne: False
      then have "v < w" using w(2) Cons.prems(5) by auto
      then have "key (fs ! w) < key (fs ! v)" using w(3) by blast
      with False Cons.prems(4) show ?thesis by simp
    qed
    with w i False show ?thesis by (intro exI [of _ w]) auto
  qed
qed simp

lemma oldest_frame_spec:
  assumes "fs \<noteq> []"
  shows "\<exists>v < length fs. oldest_frame key (int (length fs)) fs = Some v \<and>
     (\<forall>i < length fs. key (fs ! v) \<le> key (fs ! i) \<and> (i < v \<longrightarrow> key (fs ! v) < key (fs ! i)))"
proof -
  have set: "insert 0 (set [1..<length fs]) = {..<length fs}" using assms by auto
  have "\<exists>w. oldest_loop key fs [1..<length fs] (key (fs ! 0)) 0 = Some w \<and>
      (w = 0 \<or> w \<in> set [1..<length fs]) \<and>
      (\<forall>i \<in> insert 0 (set [1..<length fs]). key (fs ! w) \<le> key (fs ! i) \<and>
         (i < w \<longrightarrow> key (fs ! w) < key (fs ! i)))"
    using assms by (intro oldest_loop_spec) auto
  then obtain w where "oldest_loop key fs [1..<length fs] (key (fs ! 0)) 0 = Some w" "w < length fs"
      "\<forall>i < length fs. key (fs ! w) \<le> key (fs ! i) \<and> (i < w \<longrightarrow> key (fs ! w) < key (fs ! i))"
    unfolding set using assms by auto
  with assms show ?thesis by (intro exI [of _ w]) (simp add: oldest_frame_def go_index_def)
qed

text \<open>
  The clock stops at the first frame from the hand on whose use bit is clear, and at the hand
  itself after one round if there is none; it clears the use bits that it passes.
\<close>

lemma clock_scan_spec:
  assumes "a < length fs"
  shows "\<exists>k \<le> length fs. \<exists>fs'. clock_scan (int (length fs)) fs (int a) =
       Some (fs', (a + k) mod length fs, (int ((a + k) mod length fs) + 1) mod int (length fs)) \<and>
     (\<forall>j < k. f_UseBit (fs ! ((a + j) mod length fs))) \<and>
     (k < length fs \<longrightarrow> \<not> f_UseBit (fs ! ((a + k) mod length fs))) \<and>
     length fs' = length fs \<and>
     (\<forall>i < length fs. fs' ! i = (if \<exists>j < k. i = (a + j) mod length fs
        then (fs ! i)\<lparr>f_UseBit := False\<rparr> else fs ! i))"
  using assms
proof (induction "length (filter f_UseBit fs)" arbitrary: fs a rule: less_induct)
  case less
  let ?n = "length fs" and ?f = "fs ! a"
  have g: "go_index fs (int a) = Some ?f" using less.prems by (simp add: go_index_def)
  show ?case
  proof (cases "f_UseBit ?f")
    case False
    with g less.prems show ?thesis
      by (intro exI [of _ 0] conjI exI [of _ fs]) (auto simp: clock_scan.simps)
  next
    case True
    let ?fs = "fs[a := ?f\<lparr>f_UseBit := False\<rparr>]" and ?a = "Suc a mod ?n"
    have n: "0 < ?n" using less.prems by linarith
    have step: "clock_scan (int ?n) fs (int a) = clock_scan (int ?n) ?fs (int ?a)"
      using True g n by (subst clock_scan.simps) (simp add: zmod_int add.commute)
    have shift: "(?a + j) mod ?n = (a + Suc j) mod ?n" for j by (simp add: mod_add_left_eq)
    have "\<exists>k \<le> ?n. \<exists>fs'. clock_scan (int ?n) ?fs (int ?a) =
         Some (fs', (?a + k) mod ?n, (int ((?a + k) mod ?n) + 1) mod int ?n) \<and>
       (\<forall>j < k. f_UseBit (?fs ! ((?a + j) mod ?n))) \<and>
       (k < ?n \<longrightarrow> \<not> f_UseBit (?fs ! ((?a + k) mod ?n))) \<and> length fs' = ?n \<and>
       (\<forall>i < ?n. fs' ! i = (if \<exists>j < k. i = (?a + j) mod ?n
          then (?fs ! i)\<lparr>f_UseBit := False\<rparr> else ?fs ! i))"
      using less.hyps [OF count_cleared [OF less.prems True], of ?a] n by simp
    then obtain k fs' where k: "k \<le> ?n"
      and c: "clock_scan (int ?n) ?fs (int ?a) =
         Some (fs', (?a + k) mod ?n, (int ((?a + k) mod ?n) + 1) mod int ?n)"
      and used: "\<forall>j < k. f_UseBit (?fs ! ((?a + j) mod ?n))"
      and stop: "k < ?n \<longrightarrow> \<not> f_UseBit (?fs ! ((?a + k) mod ?n))"
      and len: "length fs' = ?n"
      and fs': "\<forall>i < ?n. fs' ! i = (if \<exists>j < k. i = (?a + j) mod ?n
          then (?fs ! i)\<lparr>f_UseBit := False\<rparr> else ?fs ! i)" by blast
    have "(?a + (?n - 1)) mod ?n = (a + Suc (?n - 1)) mod ?n" by (rule shift)
    also have "\<dots> = a" using n less.prems by simp
    finally have last: "(?a + (?n - 1)) mod ?n = a" .
    have "\<not> f_UseBit (?fs ! a)" using less.prems by simp
    with used last have "\<not> ?n - 1 < k" by metis
    then have kn: "Suc k \<le> ?n" using n by linarith
    have other: "(a + Suc j) mod ?n \<noteq> a" if "Suc j < ?n" for j
      using less.prems that by (cases "a + Suc j < ?n") (auto simp: le_mod_geq)
    have used': "f_UseBit (fs ! ((a + j) mod ?n))" if "j < Suc k" for j
    proof (cases j)
      case 0
      with True less.prems show ?thesis by simp
    next
      case (Suc j')
      then have "f_UseBit (?fs ! ((a + j) mod ?n))" "(a + j) mod ?n \<noteq> a"
        using that used [rule_format, of j'] kn other [of j'] by (simp_all add: shift)
      then show ?thesis by (metis nth_list_update_neq)
    qed
    have stop': "\<not> f_UseBit (fs ! ((a + Suc k) mod ?n))" if "Suc k < ?n"
      using stop that other [OF that] unfolding shift by (metis Suc_lessD nth_list_update_neq)
    have split: "(\<exists>j < Suc k. i = (a + j) mod ?n) \<longleftrightarrow> i = a \<or> (\<exists>j < k. i = (?a + j) mod ?n)" for i
      using less.prems by (simp add: Ex_less_Suc2 shift)
    have notin: "\<not> (\<exists>j < k. a = (?a + j) mod ?n)"
    proof (intro notI, elim exE conjE)
      fix j assume "j < k" "a = (?a + j) mod ?n"
      then have "(a + Suc j) mod ?n = a" "Suc j < ?n" using shift [of j] kn by simp_all
      with other show False by blast
    qed
    have "fs' ! i = (if \<exists>j < Suc k. i = (a + j) mod ?n then (fs ! i)\<lparr>f_UseBit := False\<rparr> else fs ! i)"
      if "i < ?n" for i
      unfolding split using fs' that notin less.prems by (cases "i = a") auto
    with kn c len used' stop' show ?thesis
      unfolding step shift by (intro exI [of _ "Suc k"] conjI exI [of _ fs']) auto
  qed
qed

lemma choose_victim_ok:
  assumes "mm_ok mm"
  shows "\<exists>fs v hand. choose_victim mm = Some (fs, v, hand) \<and> v < length (mm_Frames mm) \<and>
     length fs = length (mm_Frames mm) \<and> 0 \<le> hand \<and> hand < mm_NumFrames mm \<and>
     (\<forall>i < length fs. fs ! i = mm_Frames mm ! i \<or> fs ! i = (mm_Frames mm ! i)\<lparr>f_UseBit := False\<rparr>)"
proof -
  let ?fs = "mm_Frames mm"
  have n: "mm_NumFrames mm = int (length ?fs)" "?fs \<noteq> []" using assms by (auto simp: mm_ok_def)
  have hand: "0 \<le> mm_ClockHand mm" "mm_ClockHand mm < int (length ?fs)"
    using assms by (auto simp: mm_ok_def)
  show ?thesis
  proof (cases "mm_Policy mm")
    case PolicyClock
    have a: "nat (mm_ClockHand mm) < length ?fs" using hand by linarith
    have h: "int (nat (mm_ClockHand mm)) = mm_ClockHand mm" using hand by simp
    from clock_scan_spec [OF a, unfolded h] obtain k fs where
      c: "clock_scan (int (length ?fs)) ?fs (mm_ClockHand mm) = Some (fs,
         (nat (mm_ClockHand mm) + k) mod length ?fs,
         (int ((nat (mm_ClockHand mm) + k) mod length ?fs) + 1) mod int (length ?fs))"
      "length fs = length ?fs"
      "\<forall>i < length ?fs. fs ! i = (if \<exists>j < k. i = (nat (mm_ClockHand mm) + j) mod length ?fs
        then (?fs ! i)\<lparr>f_UseBit := False\<rparr> else ?fs ! i)"
      by blast
    from c(3) have "\<forall>i < length ?fs. fs ! i = ?fs ! i \<or> fs ! i = (?fs ! i)\<lparr>f_UseBit := False\<rparr>"
      by meson
    with c PolicyClock n show ?thesis by (simp add: choose_victim_def)
  qed (use n hand oldest_frame_spec [OF n(2), of f_LoadedTick] oldest_frame_spec [OF n(2), of f_LastUsedTick]
        in \<open>auto simp: choose_victim_def\<close>)
qed

lemma free_frame_Some: "free_frame fs i = Some k \<Longrightarrow> i \<le> k \<and> k < i + length fs \<and> \<not> f_IsOccupied (fs ! (k - i))"
proof (induction fs arbitrary: i)
  case (Cons f fs)
  show ?case
  proof (cases "f_IsOccupied f")
    case True
    with Cons.prems Cons.IH [of "Suc i"] show ?thesis by (auto simp: nth_Cons' Suc_le_eq)
  qed (use Cons.prems in auto)
qed simp

lemma free_frame_None: "free_frame fs i = None \<longleftrightarrow> (\<forall>f\<in>set fs. f_IsOccupied f)"
  by (induction fs arbitrary: i) auto

lemma mm_ok_load:
  assumes "mm_ok mm" and "length fs = length (mm_Frames mm)" and "v < length fs"
    and "\<forall>i < length fs. f_PFN (fs ! i) = f_PFN (mm_Frames mm ! i)"
    and "mm_Frames mm' = fs[v := loaded_frame v pid vpn tick]" and "mm_NumFrames mm' = mm_NumFrames mm"
    and "mm_TLB mm' = mm_TLB mm" and "0 \<le> mm_ClockHand mm'" and "mm_ClockHand mm' < mm_NumFrames mm"
  shows "mm_ok mm'"
proof -
  have "unat (of_nat v :: u64) = v"
    using assms(1,2,3) by (intro unat_of_nat_u64) (simp add: mm_ok_def)
  then have "unat (f_PFN (fs[v := loaded_frame v pid vpn tick] ! i)) = i" if "i < length fs" for i
    using assms(1,2,4) that by (cases "i = v") (auto simp: mm_ok_def loaded_frame_def)
  with assms show ?thesis unfolding mm_ok_def by auto
qed

lemma allocateFrame_ok:
  assumes "mm_ok mm"
  shows "\<exists>mm' pfn ev b. allocateFrame mm pid vpn = Some (mm', pfn, ev, b) \<and> mm_ok mm' \<and>
     unat pfn < length (mm_Frames mm') \<and> length (mm_Frames mm') = length (mm_Frames mm) \<and>
     mm_TLB mm' = mm_TLB mm"
proof (cases "free_frame (mm_Frames mm) 0")
  case (Some i)
  then have i: "i < length (mm_Frames mm)" using free_frame_Some by fastforce
  let ?mm = "mm\<lparr>mm_Frames := (mm_Frames mm)[i := loaded_frame i pid vpn (mm_CurrentTick mm)]\<rparr>"
  have "mm_ok ?mm" by (rule mm_ok_load [OF assms _ i]) (use assms in \<open>auto simp: mm_ok_def\<close>)
  moreover have "unat (of_nat i :: u64) = i"
    using assms i by (intro unat_of_nat_u64) (simp add: mm_ok_def)
  ultimately show ?thesis using Some i by (auto simp: allocateFrame_def)
next
  case None
  let ?mm1 = "mm\<lparr>mm_PageEvictions := mm_PageEvictions mm + 1\<rparr>"
  have ok1: "mm_ok ?mm1" using assms by (simp add: mm_ok_def)
  from choose_victim_ok [OF this] obtain fs v hand where
    c: "choose_victim ?mm1 = Some (fs, v, hand)" "v < length (mm_Frames mm)"
      "length fs = length (mm_Frames mm)" "0 \<le> hand" "hand < mm_NumFrames mm"
      "\<forall>i < length fs. fs ! i = mm_Frames mm ! i \<or> fs ! i = (mm_Frames mm ! i)\<lparr>f_UseBit := False\<rparr>"
    by auto
  let ?mm = "?mm1\<lparr>mm_Frames := fs[v := loaded_frame v pid vpn (mm_CurrentTick mm)], mm_ClockHand := hand,
     mm_SwapWrites := mm_SwapWrites mm + (if f_IsDirty (fs ! v) then 1 else 0)\<rparr>"
  have pfn: "\<forall>i < length fs. f_PFN (fs ! i) = f_PFN (mm_Frames mm ! i)" using c(6) by auto
  have "mm_ok ?mm" using c pfn by (intro mm_ok_load [OF assms, of fs v]) auto
  moreover have "unat (of_nat v :: u64) = v"
    using assms c(2) by (intro unat_of_nat_u64) (simp add: mm_ok_def)
  moreover have "allocateFrame mm pid vpn = Some (?mm, of_nat v, f_VPN (fs ! v), True)"
    using None c by (simp add: allocateFrame_def Let_def go_index_def)
  ultimately show ?thesis using c by auto
qed

section \<open>Accesses are safe\<close>

lemma touch_frame_ok:
  assumes "mm_ok mm" and "unat pfn < length (mm_Frames mm)"
  shows "\<exists>mm'. touch_frame mm pfn isWrite = Some mm' \<and> mm_ok mm' \<and>
     length (mm_Frames mm') = length (mm_Frames mm) \<and> mm_TLB mm' = mm_TLB mm"
proof -
  let ?f = "mm_Frames mm ! unat pfn"
  define g where "g = (if isWrite
    then ?f\<lparr>f_LastUsedTick := mm_CurrentTick mm, f_UseBit := True, f_IsDirty := True\<rparr>
    else ?f\<lparr>f_LastUsedTick := mm_CurrentTick mm, f_UseBit := True\<rparr>)"
  have "f_PFN g = f_PFN ?f" by (simp add: g_def)
  then have "unat (f_PFN ((mm_Frames mm)[unat pfn := g] ! i)) = i" if "i < length (mm_Frames mm)" for i
    using assms that by (cases "i = unat pfn") (auto simp: mm_ok_def)
  then have "mm_ok (mm\<lparr>mm_Frames := (mm_Frames mm)[unat pfn := g]\<rparr>)"
    using assms(1) by (simp add: mm_ok_def)
  moreover have "touch_frame mm pfn isWrite = Some (mm\<lparr>mm_Frames := (mm_Frames mm)[unat pfn := g]\<rparr>)"
    using assms(2) by (simp add: touch_frame_def go_index_def Let_def g_def)
  ultimately show ?thesis by simp
qed

lemma pt_ok_update:
  assumes "pt_ok mm pt" and "pte_Valid e \<and> pte_Present e \<longrightarrow> unat (pte_PFN e) < length (mm_Frames mm)"
    and "length (mm_Frames mm') = length (mm_Frames mm)"
  shows "pt_ok mm' (pt\<lparr>pt_Entries := (pt_Entries pt)[i := e]\<rparr>)"
  using assms set_update_subset_insert [of "pt_Entries pt" i e] by (auto simp: pt_ok_def)

lemma finish_access_ok:
  assumes "mm_ok mm" and "pt_ok mm pt" and "i < length (pt_Entries pt)"
    and "pte_Valid (pt_Entries pt ! i)" and "pte_Present (pt_Entries pt ! i)"
  shows "\<exists>mm' pt'. finish_access mm pt i vpn offset isWrite =
       Some (mm', pt', Inr (pte_PFN (pt_Entries pt ! i) * pt_PageSize pt + offset)) \<and>
     mm_ok mm' \<and> pt_ok mm' pt' \<and> length (mm_Frames mm') = length (mm_Frames mm)"
proof -
  let ?e = "pt_Entries pt ! i"
  let ?mm = "mm\<lparr>mm_TLB := TLB_Insert (mm_TLB mm) (pt_PID pt) vpn (pte_PFN ?e) (pte_ReadWrite ?e)\<rparr>"
  have pfn: "unat (pte_PFN ?e) < length (mm_Frames mm)" using assms by (auto simp: pt_ok_def)
  have inv: "tlb_inv (mm_TLB mm)" using assms(1) by (simp add: mm_ok_def)
  have "unat p < length (mm_Frames mm)" if "tlb_view (mm_TLB ?mm) k = Some p" for k p
  proof (cases "k = (pt_PID pt, vpn)")
    case True
    with that TLB_Insert_view(1) [OF inv] pfn show ?thesis by simp
  next
    case False
    with TLB_Insert_view(2) [OF inv, of "fst k" "snd k" "pt_PID pt" vpn "pte_PFN ?e" "pte_ReadWrite ?e" p]
      that assms(1) show ?thesis by (cases k) (auto simp: mm_ok_def)
  qed
  then have ok: "mm_ok ?mm" using assms(1) TLB_Insert_inv [OF inv] unfolding mm_ok_def by simp
  from touch_frame_ok [OF this, of "pte_PFN ?e" isWrite] pfn obtain mm' where
    mm': "touch_frame ?mm (pte_PFN ?e) isWrite = Some mm'" "mm_ok mm'"
      "length (mm_Frames mm') = length (mm_Frames mm)" by auto
  have "pt_ok mm' pt" "pt_ok mm' (pt\<lparr>pt_Entries := (pt_Entries pt)[i := ?e\<lparr>pte_Dirty := True\<rparr>]\<rparr>)"
    using assms(2) mm'(3) pfn by (auto simp: pt_ok_def dest!: set_update_subset_insert [THEN subsetD])
  with mm' show ?thesis by (simp add: finish_access_def Let_def)
qed

lemma fault_in_ok:
  assumes "mm_ok mm" and "pt_ok mm pt" and "i < length (pt_Entries pt)"
  shows "\<exists>mm' pt'. fault_in mm pt i vpn = Some (mm', pt') \<and> mm_ok mm' \<and> pt_ok mm' pt' \<and>
     length (mm_Frames mm') = length (mm_Frames mm) \<and> pt_PageSize pt' = pt_PageSize pt \<and>
     length (pt_Entries pt') = length (pt_Entries pt) \<and>
     pte_Valid (pt_Entries pt' ! i) = pte_Valid (pt_Entries pt ! i) \<and> pte_Present (pt_Entries pt' ! i)"
proof -
  let ?mm = "mm\<lparr>mm_PageFaults := mm_PageFaults mm + 1, mm_SwapReads := mm_SwapReads mm + 1\<rparr>"
  have "mm_ok ?mm" using assms(1) by (simp add: mm_ok_def)
  from allocateFrame_ok [OF this, of "pt_PID pt" vpn] obtain mm2 pfn ev b where
    a: "allocateFrame ?mm (pt_PID pt) vpn = Some (mm2, pfn, ev, b)" "mm_ok mm2"
      "unat pfn < length (mm_Frames mm2)" "length (mm_Frames mm2) = length (mm_Frames mm)" by auto
  have ok: "mm_ok (mm2\<lparr>mm_History := h\<rparr>)" for h using a(2) by (simp add: mm_ok_def)
  have "pt_ok (mm2\<lparr>mm_History := h\<rparr>)
      (pt\<lparr>pt_Entries := (pt_Entries pt)[i := (pt_Entries pt ! i)\<lparr>pte_Present := True, pte_PFN := pfn,
        pte_Accessed := True\<rparr>]\<rparr>)" for h
    by (rule pt_ok_update [OF assms(2)]) (use a in auto)
  with a ok assms(3) show ?thesis by (simp add: fault_in_def Let_def)
qed

text \<open>
  The address of an access that succeeds: the offset of the virtual address inside one of the
  frames of the memory.
\<close>

definition in_frames :: "MemoryManager \<Rightarrow> PageTable \<Rightarrow> u64 \<Rightarrow> u64 \<Rightarrow> bool" where
  "in_frames mm pt vAddr a \<longleftrightarrow>
     (\<exists>pfn. unat pfn < length (mm_Frames mm) \<and> a = pfn * pt_PageSize pt + vAddr mod pt_PageSize pt)"

lemma pte_in_frames:
  assumes "pt_ok mm pt" and "i < length (pt_Entries pt)" and "pte_Valid (pt_Entries pt ! i)"
    and "pte_Present (pt_Entries pt ! i)" and "length (mm_Frames mm0) = length (mm_Frames mm)"
    and "pt_PageSize pt0 = pt_PageSize pt"
  shows "in_frames mm0 pt0 vAddr
    (pte_PFN (pt_Entries pt ! i) * pt_PageSize pt + vAddr mod pt_PageSize pt0)"
  using assms unfolding in_frames_def pt_ok_def by (metis nth_mem)

lemma serve_ok:
  assumes "mm_ok mm" and "pt_ok mm pt" and "i < length (pt_Entries pt)" and "pte_Valid (pt_Entries pt ! i)"
  shows "\<exists>mm' pt' a. (if pte_Present (pt_Entries pt ! i)
        then finish_access mm pt i vpn (vAddr mod pt_PageSize pt) isWrite
        else case fault_in mm pt i vpn of None \<Rightarrow> None
           | Some (mm2, pt2) \<Rightarrow> finish_access mm2 pt2 i vpn (vAddr mod pt_PageSize pt) isWrite) =
       Some (mm', pt', Inr a) \<and> mm_ok mm' \<and> pt_ok mm' pt' \<and>
     length (mm_Frames mm') = length (mm_Frames mm) \<and> in_frames mm pt vAddr a"
proof (cases "pte_Present (pt_Entries pt ! i)")
  case True
  from finish_access_ok [OF assms True, of vpn "vAddr mod pt_PageSize pt" isWrite]
    pte_in_frames [OF assms(2-4) True refl refl, of vAddr] True show ?thesis by auto
next
  case False
  from fault_in_ok [OF assms(1-3), of vpn] assms(3,4) obtain mm2 pt2 where
    f: "fault_in mm pt i vpn = Some (mm2, pt2)" "mm_ok mm2" "pt_ok mm2 pt2"
      "i < length (pt_Entries pt2)" "pte_Valid (pt_Entries pt2 ! i)" "pte_Present (pt_Entries pt2 ! i)"
      "length (mm_Frames mm2) = length (mm_Frames mm)" "pt_PageSize pt2 = pt_PageSize pt" by auto
  note a = pte_in_frames [OF f(3-6) f(7,8) [symmetric], of vAddr]
  from finish_access_ok [OF f(2-6), of vpn "vAddr mod pt_PageSize pt" isWrite] a f(1,7) False
  show ?thesis by auto
qed

text \<open>
  C33: a memory access whose page number is below 2 ^ 63 never panics, whatever the policy and
  however full the memory is. It keeps the number of frames, the invariant of the frames and the
  buffer and the agreement of the page table with them. The only error it reports is the invalid
  page, for a page that is not mapped, and the address it returns otherwise is the offset of the
  virtual address in one of the frames of the memory.
\<close>

theorem AccessMemory_safe:
  assumes "mm_ok mm" and "pt_ok mm pt" and "unat (vAddr div pt_PageSize pt) < 2 ^ 63"
  shows "\<exists>mm' pt' r. AccessMemory mm pt vAddr isWrite = Some (mm', pt', r) \<and> mm_ok mm' \<and>
     pt_ok mm' pt' \<and> length (mm_Frames mm') = length (mm_Frames mm) \<and>
     (\<forall>a. r = Inr a \<longrightarrow> in_frames mm pt vAddr a) \<and>
     (\<forall>e. r = Inl e \<longrightarrow> e = ErrInvalidPage \<and>
        (length (pt_Entries pt) \<le> unat (vAddr div pt_PageSize pt) \<or>
         \<not> pte_Valid (pt_Entries pt ! unat (vAddr div pt_PageSize pt))))"
proof -
  let ?vpn = "vAddr div pt_PageSize pt" and ?off = "vAddr mod pt_PageSize pt"
  obtain tlb pfn hit where l: "TLB_Lookup (mm_TLB mm) (pt_PID pt) ?vpn = (tlb, pfn, hit)"
    by (metis prod_cases3)
  let ?mm1 = "mm\<lparr>mm_CurrentTick := mm_CurrentTick mm + 1, mm_TLB := tlb\<rparr>"
  have inv: "tlb_inv (mm_TLB mm)" using assms(1) by (simp add: mm_ok_def)
  have view: "tlb_view tlb = tlb_view (mm_TLB mm)" "tlb_inv tlb"
    using TLB_Lookup_view [of "mm_TLB mm" "pt_PID pt" ?vpn] TLB_Lookup_inv [OF inv, of "pt_PID pt" ?vpn] l
    by auto
  have ok: "mm_ok ?mm1" "pt_ok ?mm1 pt" and ps: "pt_PageSize pt \<noteq> 0"
    using assms(1,2) view by (auto simp: mm_ok_def pt_ok_def)
  have ix: "int_of_u64 ?vpn = int (unat ?vpn)" using assms(3) by (rule int_of_u64_small)
  show ?thesis
  proof (cases hit)
    case True
    then have "tlb_view (mm_TLB mm) (pt_PID pt, ?vpn) = Some pfn"
      using tlb.lookup_result [OF inv, of "(pt_PID pt, ?vpn)"] l by (simp add: tlb_lookup_pfn_def)
    then have "unat pfn < length (mm_Frames ?mm1)" using assms(1) by (auto simp: mm_ok_def)
    moreover from this have in_frame: "in_frames mm pt vAddr (pfn * pt_PageSize pt + ?off)"
      by (auto simp: in_frames_def)
    ultimately show ?thesis using touch_frame_ok [OF ok(1), of pfn isWrite] True l ps assms(2)
      by (auto simp: AccessMemory_def Let_def pt_ok_def)
  next
    case False
    show ?thesis
    proof (cases "unat ?vpn < length (pt_Entries pt) \<and> pte_Valid (pt_Entries pt ! unat ?vpn)")
      case True
      with False l ps ix have "AccessMemory mm pt vAddr isWrite =
          (if pte_Present (pt_Entries pt ! unat ?vpn)
           then finish_access ?mm1 pt (unat ?vpn) ?vpn ?off isWrite
           else case fault_in ?mm1 pt (unat ?vpn) ?vpn of None \<Rightarrow> None
              | Some (mm2, pt2) \<Rightarrow> finish_access mm2 pt2 (unat ?vpn) ?vpn ?off isWrite)"
        by (simp add: AccessMemory_def Let_def go_index_def)
      with serve_ok [OF ok, of "unat ?vpn" ?vpn vAddr isWrite] True show ?thesis
        by (auto simp: in_frames_def)
    next
      case invalid: False
      then have "AccessMemory mm pt vAddr isWrite = Some (?mm1, pt, Inl ErrInvalidPage)"
        using False l ps ix by (auto simp: AccessMemory_def Let_def go_index_def)
      with ok invalid show ?thesis by auto
    qed
  qed
qed

lemma NewMemoryManager_ok:
  assumes "n < 2 ^ 64"
  shows "mm_ok (NewMemoryManager n policy c)"
proof -
  have "tlb_view (NewTLB c) k = None" for k
    by (auto simp: tlb_view_def lookup_loop_None NewTLB_def Let_def e_matches_def zero_TLBEntry_def)
  with assms show ?thesis
    by (auto simp: mm_ok_def NewMemoryManager_def Let_def free_FrameInfo_def unat_of_nat_u64 NewTLB_inv)
qed

text \<open>A table of mapped pages that are all on disk, as the demonstrations of the program set it up.\<close>

definition swapped_table :: "nat \<Rightarrow> PageTable" where
  "swapped_table n = \<lparr>pt_PID = 1, pt_PageSize = 4096,
     pt_Entries = replicate n ((mapped_PTE 0 True)\<lparr>pte_Present := False\<rparr>), pt_NumPages = int n\<rparr>"

lemma swapped_table_ok: "n < 2 ^ 63 \<Longrightarrow> pt_ok mm (swapped_table n)"
  by (simp add: pt_ok_def swapped_table_def)

theorem AccessMemory_safe_witness:
  "\<exists>mm' pt' r. AccessMemory (NewMemoryManager 2 PolicyClock 4) (swapped_table 8) 0x3ABC True =
      Some (mm', pt', r) \<and> mm_ok mm' \<and> pt_ok mm' pt' \<and> length (mm_Frames mm') = 2 \<and>
      (\<forall>a. r = Inr a \<longrightarrow>
        in_frames (NewMemoryManager 2 PolicyClock 4) (swapped_table 8) 0x3ABC a)"
proof -
  have n: "length (mm_Frames (NewMemoryManager 2 PolicyClock 4)) = 2"
    by (simp add: NewMemoryManager_def Let_def)
  have ok: "mm_ok (NewMemoryManager 2 PolicyClock 4)" by (rule NewMemoryManager_ok) simp
  have pt: "pt_ok (NewMemoryManager 2 PolicyClock 4) (swapped_table 8)" by (rule swapped_table_ok) simp
  have "unat (0x3ABC div pt_PageSize (swapped_table 8)) < 2 ^ 63" by (simp add: swapped_table_def)
  from AccessMemory_safe [OF ok pt this, of True] show ?thesis unfolding n by blast
qed

lemma victim_by_policy:
  assumes "mm_ok mm" and "choose_victim mm = Some (fs, v, hand)"
  shows "victim_ok mm v"
proof -
  let ?fs = "mm_Frames mm"
  have n: "mm_NumFrames mm = int (length ?fs)" "?fs \<noteq> []" using assms(1) by (auto simp: mm_ok_def)
  have h: "int (nat (mm_ClockHand mm)) = mm_ClockHand mm" "nat (mm_ClockHand mm) < length ?fs"
    using assms(1) by (auto simp: mm_ok_def)
  show ?thesis
  proof (cases "mm_Policy mm")
    case PolicyClock
    from clock_scan_spec [OF h(2), unfolded h(1)] obtain k fs' where
      "k \<le> length ?fs" "clock_scan (int (length ?fs)) ?fs (mm_ClockHand mm) =
         Some (fs', (nat (mm_ClockHand mm) + k) mod length ?fs,
           (int ((nat (mm_ClockHand mm) + k) mod length ?fs) + 1) mod int (length ?fs))"
      "\<forall>j < k. f_UseBit (?fs ! ((nat (mm_ClockHand mm) + j) mod length ?fs))"
      "k < length ?fs \<longrightarrow> \<not> f_UseBit (?fs ! ((nat (mm_ClockHand mm) + k) mod length ?fs))" by blast
    with PolicyClock assms(2) n(1) show ?thesis
      by (auto simp: choose_victim_def victim_ok_def)
  qed (use assms(2) n oldest_frame_spec [OF n(2), of f_LoadedTick]
        oldest_frame_spec [OF n(2), of f_LastUsedTick]
       in \<open>auto simp: choose_victim_def victim_ok_def all_set_conv_all_nth\<close>)
qed

text \<open>
  C29: the replacement policies. When every frame is occupied, FIFO evicts the frame that was
  loaded first, LRU the one that was used least recently, and the clock the first one from the
  hand on without its use bit, or the one under the hand when all use bits are set. The victim's
  frame gets the new page and a dirty victim is counted as a write to the swap space.
\<close>

theorem allocateFrame_evicts_by_policy:
  assumes "mm_ok mm" and "\<forall>f\<in>set (mm_Frames mm). f_IsOccupied f"
  shows "\<exists>mm' v. allocateFrame mm pid vpn =
       Some (mm', of_nat v, f_VPN (mm_Frames mm ! v), True) \<and> v < length (mm_Frames mm) \<and>
     mm_Frames mm' ! v = loaded_frame v pid vpn (mm_CurrentTick mm) \<and>
     mm_SwapWrites mm' = mm_SwapWrites mm + (if f_IsDirty (mm_Frames mm ! v) then 1 else 0) \<and>
     victim_ok mm v"
proof -
  let ?mm1 = "mm\<lparr>mm_PageEvictions := mm_PageEvictions mm + 1\<rparr>"
  have none: "free_frame (mm_Frames mm) 0 = None" using assms(2) by (simp add: free_frame_None)
  have "mm_ok ?mm1" using assms(1) by (simp add: mm_ok_def)
  from choose_victim_ok [OF this] obtain fs v hand where
    c: "choose_victim ?mm1 = Some (fs, v, hand)" "v < length (mm_Frames mm)"
      "length fs = length (mm_Frames mm)"
      "fs ! v = mm_Frames mm ! v \<or> fs ! v = (mm_Frames mm ! v)\<lparr>f_UseBit := False\<rparr>"
    by auto
  then have same: "f_VPN (fs ! v) = f_VPN (mm_Frames mm ! v)"
    "f_IsDirty (fs ! v) = f_IsDirty (mm_Frames mm ! v)" by auto
  have "choose_victim ?mm1 = choose_victim mm"
    by (cases "mm_Policy mm") (simp_all add: choose_victim_def)
  then have policy: "victim_ok mm v" using victim_by_policy [OF assms(1)] c(1) by metis
  show ?thesis
    using none c same policy
    by (intro exI [of _ v] exI conjI) (auto simp: allocateFrame_def Let_def go_index_def)
qed

definition full_example :: MemoryManager where
  "full_example = (NewMemoryManager 2 PolicyClock 4)\<lparr>mm_Frames :=
     [loaded_frame 0 1 10 1, (loaded_frame 1 1 11 2)\<lparr>f_UseBit := False\<rparr>], mm_CurrentTick := 3\<rparr>"

theorem allocateFrame_evicts_by_policy_witness:
  "\<exists>mm' v. allocateFrame full_example 1 12 = Some (mm', of_nat v, f_VPN (mm_Frames full_example ! v), True) \<and>
     v < 2 \<and> mm_Frames mm' ! v = loaded_frame v 1 12 3 \<and> victim_ok full_example v"
proof -
  have "mm_ok full_example"
    using NewMemoryManager_ok [of 2 PolicyClock 4]
    by (auto simp: mm_ok_def full_example_def NewMemoryManager_def loaded_frame_def Let_def less_Suc_eq
        numeral_2_eq_2 nth_Cons')
  moreover have "\<forall>f\<in>set (mm_Frames full_example). f_IsOccupied f"
    by (simp add: full_example_def loaded_frame_def)
  moreover have "length (mm_Frames full_example) = 2" "mm_CurrentTick full_example = 3"
    by (simp_all add: full_example_def)
  ultimately show ?thesis using allocateFrame_evicts_by_policy [of full_example 1 12] by auto
qed

text \<open>
  an evicted page stays present. The manager does not clear the page table entry or the
  buffer entry of the page it evicts: with two frames and accesses to the pages 0, 1 and 2, the
  access to page 2 evicts page 0, but a later access to page 0 is no page fault and is translated
  to the frame that now holds page 2.
\<close>

theorem evicted_page_still_translated:
  "\<exists>mm pt. access_all (NewMemoryManager 2 PolicyFIFO 4) (swapped_table 8)
       [0x0000, 0x1000, 0x2000, 0x0010] =
       Some (mm, pt, [Inr 0x0000, Inr 0x1000, Inr 0x0000, Inr 0x0010]) \<and>
     mm_PageFaults mm = 3 \<and> mm_PageEvictions mm = 1 \<and> map f_VPN (mm_Frames mm) = [2, 1] \<and>
     pte_Present (pt_Entries pt ! 0) \<and> pte_PFN (pt_Entries pt ! 0) = pte_PFN (pt_Entries pt ! 2)"
proof -
  let ?r = "access_all (NewMemoryManager 2 PolicyFIFO 4) (swapped_table 8)
    [0x0000, 0x1000, 0x2000, 0x0010]"
  have "case ?r of None \<Rightarrow> False
    | Some (mm, pt, rs) \<Rightarrow> rs = [Inr 0x0000, Inr 0x1000, Inr 0x0000, Inr 0x0010] \<and>
        mm_PageFaults mm = 3 \<and> mm_PageEvictions mm = 1 \<and> map f_VPN (mm_Frames mm) = [2, 1] \<and>
        pte_Present (pt_Entries pt ! 0) \<and> pte_PFN (pt_Entries pt ! 0) = pte_PFN (pt_Entries pt ! 2)"
    by code_simp
  then show ?thesis by (auto split: option.splits prod.splits)
qed

end
