(* ===== verification/Sync_Cond.thy ===== *)
theory Sync_Cond
  imports Go_Prelude
begin

text \<open>
  The condition variables of Go's \<open>sync\<close> package, as the pipe and the reader-writer lock use them. The
  goroutines of a program are a list of states. \<open>w\<close> selects the states that wait on a
  condition variable and \<open>aw\<close> is what waking one does. \<open>Signal\<close> wakes one waiting goroutine if there is
  one, and leaves open which; \<open>Broadcast\<close> wakes all. The locale states what a client relies on.
\<close>

section \<open>Counting goroutines\<close>

definition cnt :: "('t \<Rightarrow> bool) \<Rightarrow> 't list \<Rightarrow> nat" where
  "cnt P ts = length (filter P ts)"

lemma cnt_update: "i < length xs \<Longrightarrow> cnt P (xs[i := x]) + (if P (xs ! i) then 1 else 0) = cnt P xs + (if P x then 1 else 0)"
proof (induction xs arbitrary: i)
  case (Cons y ys)
  then show ?case by (cases i) (auto simp: cnt_def)
qed simp

lemma cnt_pos: "0 < cnt P xs \<longleftrightarrow> (\<exists>x\<in>set xs. P x)"
  by (auto simp: cnt_def filter_empty_conv)

lemma cnt_pos_nth: "i < length xs \<Longrightarrow> P (xs ! i) \<Longrightarrow> 0 < cnt P xs"
  by (auto simp: cnt_pos)

lemma cnt_zero: "cnt P xs = 0 \<longleftrightarrow> (\<forall>x\<in>set xs. \<not> P x)"
  by (simp add: cnt_def filter_empty_conv)

lemma all_update: "\<forall>t\<in>set ts. P t \<Longrightarrow> P t' \<Longrightarrow> \<forall>t\<in>set (ts[i := t']). P t"
  using set_update_subset_insert[of ts i t'] by blast

section \<open>Signals\<close>

inductive signals :: "('t \<Rightarrow> bool) \<Rightarrow> ('t \<Rightarrow> 't) \<Rightarrow> nat \<Rightarrow> 't list \<Rightarrow> 't list \<Rightarrow> bool" for w aw where
  signals_zero: "signals w aw 0 ts ts"
| signals_nobody: "\<forall>t\<in>set ts. \<not> w t \<Longrightarrow> signals w aw (Suc k) ts ts"
| signals_wake: "j < length ts \<Longrightarrow> w (ts ! j) \<Longrightarrow> signals w aw k (ts[j := aw (ts ! j)]) ts' \<Longrightarrow> signals w aw (Suc k) ts ts'"

definition broadcast :: "('t \<Rightarrow> bool) \<Rightarrow> ('t \<Rightarrow> 't) \<Rightarrow> 't list \<Rightarrow> 't list" where
  "broadcast w aw ts = map (\<lambda>t. if w t then aw t else t) ts"

lemma signals_total: "\<exists>ts'. signals w aw k ts ts'"
proof (induction k arbitrary: ts)
  case (Suc k)
  show ?case
  proof (cases "\<exists>j<length ts. w (ts ! j)")
    case True
    then obtain j where j: "j < length ts" "w (ts ! j)" by blast
    then show ?thesis using Suc[of "ts[j := aw (ts ! j)]"] signals_wake by blast
  next
    case False
    then have "\<forall>t\<in>set ts. \<not> w t" by (metis in_set_conv_nth)
    then show ?thesis using signals_nobody by blast
  qed
qed (blast intro: signals_zero)

lemma signals_length: "signals w aw k ts ts' \<Longrightarrow> length ts' = length ts"
  by (induction rule: signals.induct) auto

text \<open>What waking does not change, no signal changes.\<close>

lemma signals_all:
  assumes "signals w aw k ts ts'" "\<forall>t\<in>set ts. P t" "\<And>t. P t \<Longrightarrow> w t \<Longrightarrow> P (aw t)"
  shows "\<forall>t\<in>set ts'. P t"
  using assms(1,2)
proof (induction rule: signals.induct)
  case (signals_wake j ts k ts')
  have "P (aw (ts ! j))" using assms(3) signals_wake(1,2,5) by simp
  from signals_wake(4)[OF all_update[OF signals_wake(5) this]] show ?case .
qed simp_all

lemma signals_keep:
  assumes "signals w aw k ts ts'" "\<And>t. w t \<Longrightarrow> P (aw t) = P t"
  shows "cnt P ts' = cnt P ts"
  using assms(1)
proof (induction rule: signals.induct)
  case (signals_wake j ts k ts')
  then show ?case using cnt_update[OF signals_wake(1), of P "aw (ts ! j)"] assms(2)[of "ts ! j"] by auto
qed simp_all

lemma broadcast_all: "\<forall>t\<in>set ts. P t \<Longrightarrow> (\<And>t. P t \<Longrightarrow> w t \<Longrightarrow> P (aw t)) \<Longrightarrow> \<forall>t\<in>set (broadcast w aw ts). P t"
  by (auto simp: broadcast_def)

lemma broadcast_keep:
  assumes "\<And>t. w t \<Longrightarrow> P (aw t) = P t"
  shows "cnt P (broadcast w aw ts) = cnt P ts"
  using assms by (induction ts) (auto simp: broadcast_def cnt_def)

text \<open>A scheduler that wakes the waiting goroutine with the least index, for runs that compute.\<close>

fun wake_first :: "('t \<Rightarrow> bool) \<Rightarrow> ('t \<Rightarrow> 't) \<Rightarrow> 't list \<Rightarrow> 't list" where
  "wake_first w aw [] = []"
| "wake_first w aw (t # ts) = (if w t then aw t # ts else t # wake_first w aw ts)"

lemma wake_first_nobody: "\<forall>t\<in>set ts. \<not> w t \<Longrightarrow> wake_first w aw ts = ts"
  by (induction ts) auto

lemma wake_first_one: "\<exists>t\<in>set ts. w t \<Longrightarrow> \<exists>j<length ts. w (ts ! j) \<and> wake_first w aw ts = ts[j := aw (ts ! j)]"
proof (induction ts)
  case (Cons t ts)
  show ?case
  proof (cases "w t")
    case False
    with Cons obtain j where "j < length ts" "w (ts ! j)" "wake_first w aw ts = ts[j := aw (ts ! j)]" by auto
    with False show ?thesis by (intro exI[of _ "Suc j"]) simp
  qed auto
qed simp

lemma signals_first: "signals w aw k ts ((wake_first w aw ^^ k) ts)"
proof (induction k arbitrary: ts)
  case (Suc k)
  show ?case
  proof (cases "\<exists>t\<in>set ts. w t")
    case True
    then obtain j where "j < length ts" "w (ts ! j)" "wake_first w aw ts = ts[j := aw (ts ! j)]" using wake_first_one by metis
    with Suc[of "wake_first w aw ts"] show ?thesis by (auto simp: funpow_swap1 intro: signals_wake)
  next
    case False
    then have "(wake_first w aw ^^ n) ts = ts" for n by (induction n) (auto simp: wake_first_nobody)
    with False show ?thesis using signals_nobody by metis
  qed
qed (simp add: signals_zero)

section \<open>The contract of a condition variable\<close>

text \<open>A woken goroutine does not wait any more and is one of those that \<open>a\<close> selects.\<close>

locale cond_var =
  fixes w :: "'t \<Rightarrow> bool" and aw :: "'t \<Rightarrow> 't" and a :: "'t \<Rightarrow> bool"
  assumes wakes: "w t \<Longrightarrow> \<not> w (aw t) \<and> a (aw t) \<and> \<not> a t"
begin

text \<open>If somebody still waits after \<open>k\<close> signals, every one of them has woken a goroutine.\<close>

lemma signals_woken:
  assumes "signals w aw k ts ts'" "0 < cnt w ts'"
  shows "cnt a ts' = cnt a ts + k"
  using assms
proof (induction rule: signals.induct)
  case (signals_nobody ts k)
  then show ?case by (simp add: cnt_pos)
next
  case (signals_wake j ts k ts')
  then show ?case using cnt_update[OF signals_wake(1), of a "aw (ts ! j)"] wakes[of "ts ! j"] by auto
qed simp

lemma signals_fewer: "signals w aw k ts ts' \<Longrightarrow> cnt w ts' \<le> cnt w ts"
proof (induction rule: signals.induct)
  case (signals_wake j ts k ts')
  then show ?case using cnt_update[OF signals_wake(1), of w "aw (ts ! j)"] wakes[of "ts ! j"] by auto
qed simp_all

lemma signals_awake_mono: "signals w aw k ts ts' \<Longrightarrow> cnt a ts \<le> cnt a ts'"
proof (induction rule: signals.induct)
  case (signals_wake j ts k ts')
  then show ?case using cnt_update[OF signals_wake(1), of a "aw (ts ! j)"] wakes[of "ts ! j"] by auto
qed simp_all

lemma broadcast_none: "cnt w (broadcast w aw ts) = 0"
  using wakes by (auto simp: cnt_zero broadcast_def)

end

end
