(* ===== verification/Locks.thy ===== *)
theory Locks
  imports Sync_Cond "HOL-Library.Multiset"
begin

text \<open>
  The atomic operations and the locks built on wait queues of \<open>pkg/concurrency\<close>: \<open>atomics.go\<close>,
  \<open>spinlock.go\<close>, \<open>mutex.go\<close> and \<open>semaphore.go\<close>. Goroutines enter and leave a critical section for ever.
  A step is one atomic operation or one stretch under the internal mutex of the lock. The
  channel that a goroutine parks on is named by the index of the goroutine. Closing the
  channel happens after the internal mutex is released, so it is a step of its own.
\<close>

section \<open>Atomic operations\<close>

type_synonym i32 = "32 word"

definition CompareAndSwap :: "i32 \<Rightarrow> i32 \<Rightarrow> i32 \<Rightarrow> i32 \<times> bool" where
  "CompareAndSwap v old new = (if v = old then (new, True) else (v, False))"

definition TestAndSet :: "i32 \<Rightarrow> i32 \<Rightarrow> i32 \<times> i32" where
  "TestAndSet v new = (new, v)"

definition FetchAndAdd :: "i32 \<Rightarrow> i32 \<Rightarrow> i32 \<times> i32" where
  "FetchAndAdd v delta = (v + delta, (v + delta) - delta)"

definition Load :: "i32 \<Rightarrow> i32" where
  "Load v = v"

definition Store :: "i32 \<Rightarrow> i32 \<Rightarrow> i32" where
  "Store v new = new"

text \<open>The subtraction undoes the addition even when it overflows.\<close>

lemma FetchAndAdd_previous: "FetchAndAdd v delta = (v + delta, v)"
  by (simp add: FetchAndAdd_def)

section \<open>Goroutines at a lock\<close>

datatype lock_pc = Start | Slow | Park | Ready | In | Close nat

fun holds :: "lock_pc \<Rightarrow> bool" where
  "holds Ready = True"
| "holds In = True"
| "holds (Close j) = True"
| "holds _ = False"

fun closes :: "lock_pc \<Rightarrow> nat multiset" where
  "closes (Close j) = {#j#}"
| "closes _ = {#}"

definition parked :: "lock_pc list \<Rightarrow> nat set" where
  "parked ts = {j. j < length ts \<and> ts ! j = Park}"

text \<open>Every parked goroutine is either in the queue or about to be woken, once.\<close>

definition lot_ok :: "nat list \<Rightarrow> lock_pc list \<Rightarrow> bool" where
  "lot_ok ws ts \<longleftrightarrow> mset ws + sum_list (map closes ts) = mset_set (parked ts)"

lemma closes_update: "i < length ts \<Longrightarrow> sum_list (map closes (ts[i := t])) + closes (ts ! i) = sum_list (map closes ts) + closes t"
proof (induction ts arbitrary: i)
  case (Cons a ts)
  then show ?case by (cases i) (auto simp: union_assoc union_commute union_lcomm)
qed simp

lemma finite_parked [simp]: "finite (parked ts)"
  by (simp add: parked_def)

lemma parked_update:
  "i < length ts \<Longrightarrow> parked (ts[i := t]) = (if t = Park then insert i (parked ts) else parked ts - {i})"
  by (auto simp: parked_def nth_list_update split: if_splits)

lemma in_parked: "i < length ts \<Longrightarrow> i \<in> parked ts \<longleftrightarrow> ts ! i = Park"
  by (simp add: parked_def)

lemma lot_move:
  assumes "lot_ok ws ts" "i < length ts" "ts ! i \<noteq> Park" "closes (ts ! i) = {#}" "t \<noteq> Park" "closes t = {#}"
  shows "lot_ok ws (ts[i := t])"
  using assms closes_update[OF assms(2), of t] parked_update[OF assms(2), of t] by (simp add: lot_ok_def in_parked)

lemma lot_park:
  assumes "lot_ok ws ts" "i < length ts" "ts ! i \<noteq> Park" "closes (ts ! i) = {#}"
  shows "lot_ok (ws @ [i]) (ts[i := Park])"
proof -
  have "i \<notin> parked ts" using assms(2,3) by (simp add: in_parked)
  then have "mset_set (insert i (parked ts)) = {#i#} + mset_set (parked ts)" by simp
  then show ?thesis using assms closes_update[OF assms(2), of Park] parked_update[OF assms(2), of Park]
    by (simp add: lot_ok_def)
qed

lemma lot_pop:
  assumes "lot_ok (j # ws) ts" "i < length ts" "ts ! i \<noteq> Park" "closes (ts ! i) = {#}"
  shows "lot_ok ws (ts[i := Close j])"
  using assms closes_update[OF assms(2), of "Close j"] parked_update[OF assms(2), of "Close j"]
  by (simp add: lot_ok_def in_parked)

lemma lot_close:
  assumes lot: "lot_ok ws ts" and i: "i < length ts" "ts ! i = Close j"
  shows "j < length ts" "ts ! j = Park" "j \<noteq> i" "lot_ok ws (ts[i := Start, j := Ready])"
proof -
  note u = closes_update[OF i(1), of Start]
  have "j \<in># sum_list (map closes ts)" using u i(2) by (metis closes.simps(1,2) empty_neutral(2) union_iff multi_member_last)
  then have "j \<in># mset_set (parked ts)" using lot by (metis lot_ok_def union_iff)
  then have p: "j \<in> parked ts" by simp
  then show j: "j < length ts" "ts ! j = Park" by (simp_all add: parked_def)
  then show "j \<noteq> i" using i by auto
  have c: "sum_list (map closes (ts[i := Start, j := Ready])) = sum_list (map closes (ts[i := Start]))"
    using closes_update[of j "ts[i := Start]" Ready] j \<open>j \<noteq> i\<close> by simp
  have "parked (ts[i := Start, j := Ready]) = parked ts - {j}"
    using parked_update[of j "ts[i := Start]" Ready] parked_update[OF i(1), of Start] j i by (simp add: in_parked)
  moreover have "mset_set (parked ts) = {#j#} + mset_set (parked ts - {j})" using p by (simp add: mset_set.remove)
  moreover have "sum_list (map closes ts) = add_mset j (sum_list (map closes (ts[i := Start])))" using u i(2) by simp
  ultimately show "lot_ok ws (ts[i := Start, j := Ready])" using lot unfolding lot_ok_def c by simp
qed

lemma lot_queue: "lot_ok ws ts \<Longrightarrow> j \<in> set ws \<Longrightarrow> j < length ts \<and> ts ! j = Park"
  unfolding lot_ok_def by (metis finite_parked finite_set_mset_mset_set in_parked parked_def mem_Collect_eq set_mset_mset union_iff)

lemma closes_none: "\<forall>t\<in>set ts. \<not> holds t \<Longrightarrow> sum_list (map closes ts) = {#}"
proof (induction ts)
  case (Cons t ts)
  then show ?case by (cases t) auto
qed simp

lemma lot_init: "lot_ok [] (replicate n Start)"
proof -
  have "sum_list (replicate n {#}) = {#}" by (induction n) auto
  moreover have "parked (replicate n Start) = {}" by (auto simp: parked_def)
  ultimately show ?thesis by (simp add: lot_ok_def)
qed

section \<open>The contract of a lock\<close>

fun lock_run :: "('s \<Rightarrow> nat \<Rightarrow> 's option) \<Rightarrow> 's \<Rightarrow> nat list \<Rightarrow> 's option" where
  "lock_run step s [] = Some s"
| "lock_run step s (i # is) = Option.bind (step s i) (\<lambda>s'. lock_run step s' is)"

text \<open>At most \<open>limit\<close> goroutines are inside, whatever the order of their steps.\<close>

locale critical_section =
  fixes step :: "'s \<Rightarrow> nat \<Rightarrow> 's option" and pcs :: "'s \<Rightarrow> lock_pc list" and inv :: "'s \<Rightarrow> bool" and limit :: nat
  assumes step_inv: "inv s \<Longrightarrow> step s i = Some s' \<Longrightarrow> inv s'"
    and inv_limit: "inv s \<Longrightarrow> cnt holds (pcs s) \<le> limit"
begin

lemma run_inv: "inv s \<Longrightarrow> lock_run step s is = Some s' \<Longrightarrow> inv s'"
proof (induction "is" arbitrary: s)
  case (Cons i "is")
  then obtain s1 where "step s i = Some s1" "lock_run step s1 is = Some s'" by (auto split: bind_splits)
  with Cons step_inv show ?case by blast
qed simp

lemma inside_le_holds: "cnt (\<lambda>t. t = In) ts \<le> cnt holds ts"
  by (induction ts) (auto simp: cnt_def)

lemma run_limit:
  assumes "inv s" "lock_run step s is = Some s'"
  shows "cnt (\<lambda>t. t = In) (pcs s') \<le> limit"
  using inside_le_holds[of "pcs s'"] inv_limit[OF run_inv[OF assms]] by linarith

end

lemma holds_update: "i < length ts \<Longrightarrow> cnt holds (ts[i := t]) + (if holds (ts ! i) then 1 else 0) = cnt holds ts + (if holds t then 1 else 0)"
  by (rule cnt_update)

section \<open>Spinlock\<close>

record spin_system =
  sl_state :: i32
  sl_threads :: "lock_pc list"

definition NewSpinlock :: "nat \<Rightarrow> spin_system" where
  "NewSpinlock n = \<lparr>sl_state = 0, sl_threads = replicate n Start\<rparr>"

definition TryLock :: "spin_system \<Rightarrow> spin_system \<times> bool" where
  "TryLock s = (let (v, ok) = CompareAndSwap (sl_state s) 0 1 in (s\<lparr>sl_state := v\<rparr>, ok))"

definition Spin_Unlock :: "spin_system \<Rightarrow> spin_system" where
  "Spin_Unlock s = s\<lparr>sl_state := Store (sl_state s) 0\<rparr>"

text \<open>One round of the loop of \<open>Lock\<close>, which is one attempt, or the unlock.\<close>

definition spin_step :: "spin_system \<Rightarrow> nat \<Rightarrow> spin_system option" where
  "spin_step s i =
     (if length (sl_threads s) \<le> i then None
      else if sl_threads s ! i = In then
        let s' = Spin_Unlock s in Some (s'\<lparr>sl_threads := (sl_threads s')[i := Start]\<rparr>)
      else if sl_threads s ! i = Start then
        let (s', ok) = TryLock s in Some (if ok then s'\<lparr>sl_threads := (sl_threads s')[i := In]\<rparr> else s')
      else None)"

definition spin_inv :: "spin_system \<Rightarrow> bool" where
  "spin_inv s \<longleftrightarrow> cnt holds (sl_threads s) \<le> 1 \<and> (sl_state s = 0 \<longrightarrow> cnt holds (sl_threads s) = 0)"

interpretation spin: critical_section spin_step sl_threads spin_inv 1
proof
  fix s i s' assume inv: "spin_inv s" and S: "spin_step s i = Some s'"
  then have i: "i < length (sl_threads s)" by (simp add: spin_step_def split: if_splits)
  note u = holds_update[OF i]
  show "spin_inv s'"
    using inv S u[of Start] u[of In] i
    by (auto simp: spin_inv_def spin_step_def Spin_Unlock_def TryLock_def CompareAndSwap_def Store_def Let_def split: if_splits)
qed (simp add: spin_inv_def)

section \<open>Mutex\<close>

record Mutex =
  mx_state :: i32
  mx_waiters :: "nat list"

definition NewMutex :: Mutex where
  "NewMutex = \<lparr>mx_state = 0, mx_waiters = []\<rparr>"

text \<open>\<open>Lock\<close>: the fast path, and the stretch that joins the queue. \<open>Unlock\<close>: the stretch under the internal
  mutex, with the goroutine whose channel is closed afterwards.\<close>

definition Lock_fast :: "Mutex \<Rightarrow> Mutex \<times> bool" where
  "Lock_fast m = (let (v, ok) = CompareAndSwap (mx_state m) 0 1 in (m\<lparr>mx_state := v\<rparr>, ok))"

definition Lock_slow :: "Mutex \<Rightarrow> nat \<Rightarrow> Mutex" where
  "Lock_slow m node = m\<lparr>mx_waiters := mx_waiters m @ [node], mx_state := Store (mx_state m) 2\<rparr>"

definition Unlock :: "Mutex \<Rightarrow> Mutex \<times> nat option" where
  "Unlock m =
     (case mx_waiters m of
        [] \<Rightarrow> (m\<lparr>mx_state := Store (mx_state m) 0\<rparr>, None)
      | nxt # rest \<Rightarrow>
          (m\<lparr>mx_waiters := rest, mx_state := (if rest = [] then Store (mx_state m) 1 else mx_state m)\<rparr>, Some nxt))"

record mutex_system =
  ms_mutex :: Mutex
  ms_threads :: "lock_pc list"

definition mutex_init :: "nat \<Rightarrow> mutex_system" where
  "mutex_init n = \<lparr>ms_mutex = NewMutex, ms_threads = replicate n Start\<rparr>"

definition mutex_step :: "mutex_system \<Rightarrow> nat \<Rightarrow> mutex_system option" where
  "mutex_step s i =
     (let m = ms_mutex s; ts = ms_threads s in
      if length ts \<le> i then None
      else case ts ! i of
        Start \<Rightarrow> (let (m', ok) = Lock_fast m in Some \<lparr>ms_mutex = m', ms_threads = ts[i := if ok then In else Slow]\<rparr>)
      | Slow \<Rightarrow> Some \<lparr>ms_mutex = Lock_slow m i, ms_threads = ts[i := Park]\<rparr>
      | Park \<Rightarrow> None
      | Ready \<Rightarrow> Some (s\<lparr>ms_threads := ts[i := In]\<rparr>)
      | In \<Rightarrow> (let (m', nxt) = Unlock m
               in Some \<lparr>ms_mutex = m', ms_threads = ts[i := case nxt of None \<Rightarrow> Start | Some j \<Rightarrow> Close j]\<rparr>)
      | Close j \<Rightarrow> Some (s\<lparr>ms_threads := ts[i := Start, j := Ready]\<rparr>))"

definition mutex_inv :: "mutex_system \<Rightarrow> bool" where
  "mutex_inv s \<longleftrightarrow> lot_ok (mx_waiters (ms_mutex s)) (ms_threads s) \<and> cnt holds (ms_threads s) \<le> 1 \<and>
     (mx_state (ms_mutex s) = 0 \<longrightarrow> cnt holds (ms_threads s) = 0)"

lemma mutex_step_inv:
  assumes inv: "mutex_inv s" and S: "mutex_step s i = Some s'"
  shows "mutex_inv s'"
proof -
  let ?m = "ms_mutex s" and ?ts = "ms_threads s"
  have i: "i < length ?ts" using S by (simp add: mutex_step_def Let_def split: if_splits)
  note u = holds_update[OF i]
  from inv have lot: "lot_ok (mx_waiters ?m) ?ts" and one: "cnt holds ?ts \<le> 1" and
    zero: "mx_state ?m = 0 \<Longrightarrow> cnt holds ?ts = 0" by (simp_all add: mutex_inv_def)
  show ?thesis
  proof (cases "?ts ! i")
    case Start
    then show ?thesis using S i one zero lot_move[OF lot i, of In] lot_move[OF lot i, of Slow] u[of In] u[of Slow]
      by (auto simp: mutex_step_def mutex_inv_def Lock_fast_def CompareAndSwap_def Let_def split: if_splits)
  next
    case Slow
    then show ?thesis using S i one lot_park[OF lot i] u[of Park]
      by (auto simp: mutex_step_def mutex_inv_def Lock_slow_def Store_def Let_def)
  next
    case Park
    then show ?thesis using S i by (simp add: mutex_step_def)
  next
    case Ready
    then show ?thesis using S i one zero lot_move[OF lot i, of In] u[of In]
      by (auto simp: mutex_step_def mutex_inv_def Let_def)
  next
    case In
    show ?thesis
    proof (cases "mx_waiters ?m")
      case Nil
      then show ?thesis using In S i one lot_move[OF lot i, of Start] u[of Start]
        by (auto simp: mutex_step_def mutex_inv_def Unlock_def Store_def Let_def)
    next
      case (Cons j ws)
      then have "lot_ok ws (?ts[i := Close j])" using lot_pop[of j ws ?ts i] lot i In by simp
      then show ?thesis using Cons In S i one zero u[of "Close j"]
        by (auto simp: mutex_step_def mutex_inv_def Unlock_def Store_def Let_def split: if_splits)
    qed
  next
    case (Close j)
    note c = lot_close[OF lot i Close]
    have "cnt holds (?ts[i := Start, j := Ready]) = cnt holds ?ts"
      using u[of Start] holds_update[of j "?ts[i := Start]" Ready] c Close by simp
    then show ?thesis using Close S i one zero c(4) by (auto simp: mutex_step_def mutex_inv_def Let_def)
  qed
qed

interpretation mutex: critical_section mutex_step ms_threads mutex_inv 1
  by unfold_locales (erule (1) mutex_step_inv, simp add: mutex_inv_def)

lemma mutex_init_inv: "mutex_inv (mutex_init n)"
  by (simp add: mutex_inv_def mutex_init_def NewMutex_def lot_init cnt_def)

text \<open>C16: Any number of goroutines lock and unlock the mutex for ever, with their atomic operations interleaved in
  any way: never are two of them in the critical section.\<close>

theorem Mutex_exclusion:
  assumes "lock_run mutex_step (mutex_init n) is = Some s"
  shows "cnt (\<lambda>t. t = In) (ms_threads s) \<le> 1"
  using mutex.run_limit[OF mutex_init_inv assms] .

theorem Mutex_exclusion_witness:
  "case lock_run mutex_step (mutex_init 3) [0, 1, 1, 2, 2, 0, 0, 1] of None \<Rightarrow> False
   | Some s \<Rightarrow> ms_threads s ! 1 = In \<and> ms_threads s ! 2 = Park \<and> cnt (\<lambda>t. t = In) (ms_threads s) \<le> 1"
proof -
  have "case lock_run mutex_step (mutex_init 3) [0, 1, 1, 2, 2, 0, 0, 1] of None \<Rightarrow> False
    | Some s \<Rightarrow> ms_threads s ! 1 = In \<and> ms_threads s ! 2 = Park" by code_simp
  with Mutex_exclusion[of 3 "[0, 1, 1, 2, 2, 0, 0, 1]"] show ?thesis by (auto split: option.splits)
qed

text \<open>The mutex loses wake-ups. When the holder unlocks between the failed fast path of another goroutine and its
  entry in the queue, that goroutine parks on a free mutex and marks it as contended, so every
  later lock parks as well: both goroutines wait for ever, and nobody is in the critical section.\<close>

theorem Mutex_lost_wakeup:
  "\<exists>s. lock_run mutex_step (mutex_init 2) [0, 1, 0, 1, 0, 0] = Some s \<and> ms_threads s = [Park, Park] \<and>
     (\<forall>i. mutex_step s i = None)"
proof -
  have "case lock_run mutex_step (mutex_init 2) [0, 1, 0, 1, 0, 0] of None \<Rightarrow> False | Some s \<Rightarrow> ms_threads s = [Park, Park]"
    by code_simp
  then obtain s where s: "lock_run mutex_step (mutex_init 2) [0, 1, 0, 1, 0, 0] = Some s" "ms_threads s = [Park, Park]"
    by (auto split: option.splits)
  have "mutex_step s i = None" for i
    using s(2) by (cases i) (auto simp: mutex_step_def Let_def nth_Cons' split: if_splits)
  with s show ?thesis by blast
qed

section \<open>Semaphore\<close>

record Semaphore =
  sem_value :: int
  sem_waiters :: "nat list"

definition NewSemaphore :: "int \<Rightarrow> Semaphore" where
  "NewSemaphore initialValue = \<lparr>sem_value = initialValue, sem_waiters = []\<rparr>"

text \<open>\<open>Wait\<close> says whether the caller parks, \<open>Signal\<close> whose channel is closed.\<close>

definition Sem_Wait :: "Semaphore \<Rightarrow> nat \<Rightarrow> Semaphore \<times> bool" where
  "Sem_Wait s ch =
     (let s1 = s\<lparr>sem_value := sem_value s - 1\<rparr>
      in if sem_value s1 < 0 then (s1\<lparr>sem_waiters := sem_waiters s1 @ [ch]\<rparr>, True) else (s1, False))"

definition Sem_Signal :: "Semaphore \<Rightarrow> Semaphore \<times> nat option" where
  "Sem_Signal s =
     (let s1 = s\<lparr>sem_value := sem_value s + 1\<rparr>
      in case sem_waiters s1 of
           [] \<Rightarrow> (s1, None)
         | ch # rest \<Rightarrow> (s1\<lparr>sem_waiters := rest\<rparr>, Some ch))"

definition Sem_Value :: "Semaphore \<Rightarrow> int" where
  "Sem_Value s = sem_value s"

record sem_system =
  ss_sem :: Semaphore
  ss_threads :: "lock_pc list"

definition sem_init :: "nat \<Rightarrow> nat \<Rightarrow> sem_system" where
  "sem_init v n = \<lparr>ss_sem = NewSemaphore (int v), ss_threads = replicate n Start\<rparr>"

definition sem_step :: "sem_system \<Rightarrow> nat \<Rightarrow> sem_system option" where
  "sem_step s i =
     (let m = ss_sem s; ts = ss_threads s in
      if length ts \<le> i then None
      else case ts ! i of
        Start \<Rightarrow> (let (m', blocked) = Sem_Wait m i in Some \<lparr>ss_sem = m', ss_threads = ts[i := if blocked then Park else In]\<rparr>)
      | Ready \<Rightarrow> Some (s\<lparr>ss_threads := ts[i := In]\<rparr>)
      | In \<Rightarrow> (let (m', nxt) = Sem_Signal m
               in Some \<lparr>ss_sem = m', ss_threads = ts[i := case nxt of None \<Rightarrow> Start | Some j \<Rightarrow> Close j]\<rparr>)
      | Close j \<Rightarrow> Some (s\<lparr>ss_threads := ts[i := Start, j := Ready]\<rparr>)
      | _ \<Rightarrow> None)"

definition sem_inv :: "nat \<Rightarrow> sem_system \<Rightarrow> bool" where
  "sem_inv v s \<longleftrightarrow> (let m = ss_sem s; ts = ss_threads s in
     lot_ok (sem_waiters m) ts \<and> cnt holds ts \<le> v \<and>
     sem_value m = int v - int (cnt holds ts) - int (length (sem_waiters m)) \<and>
     (sem_waiters m \<noteq> [] \<longrightarrow> cnt holds ts = v))"

lemma sem_step_inv:
  assumes inv: "sem_inv v s" and S: "sem_step s i = Some s'"
  shows "sem_inv v s'"
proof -
  let ?m = "ss_sem s" and ?ts = "ss_threads s"
  have i: "i < length ?ts" using S by (simp add: sem_step_def Let_def split: if_splits)
  note u = holds_update[OF i]
  from inv have lot: "lot_ok (sem_waiters ?m) ?ts" and le: "cnt holds ?ts \<le> v" and
    val: "sem_value ?m = int v - int (cnt holds ?ts) - int (length (sem_waiters ?m))" and
    full: "sem_waiters ?m \<noteq> [] \<longrightarrow> cnt holds ?ts = v" by (simp_all add: sem_inv_def Let_def)
  show ?thesis
  proof (cases "?ts ! i")
    case Start
    show ?thesis
    proof (cases "sem_value ?m - 1 < 0")
      case True
      then have "cnt holds ?ts = v" using val full le by (cases "sem_waiters ?m = []") auto
      then show ?thesis using True Start S i val lot_park[OF lot i] u[of Park]
        by (auto simp: sem_step_def sem_inv_def Sem_Wait_def Let_def)
    next
      case False
      then have "sem_waiters ?m = []" "cnt holds ?ts < v" using val full by auto
      then show ?thesis using False Start S i val lot_move[OF lot i, of In] u[of In]
        by (auto simp: sem_step_def sem_inv_def Sem_Wait_def Let_def)
    qed
  next
    case Slow
    then show ?thesis using S i by (simp add: sem_step_def)
  next
    case Park
    then show ?thesis using S i by (simp add: sem_step_def)
  next
    case Ready
    then show ?thesis using S i le val full lot_move[OF lot i, of In] u[of In]
      by (auto simp: sem_step_def sem_inv_def Let_def)
  next
    case In
    show ?thesis
    proof (cases "sem_waiters ?m")
      case Nil
      then show ?thesis using In S i le val lot_move[OF lot i, of Start] u[of Start]
        by (auto simp: sem_step_def sem_inv_def Sem_Signal_def Let_def)
    next
      case (Cons j ws)
      then have "lot_ok ws (?ts[i := Close j])" using lot_pop[of j ws ?ts i] lot i In by simp
      then show ?thesis using Cons In S i le val full u[of "Close j"]
        by (auto simp: sem_step_def sem_inv_def Sem_Signal_def Let_def)
    qed
  next
    case (Close j)
    note c = lot_close[OF lot i Close]
    have "cnt holds (?ts[i := Start, j := Ready]) = cnt holds ?ts"
      using u[of Start] holds_update[of j "?ts[i := Start]" Ready] c Close by simp
    then show ?thesis using Close S i le val full c(4) by (auto simp: sem_step_def sem_inv_def Let_def)
  qed
qed

interpretation sem: critical_section sem_step ss_threads "sem_inv v" v for v
  by unfold_locales (erule (1) sem_step_inv, simp add: sem_inv_def Let_def)

lemma sem_init_inv: "sem_inv v (sem_init v n)"
  by (simp add: sem_inv_def sem_init_def NewSemaphore_def lot_init cnt_def)

text \<open>C17: A semaphore with the initial value \<open>v\<close> admits at most \<open>v\<close> goroutines, whatever the interleaving. Its
  value is \<open>v\<close> less the goroutines that hold a unit and less those that wait. Somebody waits only
  when all units are held, and when no goroutine can move, then none waits: with a positive \<open>v\<close> there is no
  deadlock and no lost wake-up.\<close>

theorem Semaphore_admits:
  assumes "lock_run sem_step (sem_init v n) is = Some s"
  shows "cnt (\<lambda>t. t = In) (ss_threads s) \<le> v \<and>
    Sem_Value (ss_sem s) = int v - int (cnt holds (ss_threads s)) - int (length (sem_waiters (ss_sem s))) \<and>
    (sem_waiters (ss_sem s) \<noteq> [] \<longrightarrow> cnt holds (ss_threads s) = v) \<and>
    (0 < v \<and> (\<forall>i. sem_step s i = None) \<longrightarrow> Park \<notin> set (ss_threads s))"
proof -
  have inv: "sem_inv v s" by (rule sem.run_inv[OF sem_init_inv assms])
  have "Park \<notin> set (ss_threads s)" if v: "0 < v" and stuck: "\<forall>i. sem_step s i = None"
  proof
    assume "Park \<in> set (ss_threads s)"
    then obtain j where j: "j \<in> parked (ss_threads s)" by (auto simp: parked_def in_set_conv_nth)
    have no: "\<not> holds t" if "t \<in> set (ss_threads s)" for t
    proof
      assume "holds t"
      from that obtain i where i: "i < length (ss_threads s)" "ss_threads s ! i = t" by (auto simp: in_set_conv_nth)
      have "sem_step s i \<noteq> None" using \<open>holds t\<close> i by (cases t) (auto simp: sem_step_def Let_def split: prod.splits)
      moreover have "sem_step s i = None" using stuck by (rule spec)
      ultimately show False by contradiction
    qed
    then have "sum_list (map closes (ss_threads s)) = {#}" "cnt holds (ss_threads s) = 0"
      using closes_none by (auto simp: cnt_zero)
    moreover have "mset_set (parked (ss_threads s)) \<noteq> {#}" using j by (simp add: mset_set_empty_iff) blast
    ultimately have "sem_waiters (ss_sem s) \<noteq> []" "cnt holds (ss_threads s) = 0"
      using inv by (auto simp: sem_inv_def Let_def lot_ok_def)
    then show False using inv v by (auto simp: sem_inv_def Let_def)
  qed
  then show ?thesis using sem.run_limit[OF sem_init_inv assms] inv by (auto simp: sem_inv_def Let_def Sem_Value_def)
qed

theorem Semaphore_admits_witness:
  "case lock_run sem_step (sem_init 2 3) [0, 1, 2, 0, 0, 2] of None \<Rightarrow> False
   | Some s \<Rightarrow> ss_threads s = [Start, In, In] \<and> Sem_Value (ss_sem s) = 0 \<and> cnt (\<lambda>t. t = In) (ss_threads s) \<le> 2"
proof -
  have "case lock_run sem_step (sem_init 2 3) [0, 1, 2, 0, 0, 2] of None \<Rightarrow> False
    | Some s \<Rightarrow> ss_threads s = [Start, In, In] \<and> Sem_Value (ss_sem s) = 0" by code_simp
  with Semaphore_admits[of 2 3 "[0, 1, 2, 0, 0, 2]"] show ?thesis by (auto split: option.splits)
qed

end
