(* ===== verification/Ipc.thy ===== *)
theory Ipc
  imports Paging Locks
begin

text \<open>
  The message queue of \<open>pkg/ipc/message_queue.go\<close> and the shared memory of \<open>pkg/ipc/shared_memory.go\<close>. Page tables
  are shared with the processes that own them, so the model of the shared memory keeps them in
  a store and names them by their address there.
\<close>

section \<open>Message queue\<close>

datatype queue_error = ErrQueueFull | ErrQueueEmpty

record IPCMessage =
  msg_MsgType :: int
  msg_SenderPID :: int
  msg_Payload :: string

record MessageQueue =
  mq_QueueID :: int
  mq_Capacity :: int
  mq_Messages :: "IPCMessage list"

definition NewMessageQueue :: "int \<Rightarrow> int \<Rightarrow> MessageQueue" where
  "NewMessageQueue qid capacity =
     \<lparr>mq_QueueID = qid, mq_Capacity = (if capacity \<le> 0 then 10 else capacity), mq_Messages = []\<rparr>"

definition Send :: "MessageQueue \<Rightarrow> IPCMessage \<Rightarrow> MessageQueue \<times> queue_error option" where
  "Send mq msg =
     (if int (length (mq_Messages mq)) \<ge> mq_Capacity mq then (mq, Some ErrQueueFull)
      else (mq\<lparr>mq_Messages := mq_Messages mq @ [msg]\<rparr>, None))"

fun receive_loop :: "int \<Rightarrow> nat \<Rightarrow> IPCMessage list \<Rightarrow> (nat \<times> IPCMessage) option" where
  "receive_loop targetType i [] = None"
| "receive_loop targetType i (msg # rest) =
     (if targetType = 0 \<or> msg_MsgType msg = targetType then Some (i, msg)
      else receive_loop targetType (Suc i) rest)"

definition Receive :: "MessageQueue \<Rightarrow> int \<Rightarrow> MessageQueue \<times> (queue_error + IPCMessage)" where
  "Receive mq targetType =
     (case receive_loop targetType 0 (mq_Messages mq) of
        Some (i, msg) \<Rightarrow> (mq\<lparr>mq_Messages := delete_at i (mq_Messages mq)\<rparr>, Inr msg)
      | None \<Rightarrow> (mq, Inl ErrQueueEmpty))"

section \<open>Shared memory\<close>

record SharedMemorySegment =
  seg_ShmID :: int
  seg_PhysicalPFN :: u64
  seg_SizeBytes :: int
  seg_PhysicalData :: "8 word list"
  seg_Semaphore :: Semaphore

record ProcessMapping =
  map_PID :: int
  map_VirtualAddress :: u64
  map_PageTable :: nat

record SharedMemoryManager =
  smm_Segments :: "int \<rightharpoonup> SharedMemorySegment"
  smm_Mappings :: "int \<rightharpoonup> ProcessMapping list"
  smm_NextShmID :: int

definition NewSharedMemoryManager :: SharedMemoryManager where
  "NewSharedMemoryManager = \<lparr>smm_Segments = Map.empty, smm_Mappings = Map.empty, smm_NextShmID = 1\<rparr>"

text \<open>The allocation of a negative number of bytes panics.\<close>

definition CreateSegment :: "SharedMemoryManager \<Rightarrow> int \<Rightarrow> (SharedMemoryManager \<times> SharedMemorySegment) option" where
  "CreateSegment smm sizeBytes =
     (if sizeBytes < 0 then None else
      let shmID = smm_NextShmID smm;
          seg = \<lparr>seg_ShmID = shmID, seg_PhysicalPFN = word_of_int (500 + shmID), seg_SizeBytes = sizeBytes,
                 seg_PhysicalData = replicate (nat sizeBytes) 0, seg_Semaphore = NewSemaphore 1\<rparr>
      in Some (smm\<lparr>smm_NextShmID := shmID + 1, smm_Segments := (smm_Segments smm)(shmID \<mapsto> seg),
                   smm_Mappings := (smm_Mappings smm)(shmID \<mapsto> [])\<rparr>, seg))"

type_synonym pt_store = "nat \<rightharpoonup> PageTable"

definition Attach ::
  "SharedMemoryManager \<Rightarrow> pt_store \<Rightarrow> int \<Rightarrow> int \<Rightarrow> u64 \<Rightarrow> nat
     \<Rightarrow> (SharedMemoryManager \<times> pt_store \<times> bool) option" where
  "Attach smm pts shmID pid vAddr ref =
     (case smm_Segments smm shmID of
        None \<Rightarrow> Some (smm, pts, False)
      | Some seg \<Rightarrow>
          (case pts ref of
             None \<Rightarrow> None
           | Some pt \<Rightarrow>
               if pt_PageSize pt = 0 then None
               else case MapPage pt (vAddr div pt_PageSize pt) (seg_PhysicalPFN seg) True of
                      None \<Rightarrow> None
                    | Some pt' \<Rightarrow>
                        Some (smm\<lparr>smm_Mappings := (smm_Mappings smm)(shmID \<mapsto>
                                (case smm_Mappings smm shmID of None \<Rightarrow> [] | Some ms \<Rightarrow> ms) @
                                [\<lparr>map_PID = pid, map_VirtualAddress = vAddr, map_PageTable = ref\<rparr>])\<rparr>,
                              pts(ref \<mapsto> pt'), True)))"

text \<open>Go's \<open>copy\<close>: as many elements as both slices have.\<close>

definition go_copy :: "'a list \<Rightarrow> 'a list \<Rightarrow> 'a list" where
  "go_copy dst src = take (length dst) src @ drop (length src) dst"

text \<open>The accesses of a goroutine that gets the semaphore at once; \<^const>\<open>None\<close> when it has to park.\<close>

definition WriteSync :: "SharedMemorySegment \<Rightarrow> nat \<Rightarrow> 8 word list \<Rightarrow> SharedMemorySegment option" where
  "WriteSync seg g data =
     (let (sem, blocked) = Sem_Wait (seg_Semaphore seg) g
      in if blocked then None
         else Some (seg\<lparr>seg_PhysicalData := go_copy (seg_PhysicalData seg) data, seg_Semaphore := fst (Sem_Signal sem)\<rparr>))"

definition ReadSync :: "SharedMemorySegment \<Rightarrow> nat \<Rightarrow> (SharedMemorySegment \<times> 8 word list) option" where
  "ReadSync seg g =
     (let (sem, blocked) = Sem_Wait (seg_Semaphore seg) g
      in if blocked then None
         else Some (seg\<lparr>seg_Semaphore := fst (Sem_Signal sem)\<rparr>,
                    go_copy (replicate (length (seg_PhysicalData seg)) 0) (seg_PhysicalData seg)))"

section \<open>Order of messages\<close>

datatype queue_op = OpSend IPCMessage | OpReceive int

text \<open>A queue with the messages it has accepted and delivered so far.\<close>

fun queue_step :: "MessageQueue \<times> IPCMessage list \<times> IPCMessage list \<Rightarrow> queue_op \<Rightarrow> MessageQueue \<times> IPCMessage list \<times> IPCMessage list" where
  "queue_step (mq, snt, rcv) (OpSend msg) =
     (let (mq', e) = Send mq msg in (mq', if e = None then snt @ [msg] else snt, rcv))"
| "queue_step (mq, snt, rcv) (OpReceive k) =
     (let (mq', r) = Receive mq k in (mq', snt, case r of Inl _ \<Rightarrow> rcv | Inr msg \<Rightarrow> rcv @ [msg]))"

definition queue_ok :: "MessageQueue \<times> IPCMessage list \<times> IPCMessage list \<Rightarrow> bool" where
  "queue_ok s \<longleftrightarrow> (case s of (mq, snt, rcv) \<Rightarrow>
     0 < mq_Capacity mq \<and> int (length (mq_Messages mq)) \<le> mq_Capacity mq \<and>
     (\<forall>k. filter (\<lambda>m. msg_MsgType m = k) snt = filter (\<lambda>m. msg_MsgType m = k) (rcv @ mq_Messages mq)))"

lemma receive_loop_spec:
  assumes "receive_loop k i ms = Some (n, msg)"
  shows "\<exists>pre post. ms = pre @ msg # post \<and> n = i + length pre \<and> (k = 0 \<or> msg_MsgType msg = k) \<and>
        (\<forall>m\<in>set pre. k \<noteq> 0 \<and> msg_MsgType m \<noteq> k)"
  using assms
proof (induction ms arbitrary: i)
  case (Cons m ms)
  show ?case
  proof (cases "k = 0 \<or> msg_MsgType m = k")
    case True
    then show ?thesis using Cons.prems by (intro exI[of _ "[]"] exI[of _ ms]) auto
  next
    case False
    then have "receive_loop k (Suc i) ms = Some (n, msg)" using Cons.prems by simp
    from Cons.IH[OF this] obtain pre post where "ms = pre @ msg # post" "n = Suc i + length pre"
      "k = 0 \<or> msg_MsgType msg = k" "\<forall>m\<in>set pre. k \<noteq> 0 \<and> msg_MsgType m \<noteq> k" by blast
    then show ?thesis using False by (intro exI[of _ "m # pre"] exI[of _ post]) auto
  qed
qed simp

lemma Receive_spec:
  assumes "Receive mq k = (mq', Inr msg)"
  obtains pre post where "mq_Messages mq = pre @ msg # post" "mq' = mq\<lparr>mq_Messages := pre @ post\<rparr>"
    "k = 0 \<or> msg_MsgType msg = k" "\<forall>m\<in>set pre. k \<noteq> 0 \<and> msg_MsgType m \<noteq> k"
proof -
  obtain i where i: "receive_loop k 0 (mq_Messages mq) = Some (i, msg)"
    "mq' = mq\<lparr>mq_Messages := delete_at i (mq_Messages mq)\<rparr>"
    using assms by (auto simp: Receive_def split: option.splits)
  obtain pre post where p: "mq_Messages mq = pre @ msg # post" "i = length pre" "k = 0 \<or> msg_MsgType msg = k"
    "\<forall>m\<in>set pre. k \<noteq> 0 \<and> msg_MsgType m \<noteq> k" using receive_loop_spec[OF i(1)] by auto
  then have "delete_at i (mq_Messages mq) = pre @ post" by (simp add: delete_at_def)
  with that p i(2) show ?thesis by simp
qed

lemma queue_step_ok:
  assumes "queue_ok s"
  shows "queue_ok (queue_step s op)"
proof -
  obtain mq snt rcv where s: "s = (mq, snt, rcv)" by (cases s)
  show ?thesis
  proof (cases op)
    case (OpSend msg)
    then show ?thesis using assms by (auto simp: s queue_ok_def Send_def)
  next
    case (OpReceive k)
    obtain mq' r where R: "Receive mq k = (mq', r)" by fastforce
    show ?thesis
    proof (cases r)
      case (Inl e)
      then have "mq' = mq" using R by (auto simp: Receive_def split: option.splits)
      with assms OpReceive R Inl s show ?thesis by simp
    next
      case (Inr msg)
      with R obtain pre post where p: "mq_Messages mq = pre @ msg # post" "mq' = mq\<lparr>mq_Messages := pre @ post\<rparr>"
        "k = 0 \<or> msg_MsgType msg = k" "\<forall>m\<in>set pre. k \<noteq> 0 \<and> msg_MsgType m \<noteq> k" by (auto elim: Receive_spec)
      have "filter (\<lambda>m. msg_MsgType m = msg_MsgType msg) pre = []" using p(3,4) by (auto simp: filter_empty_conv)
      then show ?thesis using assms OpReceive R Inr p(1,2) by (auto simp: s queue_ok_def)
    qed
  qed
qed

text \<open>C30: The queue keeps the order of the messages of each type. After any sends and receives, of given types or of
  any type, the delivered messages of a type followed by the queued ones are the accepted
  messages of that type in the order of their sends: none is lost, duplicated or overtaken by another of
  its type. The queue never holds more messages than its capacity.\<close>

theorem queue_order_per_type:
  "let (mq, snt, rcv) = foldl queue_step (NewMessageQueue qid capacity, [], []) ops in
   (\<forall>k. filter (\<lambda>m. msg_MsgType m = k) snt = filter (\<lambda>m. msg_MsgType m = k) rcv @ filter (\<lambda>m. msg_MsgType m = k) (mq_Messages mq)) \<and>
   int (length (mq_Messages mq)) \<le> mq_Capacity mq"
proof -
  have "queue_ok (foldl queue_step s ops)" if "queue_ok s" for s
    using that
  proof (induction ops arbitrary: s)
    case (Cons op ops)
    from Cons.IH[OF queue_step_ok[OF Cons.prems]] show ?case by simp
  qed simp
  moreover have "queue_ok (NewMessageQueue qid capacity, [], [])" by (simp add: queue_ok_def NewMessageQueue_def)
  ultimately have "queue_ok (foldl queue_step (NewMessageQueue qid capacity, [], []) ops)" by blast
  then show ?thesis by (auto simp: queue_ok_def)
qed

section \<open>Shared frames\<close>

text \<open>The segments of a manager have the numbers below the next one, and each has its own frame.\<close>

definition seg_ok :: "int \<Rightarrow> int \<Rightarrow> SharedMemorySegment \<Rightarrow> bool" where
  "seg_ok n i seg \<longleftrightarrow> 1 \<le> i \<and> i < n \<and> seg_PhysicalPFN seg = word_of_int (500 + i)"

definition smm_ok :: "SharedMemoryManager \<Rightarrow> bool" where
  "smm_ok smm \<longleftrightarrow> 1 \<le> smm_NextShmID smm \<and>
     (\<forall>i seg. smm_Segments smm i = Some seg \<longrightarrow> seg_ok (smm_NextShmID smm) i seg)"

lemma CreateSegment_ok:
  assumes ok: "smm_ok smm" and C: "CreateSegment smm n = Some (smm', seg)"
  shows "smm_ok smm'"
proof -
  let ?k = "smm_NextShmID smm"
  have s: "smm_NextShmID smm' = ?k + 1" "smm_Segments smm' = (smm_Segments smm)(?k \<mapsto> seg)" "seg_PhysicalPFN seg = word_of_int (500 + ?k)"
    using C by (auto simp: CreateSegment_def Let_def split: if_splits)
  have "seg_ok (?k + 1) i a" if "smm_Segments smm' i = Some a" for i a
  proof (cases "i = ?k")
    case True
    with that s ok show ?thesis by (simp add: seg_ok_def smm_ok_def)
  next
    case False
    with that s ok have "seg_ok ?k i a" by (simp add: smm_ok_def)
    then show ?thesis by (simp add: seg_ok_def)
  qed
  then show ?thesis using ok by (simp add: smm_ok_def s(1))
qed

lemma Attach_ok: "smm_ok smm \<Longrightarrow> Attach smm pts i pid v r = Some (smm', pts', ok) \<Longrightarrow> smm_ok smm'"
  by (auto simp: smm_ok_def Attach_def split: if_splits option.splits)

lemma smm_frames_distinct:
  assumes "smm_ok smm" "smm_Segments smm i = Some a" "smm_Segments smm j = Some b" "i \<noteq> j" "smm_NextShmID smm < 2 ^ 63"
  shows "seg_PhysicalPFN a \<noteq> seg_PhysicalPFN b"
proof -
  have a: "seg_ok (smm_NextShmID smm) i a" "seg_ok (smm_NextShmID smm) j b" using assms by (auto simp: smm_ok_def)
  have "uint (word_of_int (500 + k) :: u64) = 500 + k" if "1 \<le> k" "k < 2 ^ 63" for k
    using that by (simp only: uint_word_of_int) simp
  then have "uint (seg_PhysicalPFN a) = 500 + i" "uint (seg_PhysicalPFN b) = 500 + j"
    using a assms(5) by (auto simp: seg_ok_def)
  with assms(4) show ?thesis by auto
qed

lemma Attach_translate:
  assumes seg: "smm_Segments smm i = Some seg" and pt: "pts r = Some pt" "pt_PageSize pt = 4096"
    and n: "unat (v div 4096) < length (pt_Entries pt)" "length (pt_Entries pt) < 2 ^ 63"
  obtains smm' pt' where "Attach smm pts i pid v r = Some (smm', pts(r \<mapsto> pt'), True)" "smm_Segments smm' = smm_Segments smm"
    "pt_PageSize pt' = 4096" "length (pt_Entries pt') = length (pt_Entries pt)"
    "\<And>a. a div 4096 = v div 4096 \<Longrightarrow>
       map_option (fst \<circ> snd) (Translate pt' a True) = Some (seg_PhysicalPFN seg * 4096 + a mod 4096)"
proof -
  define pt' where "pt' = pt\<lparr>pt_Entries := (pt_Entries pt)[unat (v div 4096) := mapped_PTE (seg_PhysicalPFN seg) True]\<rparr>"
  have M: "MapPage pt (v div 4096) (seg_PhysicalPFN seg) True = Some pt'"
    unfolding pt'_def by (rule MapPage_in_range[OF n])
  have t: "map_option (fst \<circ> snd) (Translate pt' a True) = Some (seg_PhysicalPFN seg * 4096 + a mod 4096)"
    if "a div 4096 = v div 4096" for a
    using Translate_in_range[of a pt' True] that n pt(2)
    by (simp add: pt'_def access_PTE_def mapped_PTE_def zero_PTE_def Let_def)
  define smm' where "smm' = smm\<lparr>smm_Mappings := (smm_Mappings smm)(i \<mapsto>
      (case smm_Mappings smm i of None \<Rightarrow> [] | Some ms \<Rightarrow> ms) @ [\<lparr>map_PID = pid, map_VirtualAddress = v, map_PageTable = r\<rparr>])\<rparr>"
  have A: "Attach smm pts i pid v r = Some (smm', pts(r \<mapsto> pt'), True)"
    using seg pt M by (simp add: Attach_def smm'_def)
  have "smm_Segments smm' = smm_Segments smm" "pt_PageSize pt' = 4096" "length (pt_Entries pt') = length (pt_Entries pt)"
    using pt(2) by (simp_all add: smm'_def pt'_def)
  from that[OF A this t] show ?thesis .
qed

text \<open>Two processes that attach the same segment share its frame: at every offset of the attached page, the
  address of one and the address of the other translate to the same physical address.\<close>

theorem attached_share_frame:
  assumes "smm_Segments smm i = Some seg" and "r \<noteq> r'"
    and "pts r = Some pt" "pt_PageSize pt = 4096" "unat (v div 4096) < length (pt_Entries pt)" "length (pt_Entries pt) < 2 ^ 63"
    and "pts r' = Some pt'" "pt_PageSize pt' = 4096" "unat (v' div 4096) < length (pt_Entries pt')" "length (pt_Entries pt') < 2 ^ 63"
  shows "\<exists>smm1 pts1 smm2 pts2 qt qt'. Attach smm pts i p v r = Some (smm1, pts1, True) \<and>
     Attach smm1 pts1 i p' v' r' = Some (smm2, pts2, True) \<and> pts2 r = Some qt \<and> pts2 r' = Some qt' \<and>
     (\<forall>a a'. a div 4096 = v div 4096 \<and> a' div 4096 = v' div 4096 \<and> a mod 4096 = a' mod 4096 \<longrightarrow>
        map_option (fst \<circ> snd) (Translate qt a True) = map_option (fst \<circ> snd) (Translate qt' a' True) \<and>
        Translate qt a True \<noteq> None)"
proof -
  obtain smm1 qt where A: "Attach smm pts i p v r = Some (smm1, pts(r \<mapsto> qt), True)" "smm_Segments smm1 = smm_Segments smm"
    "\<And>a. a div 4096 = v div 4096 \<Longrightarrow> map_option (fst \<circ> snd) (Translate qt a True) = Some (seg_PhysicalPFN seg * 4096 + a mod 4096)"
    by (rule Attach_translate[where pts = pts and r = r and pid = p, OF assms(1,3-6)]) blast
  have s1: "smm_Segments smm1 i = Some seg" "(pts(r \<mapsto> qt)) r' = Some pt'" using A(2) assms(1,2,7) by simp_all
  obtain smm2 qt' where B: "Attach smm1 (pts(r \<mapsto> qt)) i p' v' r' = Some (smm2, (pts(r \<mapsto> qt))(r' \<mapsto> qt'), True)"
    "\<And>a. a div 4096 = v' div 4096 \<Longrightarrow> map_option (fst \<circ> snd) (Translate qt' a True) = Some (seg_PhysicalPFN seg * 4096 + a mod 4096)"
    by (rule Attach_translate[where pts = "pts(r \<mapsto> qt)" and r = r' and pid = p', OF s1 assms(8-10)]) blast
  have eq: "map_option (fst \<circ> snd) (Translate qt a True) = map_option (fst \<circ> snd) (Translate qt' a' True) \<and> Translate qt a True \<noteq> None"
    if "a div 4096 = v div 4096 \<and> a' div 4096 = v' div 4096 \<and> a mod 4096 = a' mod 4096" for a a'
    using A(3)[of a] B(2)[of a'] that by (metis map_option_is_None option.distinct(1))
  have "((pts(r \<mapsto> qt))(r' \<mapsto> qt')) r = Some qt" "((pts(r \<mapsto> qt))(r' \<mapsto> qt')) r' = Some qt'" using assms(2) by simp_all
  with A(1) B(1) eq show ?thesis by blast
qed

definition example_pt :: PageTable where
  "example_pt = \<lparr>pt_PID = 1, pt_PageSize = 4096, pt_Entries = replicate 16 zero_PTE, pt_NumPages = 16\<rparr>"

definition example_smm :: SharedMemoryManager where
  "example_smm = (case CreateSegment NewSharedMemoryManager 64 of None \<Rightarrow> NewSharedMemoryManager | Some (smm, _) \<Rightarrow> smm)"

theorem attached_share_frame_witness:
  "\<exists>smm1 pts1 smm2 pts2 qt qt'. Attach example_smm [0 \<mapsto> example_pt, 1 \<mapsto> example_pt] 1 100 0x3000 0 = Some (smm1, pts1, True) \<and>
     Attach smm1 pts1 1 200 0x8000 1 = Some (smm2, pts2, True) \<and> pts2 0 = Some qt \<and> pts2 1 = Some qt' \<and>
     map_option (fst \<circ> snd) (Translate qt 0x3010 True) = map_option (fst \<circ> snd) (Translate qt' 0x8010 True)"
proof -
  obtain seg where seg: "smm_Segments example_smm 1 = Some seg"
    by (simp add: example_smm_def CreateSegment_def NewSharedMemoryManager_def Let_def)
  have p: "pt_PageSize example_pt = 4096" "length (pt_Entries example_pt) = 16" by (simp_all add: example_pt_def)
  have o: "(0x3010 :: u64) div 4096 = 0x3000 div 4096" "(0x8010 :: u64) div 4096 = 0x8000 div 4096"
    "(0x3010 :: u64) mod 4096 = 0x8010 mod 4096" by simp_all
  let ?pts = "[0 \<mapsto> example_pt, 1 \<mapsto> example_pt]"
  have "\<exists>smm1 pts1 smm2 pts2 qt qt'. Attach example_smm ?pts 1 100 0x3000 0 = Some (smm1, pts1, True) \<and>
     Attach smm1 pts1 1 200 0x8000 1 = Some (smm2, pts2, True) \<and> pts2 0 = Some qt \<and> pts2 1 = Some qt' \<and>
     (\<forall>a a'. a div 4096 = 0x3000 div 4096 \<and> a' div 4096 = 0x8000 div 4096 \<and> a mod 4096 = a' mod 4096 \<longrightarrow>
        map_option (fst \<circ> snd) (Translate qt a True) = map_option (fst \<circ> snd) (Translate qt' a' True) \<and>
        Translate qt a True \<noteq> None)"
    by (rule attached_share_frame[where pt = example_pt and pt' = example_pt, OF seg]) (use p in simp_all)
  with o show ?thesis by blast
qed

text \<open>What a process writes to a segment another one reads, up to the size of the segment.\<close>

lemma go_copy_length [simp]: "length (go_copy d s) = length d"
  by (simp add: go_copy_def)

lemma ReadSync_WriteSync:
  assumes "sem_value (seg_Semaphore seg) = 1" "sem_waiters (seg_Semaphore seg) = []" "length data \<le> length (seg_PhysicalData seg)"
  shows "\<exists>seg1 seg2. WriteSync seg g data = Some seg1 \<and>
    ReadSync seg1 h = Some (seg2, data @ drop (length data) (seg_PhysicalData seg)) \<and>
    sem_value (seg_Semaphore seg2) = 1 \<and> sem_waiters (seg_Semaphore seg2) = []"
  using assms by (simp add: WriteSync_def ReadSync_def Sem_Wait_def Sem_Signal_def go_copy_def Let_def)

text \<open>A page outside the table is reported as attached although nothing is mapped.\<close>

lemma attach_out_of_range:
  "map_option (snd \<circ> snd) (Attach example_smm [0 \<mapsto> example_pt] 1 100 0x10000 0) = Some True \<and>
   map_option (\<lambda>(_, pts, _). pts 0) (Attach example_smm [0 \<mapsto> example_pt] 1 100 0x10000 0) = Some (Some example_pt)"
  by code_simp

end
