(* ===== verification/Pipe.thy ===== *)
theory Pipe
  imports Sync_Cond
begin

text \<open>
  The pipe of \<open>pkg/ipc/pipe.go\<close> and the goroutines that use it. Every method holds the mutex from its
  start to its return except while it waits on one of the two condition variables, so the
  model runs a method from one such point to the next as one step. Its condition variables are those
  of \<open>Sync_Cond\<close>.
\<close>

section \<open>The pipe\<close>

type_synonym byte = "8 word"

datatype pipe_error = ErrPipeClosed

record UnixPipe =
  pp_Capacity :: int
  pp_Buffer :: "byte list"
  pp_ReadClosed :: bool
  pp_WriteClosed :: bool
  pp_TotalWritten :: int
  pp_TotalRead :: int

definition NewUnixPipe :: "int \<Rightarrow> UnixPipe" where
  "NewUnixPipe capacity =
     (let capacity = (if capacity \<le> 0 then 4096 else capacity)
      in \<lparr>pp_Capacity = capacity, pp_Buffer = [], pp_ReadClosed = False, pp_WriteClosed = False,
          pp_TotalWritten = 0, pp_TotalRead = 0\<rparr>)"

text \<open>A write runs until it returns a count and an error or until it has to wait for room with the rest
  of its data. Every byte it appends signals a reader.\<close>

datatype write_result = WReturn int "pipe_error option" | WBlock "byte list" int

fun write_loop :: "UnixPipe \<Rightarrow> byte list \<Rightarrow> int \<Rightarrow> UnixPipe \<times> write_result" where
  "write_loop p [] written = (p, WReturn written None)"
| "write_loop p (b # data) written =
     (if int (length (pp_Buffer p)) \<ge> pp_Capacity p \<and> \<not> pp_ReadClosed p then (p, WBlock (b # data) written)
      else if pp_ReadClosed p then (p, WReturn written (Some ErrPipeClosed))
      else write_loop (p\<lparr>pp_Buffer := pp_Buffer p @ [b], pp_TotalWritten := pp_TotalWritten p + 1\<rparr>) data (written + 1))"

definition Write :: "UnixPipe \<Rightarrow> byte list \<Rightarrow> UnixPipe \<times> write_result" where
  "Write p data = (if pp_ReadClosed p then (p, WReturn 0 (Some ErrPipeClosed)) else write_loop p data 0)"

text \<open>A read into \<open>n\<close> bytes waits while the pipe is empty and open for writing. A read that
  returns a byte or has found bytes signals a writer; one at the end of the stream does not.\<close>

datatype read_result = RBlock | REof | RBytes "byte list"

definition Read :: "UnixPipe \<Rightarrow> nat \<Rightarrow> UnixPipe \<times> read_result" where
  "Read p n =
     (if pp_Buffer p = [] \<and> \<not> pp_WriteClosed p then (p, RBlock)
      else if pp_Buffer p = [] \<and> pp_WriteClosed p then (p, REof)
      else let toRead = (if n > length (pp_Buffer p) then length (pp_Buffer p) else n)
           in (p\<lparr>pp_Buffer := drop toRead (pp_Buffer p), pp_TotalRead := pp_TotalRead p + int toRead\<rparr>,
               RBytes (take toRead (pp_Buffer p))))"

definition CloseWrite :: "UnixPipe \<Rightarrow> UnixPipe" where
  "CloseWrite p = p\<lparr>pp_WriteClosed := True\<rparr>"

definition CloseRead :: "UnixPipe \<Rightarrow> UnixPipe" where
  "CloseRead p = p\<lparr>pp_ReadClosed := True\<rparr>"

section \<open>Goroutines\<close>

text \<open>A goroutine is about to call a method, waits on a condition variable, has been woken, or has
  returned. The logs collect all bytes in the order of the appends and of the reads.\<close>

datatype pipe_thread =
    WStart "byte list" | WWait "byte list" int | WAwake "byte list" int | WDone int "pipe_error option"
  | RStart nat | RWait nat | RAwake nat | RDone "byte list"
  | CWStart | CRStart | CDone

record pipe_system =
  ps_pipe :: UnixPipe
  ps_threads :: "pipe_thread list"
  ps_in :: "byte list"
  ps_out :: "byte list"

fun write_thread :: "write_result \<Rightarrow> pipe_thread" where
  "write_thread (WReturn n e) = WDone n e"
| "write_thread (WBlock rest n) = WWait rest n"

fun read_thread :: "nat \<Rightarrow> read_result \<Rightarrow> pipe_thread" where
  "read_thread n RBlock = RWait n"
| "read_thread n REof = RDone []"
| "read_thread n (RBytes bs) = RDone bs"

fun read_bytes :: "read_result \<Rightarrow> byte list" where
  "read_bytes (RBytes bs) = bs"
| "read_bytes _ = []"

fun is_RBytes :: "read_result \<Rightarrow> bool" where
  "is_RBytes (RBytes bs) = True"
| "is_RBytes _ = False"

fun reader_waits :: "pipe_thread \<Rightarrow> bool" where
  "reader_waits (RWait n) = True"
| "reader_waits _ = False"

fun writer_waits :: "pipe_thread \<Rightarrow> bool" where
  "writer_waits (WWait d n) = True"
| "writer_waits _ = False"

fun awake :: "pipe_thread \<Rightarrow> pipe_thread" where
  "awake (RWait n) = RAwake n"
| "awake (WWait d n) = WAwake d n"
| "awake t = t"

text \<open>The segment of a method that a goroutine runs: the pipe and the result.\<close>

fun write_segment :: "UnixPipe \<Rightarrow> pipe_thread \<Rightarrow> (UnixPipe \<times> write_result) option" where
  "write_segment p (WStart d) = Some (Write p d)"
| "write_segment p (WAwake d n) = Some (write_loop p d n)"
| "write_segment p _ = None"

fun read_segment :: "UnixPipe \<Rightarrow> pipe_thread \<Rightarrow> (nat \<times> UnixPipe \<times> read_result) option" where
  "read_segment p (RStart n) = Some (n, Read p n)"
| "read_segment p (RAwake n) = Some (n, Read p n)"
| "read_segment p _ = None"

inductive pipe_step :: "pipe_system \<Rightarrow> pipe_system \<Rightarrow> bool" where
  step_write: "i < length (ps_threads s) \<Longrightarrow> write_segment (ps_pipe s) (ps_threads s ! i) = Some (p', r) \<Longrightarrow>
    new = drop (length (pp_Buffer (ps_pipe s))) (pp_Buffer p') \<Longrightarrow>
    signals reader_waits awake (length new) ((ps_threads s)[i := write_thread r]) ts' \<Longrightarrow>
    pipe_step s (s\<lparr>ps_pipe := p', ps_threads := ts', ps_in := ps_in s @ new\<rparr>)"
| step_read: "i < length (ps_threads s) \<Longrightarrow> read_segment (ps_pipe s) (ps_threads s ! i) = Some (n, p', r) \<Longrightarrow>
    signals writer_waits awake (if is_RBytes r then 1 else 0) ((ps_threads s)[i := read_thread n r]) ts' \<Longrightarrow>
    pipe_step s (s\<lparr>ps_pipe := p', ps_threads := ts', ps_out := ps_out s @ read_bytes r\<rparr>)"
| step_close_write: "i < length (ps_threads s) \<Longrightarrow> ps_threads s ! i = CWStart \<Longrightarrow>
    pipe_step s (s\<lparr>ps_pipe := CloseWrite (ps_pipe s), ps_threads := broadcast reader_waits awake ((ps_threads s)[i := CDone])\<rparr>)"
| step_close_read: "i < length (ps_threads s) \<Longrightarrow> ps_threads s ! i = CRStart \<Longrightarrow>
    pipe_step s (s\<lparr>ps_pipe := CloseRead (ps_pipe s), ps_threads := broadcast writer_waits awake ((ps_threads s)[i := CDone])\<rparr>)"

text \<open>A goroutine that is about to call a method, and one whose call, if it is a read, has room for a byte.\<close>

definition fresh_thread :: "pipe_thread \<Rightarrow> bool" where
  "fresh_thread t \<longleftrightarrow> (case t of WStart d \<Rightarrow> True | RStart n \<Rightarrow> True | CWStart \<Rightarrow> True | CRStart \<Rightarrow> True | _ \<Rightarrow> False)"

definition asks_bytes :: "pipe_thread \<Rightarrow> bool" where
  "asks_bytes t \<longleftrightarrow> (case t of RStart n \<Rightarrow> 0 < n | _ \<Rightarrow> True)"

definition pipe_init :: "int \<Rightarrow> pipe_thread list \<Rightarrow> pipe_system" where
  "pipe_init capacity ts = \<lparr>ps_pipe = NewUnixPipe capacity, ps_threads = ts, ps_in = [], ps_out = []\<rparr>"

section \<open>Condition variables\<close>

fun reader_awake :: "pipe_thread \<Rightarrow> bool" where
  "reader_awake (RAwake n) = True"
| "reader_awake _ = False"

fun writer_awake :: "pipe_thread \<Rightarrow> bool" where
  "writer_awake (WAwake d n) = True"
| "writer_awake _ = False"

fun thread_ok :: "pipe_thread \<Rightarrow> bool" where
  "thread_ok (WWait d n) = (d \<noteq> [])"
| "thread_ok (WAwake d n) = (d \<noteq> [])"
| "thread_ok (RStart n) = (0 < n)"
| "thread_ok (RWait n) = (0 < n)"
| "thread_ok (RAwake n) = (0 < n)"
| "thread_ok _ = True"

lemma awake_ok: "thread_ok t \<Longrightarrow> thread_ok (awake t)"
  by (cases t) auto

lemma awake_other:
  "reader_waits t \<Longrightarrow> writer_waits (awake t) = writer_waits t" "reader_waits t \<Longrightarrow> writer_awake (awake t) = writer_awake t"
  "writer_waits t \<Longrightarrow> reader_waits (awake t) = reader_waits t" "writer_waits t \<Longrightarrow> reader_awake (awake t) = reader_awake t"
  by (cases t; simp)+

interpretation notEmpty: cond_var reader_waits awake reader_awake
proof
  fix t show "reader_waits t \<Longrightarrow> \<not> reader_waits (awake t) \<and> reader_awake (awake t) \<and> \<not> reader_awake t" by (cases t) auto
qed

interpretation notFull: cond_var writer_waits awake writer_awake
proof
  fix t show "writer_waits t \<Longrightarrow> \<not> writer_waits (awake t) \<and> writer_awake (awake t) \<and> \<not> writer_awake t" by (cases t) auto
qed

text \<open>Signals to readers: the writers stay, and every signal has found a reader if one still waits.\<close>

lemma signals_readers:
  assumes "signals reader_waits awake k ts ts'"
  shows "cnt writer_waits ts' = cnt writer_waits ts" "cnt writer_awake ts' = cnt writer_awake ts"
    "cnt reader_waits ts' \<le> cnt reader_waits ts"
    "0 < cnt reader_waits ts' \<Longrightarrow> cnt reader_awake ts' = cnt reader_awake ts + k"
    "\<forall>t\<in>set ts. thread_ok t \<Longrightarrow> \<forall>t\<in>set ts'. thread_ok t"
  using signals_keep[OF assms] awake_other(1,2) notEmpty.signals_fewer[OF assms] notEmpty.signals_woken[OF assms]
    signals_all[OF assms, of thread_ok] awake_ok by blast+

text \<open>Signals to writers, likewise.\<close>

lemma signals_writers:
  assumes "signals writer_waits awake k ts ts'"
  shows "cnt reader_waits ts' = cnt reader_waits ts" "cnt reader_awake ts' = cnt reader_awake ts"
    "cnt writer_waits ts' \<le> cnt writer_waits ts"
    "0 < cnt writer_waits ts' \<Longrightarrow> cnt writer_awake ts' = cnt writer_awake ts + k"
    "\<forall>t\<in>set ts. thread_ok t \<Longrightarrow> \<forall>t\<in>set ts'. thread_ok t"
  using signals_keep[OF assms] awake_other(3,4) notFull.signals_fewer[OF assms] notFull.signals_woken[OF assms]
    signals_all[OF assms, of thread_ok] awake_ok by blast+

section \<open>The invariant\<close>

definition pipe_ok :: "pipe_system \<Rightarrow> bool" where
  "pipe_ok s \<longleftrightarrow> (let p = ps_pipe s; ts = ps_threads s in
     0 < pp_Capacity p \<and> int (length (pp_Buffer p)) \<le> pp_Capacity p \<and>
     ps_in s = ps_out s @ pp_Buffer p \<and> pp_TotalWritten p = int (length (ps_in s)) \<and>
     pp_TotalRead p = int (length (ps_out s)) \<and> (\<forall>t\<in>set ts. thread_ok t) \<and>
     (0 < cnt reader_waits ts \<longrightarrow> length (pp_Buffer p) \<le> cnt reader_awake ts \<and> \<not> pp_WriteClosed p) \<and>
     (0 < cnt writer_waits ts \<longrightarrow> (pp_Buffer p \<noteq> [] \<or> 0 < cnt writer_awake ts) \<and> \<not> pp_ReadClosed p))"

lemma pipe_okD:
  assumes "pipe_ok s"
  shows "0 < pp_Capacity (ps_pipe s)" "int (length (pp_Buffer (ps_pipe s))) \<le> pp_Capacity (ps_pipe s)"
    "ps_in s = ps_out s @ pp_Buffer (ps_pipe s)" "pp_TotalWritten (ps_pipe s) = int (length (ps_in s))"
    "pp_TotalRead (ps_pipe s) = int (length (ps_out s))" "t \<in> set (ps_threads s) \<Longrightarrow> thread_ok t"
    "0 < cnt reader_waits (ps_threads s) \<Longrightarrow> length (pp_Buffer (ps_pipe s)) \<le> cnt reader_awake (ps_threads s)"
    "0 < cnt reader_waits (ps_threads s) \<Longrightarrow> \<not> pp_WriteClosed (ps_pipe s)"
    "0 < cnt writer_waits (ps_threads s) \<Longrightarrow> pp_Buffer (ps_pipe s) \<noteq> [] \<or> 0 < cnt writer_awake (ps_threads s)"
    "0 < cnt writer_waits (ps_threads s) \<Longrightarrow> \<not> pp_ReadClosed (ps_pipe s)"
  using assms by (auto simp: pipe_ok_def Let_def)

text \<open>What a segment of a write does.\<close>

lemma write_loop_spec:
  assumes "write_loop p d n = (p', r)" "int (length (pp_Buffer p)) \<le> pp_Capacity p" "0 < pp_Capacity p"
  shows "\<exists>new. pp_Buffer p' = pp_Buffer p @ new \<and>
     p' = p\<lparr>pp_Buffer := pp_Buffer p @ new, pp_TotalWritten := pp_TotalWritten p + int (length new)\<rparr> \<and>
     int (length (pp_Buffer p')) \<le> pp_Capacity p \<and> thread_ok (write_thread r) \<and>
     (writer_waits (write_thread r) \<longrightarrow> pp_Buffer p' \<noteq> [] \<and> \<not> pp_ReadClosed p) \<and>
     (d \<noteq> [] \<and> \<not> pp_ReadClosed p \<longrightarrow> pp_Buffer p' \<noteq> [])"
  using assms
proof (induction p d n rule: write_loop.induct)
  case (1 p n)
  then show ?case by auto
next
  case (2 p b d n)
  let ?q = "p\<lparr>pp_Buffer := pp_Buffer p @ [b], pp_TotalWritten := pp_TotalWritten p + 1\<rparr>"
  consider "int (length (pp_Buffer p)) \<ge> pp_Capacity p" "\<not> pp_ReadClosed p" | "pp_ReadClosed p"
    | "int (length (pp_Buffer p)) < pp_Capacity p" "\<not> pp_ReadClosed p" by linarith
  then show ?case
  proof cases
    case 1
    then have "p' = p" "r = WBlock (b # d) n" using 2(2) by auto
    then show ?thesis using 1 2(3,4) by auto
  next
    case closed: 2
    then have "p' = p" "r = WReturn n (Some ErrPipeClosed)" using 2(2) by auto
    then show ?thesis using closed 2(3,4) by auto
  next
    case 3
    then have q: "write_loop ?q d (n + 1) = (p', r)" "int (length (pp_Buffer ?q)) \<le> pp_Capacity ?q" "0 < pp_Capacity ?q"
      "\<not> (pp_Capacity p \<le> int (length (pp_Buffer p)) \<and> \<not> pp_ReadClosed p)" using 2(2,4) by simp_all
    from 2(1)[OF q(4) 3(2) q(1-3)] obtain new where N: "pp_Buffer p' = pp_Buffer ?q @ new"
       "p' = ?q\<lparr>pp_Buffer := pp_Buffer ?q @ new, pp_TotalWritten := pp_TotalWritten ?q + int (length new)\<rparr>"
       "int (length (pp_Buffer p')) \<le> pp_Capacity ?q" "thread_ok (write_thread r)" by blast
    then show ?thesis using 3 by (intro exI[of _ "b # new"]) simp
  qed
qed

lemma write_segment_spec:
  assumes ok: "pipe_ok s" and i: "i < length (ps_threads s)"
    and S: "write_segment (ps_pipe s) (ps_threads s ! i) = Some (p', r)"
  defines "p \<equiv> ps_pipe s" and "t \<equiv> ps_threads s ! i"
  shows "\<exists>new. p' = p\<lparr>pp_Buffer := pp_Buffer p @ new, pp_TotalWritten := pp_TotalWritten p + int (length new)\<rparr> \<and>
     int (length (pp_Buffer p @ new)) \<le> pp_Capacity p \<and> thread_ok (write_thread r) \<and>
     (writer_waits (write_thread r) \<longrightarrow> pp_Buffer p @ new \<noteq> [] \<and> \<not> pp_ReadClosed p) \<and>
     (writer_awake t \<and> \<not> pp_ReadClosed p \<longrightarrow> pp_Buffer p @ new \<noteq> [])"
proof -
  note c = pipe_okD(1,2)[OF ok, folded p_def]
  have tok: "thread_ok t" using pipe_okD(6)[OF ok, of t] i by (simp add: t_def)
  consider d where "t = WStart d" "pp_ReadClosed p" | d where "t = WStart d" "write_loop p d 0 = (p', r)"
    | d n where "t = WAwake d n" "write_loop p d n = (p', r)"
    using S unfolding p_def[symmetric] t_def[symmetric] by (cases t) (auto simp: Write_def split: if_splits)
  then show ?thesis
  proof cases
    case 1
    then have "p' = p" "r = WReturn 0 (Some ErrPipeClosed)"
      using S unfolding p_def[symmetric] t_def[symmetric] by (simp_all add: Write_def)
    then show ?thesis using c 1 by (intro exI[of _ "[]"]) simp
  next
    case 2
    from write_loop_spec[OF 2(2) c(2,1)] 2(1) show ?thesis by auto
  next
    case 3
    then have "d \<noteq> []" using tok by simp
    with write_loop_spec[OF 3(2) c(2,1)] 3(1) show ?thesis by auto
  qed
qed

lemma write_segment_thread:
  "write_segment p t = Some x \<Longrightarrow> \<not> reader_waits t \<and> \<not> reader_awake t \<and> \<not> writer_waits t"
  by (cases t) auto

lemma write_thread_kind: "\<not> reader_waits (write_thread r) \<and> \<not> reader_awake (write_thread r) \<and> \<not> writer_awake (write_thread r)"
  by (cases r) auto

lemma read_segment_thread:
  "read_segment p t = Some (n, x) \<Longrightarrow> \<not> reader_waits t \<and> \<not> writer_waits t \<and> \<not> writer_awake t \<and> x = Read p n \<and>
     (thread_ok t \<longrightarrow> 0 < n)"
  by (cases t) auto

lemma read_thread_kind: "\<not> writer_waits (read_thread n r) \<and> \<not> reader_awake (read_thread n r) \<and>
   \<not> writer_awake (read_thread n r) \<and> (0 < n \<longrightarrow> thread_ok (read_thread n r))"
  by (cases r) auto

lemmas broadcast_readers = notEmpty.broadcast_none broadcast_keep[of reader_waits writer_waits awake, OF awake_other(1)]
  broadcast_keep[of reader_waits writer_awake awake, OF awake_other(2)]

lemmas broadcast_writers = notFull.broadcast_none broadcast_keep[of writer_waits reader_waits awake, OF awake_other(3)]
  broadcast_keep[of writer_waits reader_awake awake, OF awake_other(4)]

lemma pipe_okI:
  assumes "0 < pp_Capacity p" "int (length (pp_Buffer p)) \<le> pp_Capacity p" "inl = out @ pp_Buffer p"
    "pp_TotalWritten p = int (length inl)" "pp_TotalRead p = int (length out)" "\<forall>t\<in>set ts. thread_ok t"
    "0 < cnt reader_waits ts \<Longrightarrow> length (pp_Buffer p) \<le> cnt reader_awake ts \<and> \<not> pp_WriteClosed p"
    "0 < cnt writer_waits ts \<Longrightarrow> (pp_Buffer p \<noteq> [] \<or> 0 < cnt writer_awake ts) \<and> \<not> pp_ReadClosed p"
  shows "pipe_ok (s\<lparr>ps_pipe := p, ps_threads := ts, ps_in := inl, ps_out := out\<rparr>)"
  using assms by (simp add: pipe_ok_def Let_def)

lemma write_step_ok:
  assumes ok: "pipe_ok s" and i: "i < length (ps_threads s)"
    and S: "write_segment (ps_pipe s) (ps_threads s ! i) = Some (p', r)"
    and new: "new = drop (length (pp_Buffer (ps_pipe s))) (pp_Buffer p')"
    and G: "signals reader_waits awake (length new) ((ps_threads s)[i := write_thread r]) ts'"
  shows "pipe_ok (s\<lparr>ps_pipe := p', ps_threads := ts', ps_in := ps_in s @ new\<rparr>)"
proof -
  let ?p = "ps_pipe s" and ?ts = "ps_threads s" and ?ts1 = "(ps_threads s)[i := write_thread r]"
  from write_segment_spec[OF ok i S] obtain new' where
    P: "p' = ?p\<lparr>pp_Buffer := pp_Buffer ?p @ new', pp_TotalWritten := pp_TotalWritten ?p + int (length new')\<rparr>"
    "int (length (pp_Buffer ?p @ new')) \<le> pp_Capacity ?p" "thread_ok (write_thread r)"
    "writer_waits (write_thread r) \<longrightarrow> pp_Buffer ?p @ new' \<noteq> [] \<and> \<not> pp_ReadClosed ?p"
    "writer_awake (?ts ! i) \<and> \<not> pp_ReadClosed ?p \<longrightarrow> pp_Buffer ?p @ new' \<noteq> []" by blast
  have nn: "new' = new" using new P(1) by simp
  note k = write_segment_thread[OF S] write_thread_kind[of r]
  note u = cnt_update[OF i, of _ "write_thread r"]
  have r1: "cnt reader_waits ?ts1 = cnt reader_waits ?ts" "cnt reader_awake ?ts1 = cnt reader_awake ?ts"
    using u[of reader_waits] u[of reader_awake] k by simp_all
  note g = signals_readers[OF G]
  have "pipe_ok (s\<lparr>ps_pipe := p', ps_threads := ts', ps_in := ps_in s @ new, ps_out := ps_out s\<rparr>)"
  proof (rule pipe_okI)
    show "\<forall>t\<in>set ts'. thread_ok t" using g(5) all_update[of _ thread_ok, OF _ P(3)] pipe_okD(6)[OF ok] by blast
    show "length (pp_Buffer p') \<le> cnt reader_awake ts' \<and> \<not> pp_WriteClosed p'" if "0 < cnt reader_waits ts'"
      using g(3) g(4)[OF that] r1 that pipe_okD(7,8)[OF ok] P(1) nn by auto
    show "(pp_Buffer p' \<noteq> [] \<or> 0 < cnt writer_awake ts') \<and> \<not> pp_ReadClosed p'" if w: "0 < cnt writer_waits ts'"
    proof (cases "writer_waits (write_thread r)")
      case True
      with P show ?thesis by simp
    next
      case False
      then have "0 < cnt writer_waits ?ts" using w g(1) u[of writer_waits] k by simp
      from pipe_okD(9,10)[OF ok this] have o: "pp_Buffer ?p \<noteq> [] \<or> 0 < cnt writer_awake ?ts" "\<not> pp_ReadClosed ?p" by blast+
      show ?thesis
      proof (cases "writer_awake (?ts ! i)")
        case True
        with P o show ?thesis by simp
      next
        case False
        then have "cnt writer_awake ts' = cnt writer_awake ?ts" using g(2) u[of writer_awake] k by simp
        with o P(1) show ?thesis by auto
      qed
    qed
  qed (use P nn pipe_okD(1-5)[OF ok] in auto)
  then show ?thesis by simp
qed

text \<open>The three outcomes of a read.\<close>

lemma Read_cases:
  assumes "Read p n = (p', r)"
  obtains (block) "pp_Buffer p = []" "\<not> pp_WriteClosed p" "p' = p" "r = RBlock"
  | (eof) "pp_Buffer p = []" "pp_WriteClosed p" "p' = p" "r = REof"
  | (bytes) m where "pp_Buffer p \<noteq> []" "m \<le> length (pp_Buffer p)" "0 < n \<longrightarrow> 0 < m"
      "p' = p\<lparr>pp_Buffer := drop m (pp_Buffer p), pp_TotalRead := pp_TotalRead p + int m\<rparr>"
      "r = RBytes (take m (pp_Buffer p))"
proof (cases "pp_Buffer p = []")
  case True
  show ?thesis
  proof (cases "pp_WriteClosed p")
    case closed: True
    then show ?thesis using assms True by (intro eof) (simp_all add: Read_def)
  next
    case False
    then show ?thesis using assms True by (intro block) (simp_all add: Read_def)
  qed
next
  case False
  then show ?thesis using assms
    by (intro bytes[of "if n > length (pp_Buffer p) then length (pp_Buffer p) else n"]) (auto simp: Read_def Let_def)
qed

lemma read_step_ok:
  assumes ok: "pipe_ok s" and i: "i < length (ps_threads s)"
    and S: "read_segment (ps_pipe s) (ps_threads s ! i) = Some (n, p', r)"
    and G: "signals writer_waits awake (if is_RBytes r then 1 else 0) ((ps_threads s)[i := read_thread n r]) ts'"
  shows "pipe_ok (s\<lparr>ps_pipe := p', ps_threads := ts', ps_out := ps_out s @ read_bytes r\<rparr>)"
proof -
  let ?p = "ps_pipe s" and ?ts = "ps_threads s" and ?ts1 = "(ps_threads s)[i := read_thread n r]"
  note k = read_segment_thread[OF S] read_thread_kind[of n r]
  have R: "Read ?p n = (p', r)" and n: "0 < n" using k pipe_okD(6)[OF ok, of "?ts ! i"] i by auto
  note u = cnt_update[OF i, of _ "read_thread n r"]
  note g = signals_writers[OF G]
  have w1: "cnt writer_waits ?ts1 = cnt writer_waits ?ts" "cnt writer_awake ?ts1 = cnt writer_awake ?ts"
    using u[of writer_waits] u[of writer_awake] k by simp_all
  have a1: "cnt reader_awake ?ts \<le> cnt reader_awake ts' + 1" using g(2) u[of reader_awake] k by (simp split: if_splits)
  have tok: "\<forall>t\<in>set ts'. thread_ok t" using g(5) all_update[of ?ts thread_ok] k n pipe_okD(6)[OF ok] by blast
  have "pipe_ok (s\<lparr>ps_pipe := p', ps_threads := ts', ps_in := ps_in s, ps_out := ps_out s @ read_bytes r\<rparr>)"
    using R
  proof (cases rule: Read_cases)
    case block
    have "0 < cnt writer_waits ts' \<Longrightarrow> 0 < cnt writer_awake ts' \<and> \<not> pp_ReadClosed ?p"
      using g(3,4) w1 pipe_okD(9,10)[OF ok] block by auto
    with block tok pipe_okD(1-5)[OF ok] show ?thesis by (intro pipe_okI) auto
  next
    case eof
    have "0 < cnt writer_waits ts' \<Longrightarrow> 0 < cnt writer_awake ts' \<and> \<not> pp_ReadClosed ?p"
      using g(3,4) w1 pipe_okD(9,10)[OF ok] eof by auto
    moreover have "cnt reader_waits ts' = 0"
      using g(1) u[of reader_waits] k pipe_okD(8)[OF ok] eof by (auto split: if_splits)
    ultimately show ?thesis using eof tok pipe_okD(1-5)[OF ok] by (intro pipe_okI) auto
  next
    case (bytes m)
    have "0 < cnt writer_waits ts' \<Longrightarrow> 0 < cnt writer_awake ts' \<and> \<not> pp_ReadClosed ?p"
      using g(3,4) w1 pipe_okD(10)[OF ok] bytes by auto
    moreover have "length (pp_Buffer ?p) - m \<le> cnt reader_awake ts' \<and> \<not> pp_WriteClosed ?p" if "0 < cnt reader_waits ts'"
    proof -
      have "0 < cnt reader_waits ?ts" using that g(1) u[of reader_waits] k bytes by (simp split: if_splits)
      with pipe_okD(7,8)[OF ok] a1 bytes(3) n show ?thesis by auto
    qed
    moreover have "ps_out s @ pp_Buffer ?p = (ps_out s @ take m (pp_Buffer ?p)) @ drop m (pp_Buffer ?p)" by simp
    ultimately show ?thesis using bytes tok pipe_okD(1-5)[OF ok] by (intro pipe_okI) auto
  qed
  then show ?thesis by simp
qed

lemma close_write_ok:
  assumes ok: "pipe_ok s" and i: "i < length (ps_threads s)" and c: "ps_threads s ! i = CWStart"
  shows "pipe_ok (s\<lparr>ps_pipe := CloseWrite (ps_pipe s), ps_threads := broadcast reader_waits awake ((ps_threads s)[i := CDone])\<rparr>)"
proof -
  note u = cnt_update[OF i, of _ CDone]
  have "pipe_ok (s\<lparr>ps_pipe := CloseWrite (ps_pipe s), ps_threads := broadcast reader_waits awake ((ps_threads s)[i := CDone]),
      ps_in := ps_in s, ps_out := ps_out s\<rparr>)"
  proof (rule pipe_okI)
    show "\<forall>t\<in>set (broadcast reader_waits awake ((ps_threads s)[i := CDone])). thread_ok t"
      by (intro broadcast_all all_update awake_ok) (use pipe_okD(6)[OF ok] in auto)
  qed (use pipe_okD(1-5)[OF ok] pipe_okD(9,10)[OF ok] u[of writer_waits] u[of writer_awake] c
      in \<open>auto simp: CloseWrite_def broadcast_readers\<close>)
  then show ?thesis by simp
qed

lemma close_read_ok:
  assumes ok: "pipe_ok s" and i: "i < length (ps_threads s)" and c: "ps_threads s ! i = CRStart"
  shows "pipe_ok (s\<lparr>ps_pipe := CloseRead (ps_pipe s), ps_threads := broadcast writer_waits awake ((ps_threads s)[i := CDone])\<rparr>)"
proof -
  note u = cnt_update[OF i, of _ CDone]
  have "pipe_ok (s\<lparr>ps_pipe := CloseRead (ps_pipe s), ps_threads := broadcast writer_waits awake ((ps_threads s)[i := CDone]),
      ps_in := ps_in s, ps_out := ps_out s\<rparr>)"
  proof (rule pipe_okI)
    show "\<forall>t\<in>set (broadcast writer_waits awake ((ps_threads s)[i := CDone])). thread_ok t"
      by (intro broadcast_all all_update awake_ok) (use pipe_okD(6)[OF ok] in auto)
  qed (use pipe_okD(1-5)[OF ok] pipe_okD(7,8)[OF ok] u[of reader_waits] u[of reader_awake] c
      in \<open>auto simp: CloseRead_def broadcast_writers\<close>)
  then show ?thesis by simp
qed

lemma pipe_step_ok:
  assumes "pipe_step s s'" "pipe_ok s"
  shows "pipe_ok s'"
  using assms
proof (cases rule: pipe_step.cases)
  case (step_write i p' r new ts')
  with write_step_ok[OF assms(2) step_write(2-5)] show ?thesis by simp
next
  case (step_read i n p' r ts')
  with read_step_ok[OF assms(2) step_read(2-4)] show ?thesis by simp
next
  case (step_close_write i)
  with close_write_ok[OF assms(2) step_close_write(2,3)] show ?thesis by simp
next
  case (step_close_read i)
  with close_read_ok[OF assms(2) step_close_read(2,3)] show ?thesis by simp
qed

lemma pipe_init_ok: "\<forall>t\<in>set ts. fresh_thread t \<and> asks_bytes t \<Longrightarrow> pipe_ok (pipe_init c ts)"
proof -
  assume f: "\<forall>t\<in>set ts. fresh_thread t \<and> asks_bytes t"
  have "thread_ok t" if "fresh_thread t" "asks_bytes t" for t using that by (cases t) (simp_all add: fresh_thread_def asks_bytes_def)
  moreover have "\<not> reader_waits t" "\<not> writer_waits t" if "fresh_thread t" for t
    using that by (cases t; simp add: fresh_thread_def)+
  ultimately have "\<forall>t\<in>set ts. thread_ok t" "cnt reader_waits ts = 0" "cnt writer_waits ts = 0"
    using f by (auto simp: cnt_def filter_empty_conv)
  then show ?thesis by (simp add: pipe_ok_def pipe_init_def NewUnixPipe_def Let_def)
qed

lemma pipe_reachable_ok:
  assumes "pipe_step\<^sup>*\<^sup>* (pipe_init c ts) s" "\<forall>t\<in>set ts. fresh_thread t \<and> asks_bytes t"
  shows "pipe_ok s"
  using assms by (induction rule: rtranclp_induct) (auto intro: pipe_init_ok pipe_step_ok)

text \<open>The part of the invariant that speaks of the bytes only; it holds for reads of any length.\<close>

definition stream_ok :: "pipe_system \<Rightarrow> bool" where
  "stream_ok s \<longleftrightarrow> (let p = ps_pipe s in
     0 < pp_Capacity p \<and> int (length (pp_Buffer p)) \<le> pp_Capacity p \<and>
     ps_in s = ps_out s @ pp_Buffer p \<and> pp_TotalWritten p = int (length (ps_in s)) \<and>
     pp_TotalRead p = int (length (ps_out s)))"

lemma write_segment_stream:
  assumes "write_segment p t = Some (p', r)" "int (length (pp_Buffer p)) \<le> pp_Capacity p" "0 < pp_Capacity p"
  shows "\<exists>new. p' = p\<lparr>pp_Buffer := pp_Buffer p @ new, pp_TotalWritten := pp_TotalWritten p + int (length new)\<rparr> \<and>
     int (length (pp_Buffer p @ new)) \<le> pp_Capacity p"
proof -
  have "p' = p \<or> (\<exists>d n. write_loop p d n = (p', r))"
    using assms(1) by (cases t) (auto simp: Write_def split: if_splits)
  then show ?thesis
  proof
    assume "p' = p"
    with assms(2) show ?thesis by (intro exI[of _ "[]"]) simp
  next
    assume "\<exists>d n. write_loop p d n = (p', r)"
    then obtain d n where "write_loop p d n = (p', r)" by blast
    from write_loop_spec[OF this assms(2,3)] show ?thesis by auto
  qed
qed

lemma stream_step:
  assumes "pipe_step s s'" "stream_ok s"
  shows "stream_ok s'"
  using assms(1)
proof (cases rule: pipe_step.cases)
  case (step_write i p' r new ts')
  from write_segment_stream[OF step_write(3)] assms(2) obtain new' where
    P: "p' = (ps_pipe s)\<lparr>pp_Buffer := pp_Buffer (ps_pipe s) @ new', pp_TotalWritten := pp_TotalWritten (ps_pipe s) + int (length new')\<rparr>"
    "int (length (pp_Buffer (ps_pipe s) @ new')) \<le> pp_Capacity (ps_pipe s)" by (auto simp: stream_ok_def Let_def)
  moreover have "new = new'" using step_write(4) P(1) by simp
  ultimately show ?thesis using step_write(1) assms(2) by (simp add: stream_ok_def Let_def)
next
  case (step_read i n p' r ts')
  have "Read (ps_pipe s) n = (p', r)" using read_segment_thread[OF step_read(3)] by simp
  then show ?thesis using step_read(1) assms(2) by (cases rule: Read_cases) (auto simp: stream_ok_def Let_def)
qed (use assms(2) in \<open>auto simp: stream_ok_def CloseWrite_def CloseRead_def Let_def\<close>)

lemma stream_reachable:
  assumes "pipe_step\<^sup>*\<^sup>* (pipe_init c ts) s"
  shows "stream_ok s"
  using assms
proof (induction rule: rtranclp_induct)
  case base
  show ?case by (simp add: stream_ok_def pipe_init_def NewUnixPipe_def Let_def)
qed (rule stream_step)

section \<open>What the pipe guarantees\<close>

definition runnable :: "pipe_thread \<Rightarrow> bool" where
  "runnable t \<longleftrightarrow> (case t of WStart d \<Rightarrow> True | WAwake d n \<Rightarrow> True | RStart n \<Rightarrow> True | RAwake n \<Rightarrow> True
     | CWStart \<Rightarrow> True | CRStart \<Rightarrow> True | _ \<Rightarrow> False)"

lemma stuckI:
  assumes "\<forall>t\<in>set (ps_threads s). \<not> runnable t"
  shows "\<nexists>s'. pipe_step s s'"
proof
  assume "\<exists>s'. pipe_step s s'"
  then obtain s' where "pipe_step s s'" by blast
  then have "\<exists>i<length (ps_threads s). runnable (ps_threads s ! i)"
  proof cases
    case (step_write i p' r new ts')
    then show ?thesis by (cases "ps_threads s ! i") (auto simp: runnable_def)
  next
    case (step_read i n p' r ts')
    then show ?thesis by (cases "ps_threads s ! i") (auto simp: runnable_def)
  qed (auto simp: runnable_def)
  with assms show False by (meson nth_mem)
qed

lemma runnable_cases:
  assumes "runnable t"
  obtains (wr) "write_segment p t \<noteq> None" | (rd) "read_segment p t \<noteq> None" | (cw) "t = CWStart" | (cr) "t = CRStart"
  using assms by (cases t) (auto simp: runnable_def)

lemma runnable_steps:
  assumes i: "i < length (ps_threads s)" and "runnable (ps_threads s ! i)"
  shows "\<exists>s'. pipe_step s s'"
  using assms(2)
proof (cases rule: runnable_cases[where p = "ps_pipe s"])
  case wr
  then obtain p' r where S: "write_segment (ps_pipe s) (ps_threads s ! i) = Some (p', r)" by auto
  obtain ts' where "signals reader_waits awake (length (drop (length (pp_Buffer (ps_pipe s))) (pp_Buffer p')))
      ((ps_threads s)[i := write_thread r]) ts'" using signals_total by blast
  from step_write[OF i S refl this] show ?thesis by blast
next
  case rd
  then obtain n p' r where S: "read_segment (ps_pipe s) (ps_threads s ! i) = Some (n, p', r)" by auto
  obtain ts' where "signals writer_waits awake (if is_RBytes r then 1 else 0) ((ps_threads s)[i := read_thread n r]) ts'"
    using signals_total by blast
  from step_read[OF i S this] show ?thesis by blast
qed (use step_close_write[OF i] step_close_read[OF i] in blast)+

text \<open>A run that computes.\<close>

definition run_thread :: "pipe_system \<Rightarrow> nat \<Rightarrow> pipe_system" where
  "run_thread s i = (let p = ps_pipe s; ts = ps_threads s; t = ts ! i in
     case write_segment p t of
       Some (p', r) \<Rightarrow> (let new = drop (length (pp_Buffer p)) (pp_Buffer p') in
         s\<lparr>ps_pipe := p', ps_threads := (wake_first reader_waits awake ^^ length new) (ts[i := write_thread r]), ps_in := ps_in s @ new\<rparr>)
     | None \<Rightarrow> (case read_segment p t of
         Some (n, p', r) \<Rightarrow>
           s\<lparr>ps_pipe := p', ps_threads := (wake_first writer_waits awake ^^ (if is_RBytes r then 1 else 0)) (ts[i := read_thread n r]),
             ps_out := ps_out s @ read_bytes r\<rparr>
       | None \<Rightarrow> if t = CWStart then s\<lparr>ps_pipe := CloseWrite p, ps_threads := broadcast reader_waits awake (ts[i := CDone])\<rparr>
                 else s\<lparr>ps_pipe := CloseRead p, ps_threads := broadcast writer_waits awake (ts[i := CDone])\<rparr>))"

fun pipe_exec :: "pipe_system \<Rightarrow> nat list \<Rightarrow> pipe_system option" where
  "pipe_exec s [] = Some s"
| "pipe_exec s (i # is) =
     (if i < length (ps_threads s) \<and> runnable (ps_threads s ! i) then pipe_exec (run_thread s i) is else None)"

lemma run_thread_step:
  assumes i: "i < length (ps_threads s)" and r: "runnable (ps_threads s ! i)"
  shows "pipe_step s (run_thread s i)"
proof (cases "write_segment (ps_pipe s) (ps_threads s ! i)")
  case (Some x)
  then obtain p' r where "write_segment (ps_pipe s) (ps_threads s ! i) = Some (p', r)" by (cases x) auto
  from step_write[OF i this refl signals_first] this show ?thesis by (simp add: run_thread_def Let_def)
next
  case None
  show ?thesis
  proof (cases "read_segment (ps_pipe s) (ps_threads s ! i)")
    case (Some x)
    then obtain n p' r where R: "read_segment (ps_pipe s) (ps_threads s ! i) = Some (n, p', r)" by (cases x) auto
    from step_read[OF i this signals_first] this None show ?thesis by (simp add: run_thread_def Let_def)
  next
    case unread: None
    have "ps_threads s ! i = CWStart \<or> ps_threads s ! i = CRStart"
      using r None unread by (cases "ps_threads s ! i") (auto simp: runnable_def)
    then show ?thesis using step_close_write[OF i] step_close_read[OF i] None unread by (auto simp: run_thread_def Let_def)
  qed
qed

lemma pipe_exec_steps: "pipe_exec s is = Some s' \<Longrightarrow> pipe_step\<^sup>*\<^sup>* s s'"
proof (induction s "is" rule: pipe_exec.induct)
  case (2 s i "is")
  then have "pipe_step s (run_thread s i)" "pipe_step\<^sup>*\<^sup>* (run_thread s i) s'"
    by (auto intro: run_thread_step split: if_splits)
  then show ?case by (rule converse_rtranclp_into_rtranclp)
qed simp





text \<open>A read of no bytes may take the signal of a write and leave the byte: another reader then waits on a pipe with a byte
  in it, and no goroutine can move.\<close>

lemma empty_read_steals_signal:
  "\<exists>s. pipe_step\<^sup>*\<^sup>* (pipe_init 2 [RStart 0, RStart 1, WStart [7]]) s \<and> (\<nexists>s'. pipe_step s s') \<and>
     ps_threads s = [RDone [], RWait 1, WDone 1 None] \<and> pp_Buffer (ps_pipe s) = [7]"
proof -
  let ?ts = "[RStart 0, RStart 1, WStart [7]]"
  have "case pipe_exec (pipe_init 2 ?ts) [0, 1, 2, 0] of None \<Rightarrow> False | Some s \<Rightarrow>
      ps_threads s = [RDone [], RWait 1, WDone 1 None] \<and> (\<forall>t\<in>set (ps_threads s). \<not> runnable t) \<and> pp_Buffer (ps_pipe s) = [7]"
    by code_simp
  then obtain s where s: "pipe_exec (pipe_init 2 ?ts) [0, 1, 2, 0] = Some s" "\<forall>t\<in>set (ps_threads s). \<not> runnable t"
    "ps_threads s = [RDone [], RWait 1, WDone 1 None]" "pp_Buffer (ps_pipe s) = [7]" by (auto split: option.splits)
  from pipe_exec_steps[OF s(1)] stuckI[OF s(2)] s(3,4) show ?thesis by blast
qed

text \<open>A read that frees several bytes wakes one writer only. In a pipe for two bytes with two waiting
  writers, a read of both bytes wakes one of them, which writes its only byte; the other
  writer then waits although there is room for its byte, and no goroutine can move.\<close>

theorem writer_left_waiting:
  "\<exists>s. pipe_step\<^sup>*\<^sup>* (pipe_init 2 [WStart [1, 2], WStart [3], WStart [4], RStart 2]) s \<and> (\<nexists>s'. pipe_step s s') \<and>
     ps_threads s = [WDone 2 None, WDone 1 None, WWait [4] 0, RDone [1, 2]] \<and>
     int (length (pp_Buffer (ps_pipe s))) < pp_Capacity (ps_pipe s)"
proof -
  let ?ts = "[WStart [1, 2], WStart [3], WStart [4], RStart 2]"
  have "case pipe_exec (pipe_init 2 ?ts) [0, 1, 2, 3, 1] of None \<Rightarrow> False | Some s \<Rightarrow>
      ps_threads s = [WDone 2 None, WDone 1 None, WWait [4] 0, RDone [1, 2]] \<and>
      (\<forall>t\<in>set (ps_threads s). \<not> runnable t) \<and> int (length (pp_Buffer (ps_pipe s))) < pp_Capacity (ps_pipe s)" by code_simp
  then obtain s where s: "pipe_exec (pipe_init 2 ?ts) [0, 1, 2, 3, 1] = Some s" "\<forall>t\<in>set (ps_threads s). \<not> runnable t"
    "ps_threads s = [WDone 2 None, WDone 1 None, WWait [4] 0, RDone [1, 2]]"
    "int (length (pp_Buffer (ps_pipe s))) < pp_Capacity (ps_pipe s)" by (auto split: option.splits)
  from pipe_exec_steps[OF s(1)] stuckI[OF s(2)] s(3,4) show ?thesis by blast
qed

text \<open>A write to a pipe whose write end is closed succeeds: the closed flag is never read by a write.\<close>

lemma write_after_close: "Write (CloseWrite (NewUnixPipe 2)) [7] =
   ((CloseWrite (NewUnixPipe 2))\<lparr>pp_Buffer := [7], pp_TotalWritten := 1\<rparr>, WReturn 1 None)"
  by (simp add: Write_def CloseWrite_def NewUnixPipe_def)

end
