(* ===== verification/OS_Kernel.thy ===== *)
theory OS_Kernel
  imports Sched_FIFO Sched_SJF Sched_RR Sched_Lottery Process_Lifecycle Trap_Gate Page_Replacement Ipc Pipe
begin

text \<open>
  The kernel of \<open>pkg/kernel/os_kernel.go\<close>, which holds one of each component and drives the scheduler, and
  the isolation experiment of \<open>pkg/kernel/isolation.go\<close>. The scheduler is a value of an interface in the
  code: here its state is a type parameter and its methods are arguments, with the contract of the
  locale \<open>cpu_scheduler\<close>. The running process is a pointer into the process table and is named by its number.
\<close>

section \<open>The kernel\<close>

datatype kernel_line =
    LineSwitch int "int option" int string
  | LineExecuting int int u64
  | LineIdle int
  | LineSyscall int int int "syscall_error option"

record 's OSKernel =
  k_CPU :: HardwareCPU
  k_ContextSwitcher :: ContextSwitcher
  k_Scheduler :: 's
  k_ProcManager :: ProcessManager
  k_Syscalls :: SyscallDispatcher
  k_Traps :: TrapTable
  k_MemManager :: MemoryManager
  k_ShmManager :: SharedMemoryManager
  k_ActivePipes :: "int \<rightharpoonup> UnixPipe"
  k_RunningProcess :: "int option"
  k_CurrentTick :: int
  k_EventHistory :: "kernel_line list"

definition NewOSKernel :: "('s \<Rightarrow> Process \<Rightarrow> 's) \<Rightarrow> 's \<Rightarrow> 's OSKernel option" where
  "NewOSKernel addProcess sched =
     (case NewProcessManager of
        None \<Rightarrow> None
      | Some pm \<Rightarrow> Some
          \<lparr>k_CPU = NewHardwareCPU, k_ContextSwitcher = NewContextSwitcher,
           k_Scheduler = addProcess sched (NewProcess 1 ''init'' 0 100), k_ProcManager = pm,
           k_Syscalls = NewSyscallDispatcher, k_Traps = NewTrapTable,
           k_MemManager = NewMemoryManager 8 PolicyClock 8, k_ShmManager = NewSharedMemoryManager,
           k_ActivePipes = Map.empty, k_RunningProcess = map_option up_PID (pm_Processes pm 1),
           k_CurrentTick = 0, k_EventHistory = []\<rparr>)"

text \<open>The kernel that a nil scheduler gives.\<close>

definition DefaultOSKernel :: "SliceSched OSKernel option" where
  "DefaultOSKernel = NewOSKernel RR_AddProcess (NewRRScheduler 2)"

definition Step ::
  "('s \<Rightarrow> int \<Rightarrow> ('s \<times> nat option \<times> bool) option) \<Rightarrow> ('s \<Rightarrow> Process list) \<Rightarrow> 's OSKernel \<Rightarrow> ('s OSKernel \<times> kernel_line) option" where
  "Step tick procs k =
     (let t = k_CurrentTick k + 1 in
      case tick (k_Scheduler k) t of
        None \<Rightarrow> None
      | Some (sched, schedProc, _) \<Rightarrow>
          let k1 = k\<lparr>k_CurrentTick := t, k_Scheduler := sched\<rparr>;
              (k2, logMsg) =
                (case schedProc of
                   Some i \<Rightarrow>
                     let p = procs sched ! i in
                     if k_RunningProcess k1 = None \<or> k_RunningProcess k1 \<noteq> Some (p_PID p)
                     then (k1\<lparr>k_RunningProcess := map_option up_PID (pm_Processes (k_ProcManager k1) (p_PID p))\<rparr>,
                           LineSwitch t (k_RunningProcess k1) (p_PID p) (p_Name p))
                     else (k1\<lparr>k_CPU := (k_CPU k1)\<lparr>hw_ProgramCounter := hw_ProgramCounter (k_CPU k1) + 4\<rparr>\<rparr>,
                           LineExecuting t (p_PID p) (hw_ProgramCounter (k_CPU k1)))
                 | None \<Rightarrow> (k1, LineIdle t))
          in Some (k2\<lparr>k_EventHistory := k_EventHistory k2 @ [logMsg]\<rparr>, logMsg))"

definition TriggerSyscall ::
  "'s OSKernel \<Rightarrow> int \<Rightarrow> int \<Rightarrow> u64 \<times> u64 \<times> u64 \<times> u64 \<times> u64 \<times> u64 \<Rightarrow> 's OSKernel \<times> int \<times> kernel_line" where
  "TriggerSyscall k pid syscallNum args =
     (let (a0, a1, a2, a3, a4, a5) = args;
          regs = \<lparr>RAX = word_of_int syscallNum, RDI = a0, RSI = a1, RDX = a2, R10 = a3, R8 = a4, R9 = a5\<rparr>;
          k1 = k\<lparr>k_CPU := SwitchToKernelMode (k_CPU k) 0x80\<rparr>;
          (sd, regs', ret, err) = Dispatch (k_Syscalls k1) pid regs;
          k2 = k1\<lparr>k_Syscalls := sd, k_CPU := ReturnToUserMode (k_CPU k1)\<rparr>;
          msg = LineSyscall pid syscallNum ret err
      in (k2\<lparr>k_EventHistory := k_EventHistory k2 @ [msg]\<rparr>, ret, msg))"

fun kernel_steps ::
  "('s \<Rightarrow> int \<Rightarrow> ('s \<times> nat option \<times> bool) option) \<Rightarrow> ('s \<Rightarrow> Process list) \<Rightarrow> nat \<Rightarrow> 's OSKernel \<Rightarrow> 's OSKernel option" where
  "kernel_steps tick procs 0 k = Some k"
| "kernel_steps tick procs (Suc n) k =
     Option.bind (Step tick procs k) (\<lambda>(k', _). kernel_steps tick procs n k')"

section \<open>Stepping\<close>

text \<open>A process that is new when its arrival time has passed stays new.\<close>

lemma astep_late:
  assumes "astep t [a] bs" "a_st a = StateNew" "a_arr a < t"
  shows "bs = [a]"
proof -
  have e: "age1 (arrive1 t a) = a" using assms(2,3) by (simp add: age1_def arrive1_def)
  from assms(1) obtain cs where "dispatch t [a] cs" "bs = map (run1 t) cs" by (auto simp: astep_def e)
  then have "cs = [a]" using assms(2) by (auto elim!: dispatchE simp: preempt1_def)
  then show ?thesis using \<open>bs = map (run1 t) cs\<close> assms(2) by (simp add: run1_def)
qed

definition late :: "('s \<Rightarrow> bool) \<Rightarrow> ('s \<Rightarrow> Process list) \<Rightarrow> 's OSKernel \<Rightarrow> bool" where
  "late I procs k \<longleftrightarrow> I (k_Scheduler k) \<and> 0 \<le> k_CurrentTick k \<and>
     (\<exists>a. accounts (procs (k_Scheduler k)) = [a] \<and> a_st a = StateNew \<and> a_arr a = 0)"

text \<open>A run of the kernel: ticks and system calls in any order.\<close>

datatype kernel_event = KStep | KSyscall int int "u64 \<times> u64 \<times> u64 \<times> u64 \<times> u64 \<times> u64"

fun kernel_run ::
  "('s \<Rightarrow> int \<Rightarrow> ('s \<times> nat option \<times> bool) option) \<Rightarrow> ('s \<Rightarrow> Process list) \<Rightarrow> kernel_event list \<Rightarrow> 's OSKernel \<Rightarrow> 's OSKernel option" where
  "kernel_run tick procs [] k = Some k"
| "kernel_run tick procs (KStep # es) k = Option.bind (Step tick procs k) (\<lambda>(k', _). kernel_run tick procs es k')"
| "kernel_run tick procs (KSyscall pid n args # es) k = kernel_run tick procs es (fst (TriggerSyscall k pid n args))"

text \<open>The events that are ticks, and the system calls with a registered number.\<close>

definition known_call :: "kernel_event \<Rightarrow> bool" where
  "known_call e \<longleftrightarrow> (case e of KStep \<Rightarrow> False | KSyscall _ n _ \<Rightarrow> sint (word_of_int n :: u64) \<in> {1..13} - {SysKill})"

definition kernel_ok :: "('s \<Rightarrow> bool) \<Rightarrow> 's OSKernel \<Rightarrow> bool" where
  "kernel_ok I k \<longleftrightarrow> I (k_Scheduler k) \<and> hw_CurrentMode (k_CPU k) = ModeUser \<and>
     hw_CR3 (k_CPU k) = 0x00100000 \<and> hw_InterruptsOn (k_CPU k) \<and> standard (k_Syscalls k) \<and>
     total_calls (k_Syscalls k) = int (length (sd_CallHistory (k_Syscalls k)))"

lemma TriggerSyscall_ok:
  assumes ok: "kernel_ok I k" and T: "TriggerSyscall k pid n args = (k', ret, msg)"
  shows "kernel_ok I k'" "k_CurrentTick k' = k_CurrentTick k"
    "length (k_EventHistory k') = Suc (length (k_EventHistory k))"
    "total_calls (k_Syscalls k') = total_calls (k_Syscalls k) + (if known_call (KSyscall pid n args) then 1 else 0)"
proof -
  obtain a0 a1 a2 a3 a4 a5 where args: "args = (a0, a1, a2, a3, a4, a5)" by (cases args) auto
  let ?regs = "\<lparr>RAX = word_of_int n, RDI = a0, RSI = a1, RDX = a2, R10 = a3, R8 = a4, R9 = a5\<rparr>"
  obtain sd regs' ret' err where D: "Dispatch (k_Syscalls k) pid ?regs = (sd, regs', ret', err)" by (metis prod_cases4)
  have k': "k' = k\<lparr>k_CPU := ReturnToUserMode (SwitchToKernelMode (k_CPU k) 0x80), k_Syscalls := sd,
      k_EventHistory := k_EventHistory k @ [LineSyscall pid n ret' err]\<rparr>"
    using T D by (auto simp: TriggerSyscall_def args Let_def)
  have st: "standard (k_Syscalls k)" using ok by (simp add: kernel_ok_def)
  note c = Dispatch_counts[OF st D]
  have "standard sd" using st handlers_Dispatch[of "k_Syscalls k" pid ?regs] D by (simp add: standard_def)
  then show "kernel_ok I k'" using ok c by (simp add: kernel_ok_def k')
  show "k_CurrentTick k' = k_CurrentTick k" "length (k_EventHistory k') = Suc (length (k_EventHistory k))"
    "total_calls (k_Syscalls k') = total_calls (k_Syscalls k) + (if known_call (KSyscall pid n args) then 1 else 0)"
    using c(2) by (simp_all add: k' known_call_def)
qed

lemma NewOSKernel_ok:
  assumes "NewOSKernel add new = Some k" "I (add new (NewProcess 1 ''init'' 0 100))"
  shows "kernel_ok I k"
proof -
  have "k_CPU k = NewHardwareCPU" "k_Syscalls k = NewSyscallDispatcher" "k_Scheduler k = add new (NewProcess 1 ''init'' 0 100)"
    using assms(1) by (auto simp: NewOSKernel_def split: option.splits)
  then show ?thesis using assms(2) standard_New total_calls_New by (simp add: kernel_ok_def NewHardwareCPU_def)
qed

context cpu_scheduler
begin

text \<open>The step of the kernel never panics and keeps the CPU in user mode.\<close>

lemma Step_ok:
  assumes "kernel_ok inv k"
  shows "\<exists>k' l. Step tick procs k = Some (k', l) \<and> kernel_ok inv k' \<and> k_CurrentTick k' = k_CurrentTick k + 1 \<and>
     length (k_EventHistory k') = Suc (length (k_EventHistory k)) \<and> k_Syscalls k' = k_Syscalls k"
proof -
  have i: "inv (k_Scheduler k)" using assms by (simp add: kernel_ok_def)
  from tick_law[OF i, of "k_CurrentTick k + 1"] obtain s' r d where
    T: "tick (k_Scheduler k) (k_CurrentTick k + 1) = Some (s', r, d)" "inv s'" by blast
  show ?thesis
  proof (cases r)
    case None
    with T assms show ?thesis by (simp add: Step_def kernel_ok_def Let_def)
  next
    case (Some j)
    with T assms show ?thesis
      by (cases "k_RunningProcess k = Some (p_PID (procs s' ! j))") (simp_all add: Step_def kernel_ok_def Let_def)
  qed
qed

lemma kernel_run_ok:
  assumes "kernel_ok inv k"
  shows "\<exists>k'. kernel_run tick procs es k = Some k' \<and> kernel_ok inv k' \<and>
     k_CurrentTick k' = k_CurrentTick k + int (cnt (\<lambda>e. e = KStep) es) \<and>
     length (k_EventHistory k') = length (k_EventHistory k) + length es \<and>
     total_calls (k_Syscalls k') = total_calls (k_Syscalls k) + int (cnt known_call es)"
  using assms
proof (induction es arbitrary: k)
  case (Cons e es)
  show ?case
  proof (cases e)
    case KStep
    from Step_ok[OF Cons.prems] obtain k1 l where S: "Step tick procs k = Some (k1, l)" "kernel_ok inv k1"
      "k_CurrentTick k1 = k_CurrentTick k + 1" "length (k_EventHistory k1) = Suc (length (k_EventHistory k))"
      "k_Syscalls k1 = k_Syscalls k" by blast
    with Cons.IH[OF S(2)] KStep show ?thesis by (auto simp: cnt_def known_call_def)
  next
    case (KSyscall pid n args)
    obtain k1 ret msg where T: "TriggerSyscall k pid n args = (k1, ret, msg)" by (metis prod_cases3)
    note S = TriggerSyscall_ok[OF Cons.prems T]
    from Cons.IH[OF S(1)] S(2-4) T KSyscall show ?thesis by (auto simp: cnt_def)
  qed
qed (simp add: cnt_def)

lemma Step_late:
  assumes "late inv procs k"
  shows "\<exists>k'. Step tick procs k = Some (k', LineIdle (k_CurrentTick k + 1)) \<and> late inv procs k' \<and>
     k_CurrentTick k' = k_CurrentTick k + 1 \<and> k_CPU k' = k_CPU k \<and> k_RunningProcess k' = k_RunningProcess k \<and>
     k_EventHistory k' = k_EventHistory k @ [LineIdle (k_CurrentTick k + 1)]"
proof -
  let ?s = "k_Scheduler k" and ?t = "k_CurrentTick k + 1"
  obtain a where a: "accounts (procs ?s) = [a]" "a_st a = StateNew" "a_arr a = 0" and i: "inv ?s" and t: "0 < ?t"
    using assms by (auto simp: late_def)
  from tick_law[OF i, of ?t] obtain s' r d where T: "tick ?s ?t = Some (s', r, d)" "inv s'"
    "astep ?t (accounts (procs ?s)) (accounts (procs s'))"
    "\<forall>i. r = Some i \<longleftrightarrow> i < length (procs s') \<and> p_State (procs s' ! i) = StateRunning" by blast
  have s': "accounts (procs s') = [a]" using T(3) a t by (auto intro: astep_late)
  then obtain p where p: "procs s' = [p]" "account_of p = a" by (auto simp: accounts_def)
  have n: "p_State p = StateNew" using p(2) a(2) by (auto simp: account_of_def)
  have "r = None"
  proof (rule ccontr)
    assume "r \<noteq> None"
    then obtain j where "r = Some j" by blast
    then have "j < length (procs s')" "p_State (procs s' ! j) = StateRunning" using spec[OF T(4), of j] by blast+
    with n show False by (simp add: p(1))
  qed
  define k' where "k' = k\<lparr>k_CurrentTick := ?t, k_Scheduler := s', k_EventHistory := k_EventHistory k @ [LineIdle ?t]\<rparr>"
  have "Step tick procs k = Some (k', LineIdle ?t)" using T(1) \<open>r = None\<close> by (simp add: Step_def Let_def k'_def)
  moreover have "late inv procs k'" using T(2) s' a(2,3) t by (simp add: late_def k'_def)
  ultimately show ?thesis by (intro exI[of _ k']) (simp add: k'_def)
qed

lemma kernel_steps_late:
  assumes "late inv procs k"
  shows "\<exists>k'. kernel_steps tick procs n k = Some k' \<and> k_CPU k' = k_CPU k \<and> k_RunningProcess k' = k_RunningProcess k \<and>
     k_EventHistory k' = k_EventHistory k @ map (\<lambda>j. LineIdle (k_CurrentTick k + int j + 1)) [0..<n]"
  using assms
proof (induction n arbitrary: k)
  case (Suc n)
  from Step_late[OF Suc.prems] obtain k1 where S: "Step tick procs k = Some (k1, LineIdle (k_CurrentTick k + 1))" "late inv procs k1"
    "k_CurrentTick k1 = k_CurrentTick k + 1" "k_CPU k1 = k_CPU k" "k_RunningProcess k1 = k_RunningProcess k"
    "k_EventHistory k1 = k_EventHistory k @ [LineIdle (k_CurrentTick k + 1)]" by blast
  from Suc.IH[OF S(2)] obtain k' where "kernel_steps tick procs n k1 = Some k'" "k_CPU k' = k_CPU k1"
    "k_RunningProcess k' = k_RunningProcess k1"
    "k_EventHistory k' = k_EventHistory k1 @ map (\<lambda>j. LineIdle (k_CurrentTick k1 + int j + 1)) [0..<n]" by blast
  moreover have "[LineIdle (k_CurrentTick k + 1)] @ map (\<lambda>j. LineIdle (k_CurrentTick k + 1 + int j + 1)) [0..<n]
      = map (\<lambda>j. LineIdle (k_CurrentTick k + int j + 1)) [0..<Suc n]"
    by (simp only: upt_conv_Cons[OF zero_less_Suc] map_Suc_upt[symmetric]) (simp add: algebra_simps)
  ultimately show ?case using S by simp
qed simp

lemma NewOSKernel_late:
  assumes "admit (NewProcess 1 ''init'' 0 100)" "NewOSKernel add new = Some k"
  shows "late inv procs k" "k_CurrentTick k = 0" "k_EventHistory k = []"
proof -
  have k: "k_Scheduler k = add new (NewProcess 1 ''init'' 0 100)" "k_CurrentTick k = 0" "k_EventHistory k = []"
    using assms(2) by (auto simp: NewOSKernel_def split: option.splits)
  have "inv (add new (NewProcess 1 ''init'' 0 100)) \<and> procs (add new (NewProcess 1 ''init'' 0 100)) = procs new @ [NewProcess 1 ''init'' 0 100]"
    using add_law[of new "NewProcess 1 ''init'' 0 100"] new_law assms(1) by (simp add: NewProcess_def)
  then show "late inv procs k" using k new_law by (simp add: late_def accounts_def account_of_def NewProcess_def)
  show "k_CurrentTick k = 0" "k_EventHistory k = []" using k by simp_all
qed

end

section \<open>Properties\<close>

abbreviation rr_tick :: "SliceSched \<Rightarrow> int \<Rightarrow> (SliceSched \<times> nat option \<times> bool) option" where
  "rr_tick s t \<equiv> Some (RR_Tick s t)"

lemma DefaultOSKernel_Some: "\<exists>k. DefaultOSKernel = Some k"
proof -
  obtain pm where pm: "NewProcessManager = Some pm" using NewProcessManager_ok by blast
  show ?thesis unfolding DefaultOSKernel_def NewOSKernel_def pm by simp
qed

lemma DefaultOSKernel_ok: "DefaultOSKernel = Some k \<Longrightarrow> kernel_ok RR_inv k"
  unfolding DefaultOSKernel_def
  by (erule NewOSKernel_ok) (use rr.add_law[of "NewRRScheduler 2" "NewProcess 1 ''init'' 0 100"] rr.new_law in \<open>simp add: NewProcess_def\<close>)

lemma DefaultOSKernel_start:
  "DefaultOSKernel = Some k \<Longrightarrow> k_CurrentTick k = 0 \<and> k_EventHistory k = [] \<and> total_calls (k_Syscalls k) = 0"
  using total_calls_New by (auto simp: DefaultOSKernel_def NewOSKernel_def NewSyscallDispatcher_history split: option.splits)

text \<open>C11: The kernel with the default scheduler never panics, whatever ticks and system calls come in whatever order.
  After each event the CPU is in user mode with its page-directory register and its interrupt flag unchanged, the clock
  shows the number of ticks, the event log has one line per event, and the counters of the system-call table sum to the
  number of calls with a registered number.\<close>

theorem kernel_accounts:
  "\<exists>k0 k. DefaultOSKernel = Some k0 \<and> kernel_run rr_tick s_allProcesses es k0 = Some k \<and>
     hw_CurrentMode (k_CPU k) = ModeUser \<and> hw_CR3 (k_CPU k) = 0x00100000 \<and> hw_InterruptsOn (k_CPU k) \<and>
     k_CurrentTick k = int (cnt (\<lambda>e. e = KStep) es) \<and> length (k_EventHistory k) = length es \<and>
     total_calls (k_Syscalls k) = int (cnt known_call es)"
proof -
  obtain k0 where k0: "DefaultOSKernel = Some k0" using DefaultOSKernel_Some by blast
  from rr.kernel_run_ok[OF DefaultOSKernel_ok[OF k0], of es] DefaultOSKernel_start[OF k0] k0 show ?thesis
    by (auto simp: kernel_ok_def)
qed

text \<open>The kernel never runs a process. Its clock is advanced before the first tick, so the first process, which arrives
  at time zero, has missed its arrival: after any number of steps every line of the log says that the CPU is idle.\<close>

theorem kernel_always_idle:
  "\<exists>k0 k. DefaultOSKernel = Some k0 \<and> kernel_steps rr_tick s_allProcesses n k0 = Some k \<and>
     k_EventHistory k = map (\<lambda>j. LineIdle (int j + 1)) [0..<n] \<and> k_CPU k = k_CPU k0"
proof -
  obtain k0 where k0: "DefaultOSKernel = Some k0" using DefaultOSKernel_Some by blast
  have n: "NewOSKernel RR_AddProcess (NewRRScheduler 2) = Some k0" using k0 by (simp add: DefaultOSKernel_def)
  note L = rr.NewOSKernel_late[OF _ n]
  from rr.kernel_steps_late[OF L(1), of n] L(2,3) k0 show ?thesis by auto
qed

section \<open>The isolation experiment\<close>

record IsolationExperimentResult =
  ir_ProcA_PID :: int
  ir_ProcB_PID :: int
  ir_VirtualAddress :: u64
  ir_ProcA_PFN :: u64
  ir_ProcB_PFN :: u64
  ir_ProcA_Physical :: u64
  ir_ProcB_Physical :: u64
  ir_ProcA_Value :: string
  ir_ProcB_Value :: string
  ir_CrossAccessTrap :: bool
  ir_TrapMessage :: "mem_error option"

record MemoryIsolationLab =
  lab_PhysicalRAM :: "u64 \<rightharpoonup> string"
  lab_PageSize :: u64

definition NewMemoryIsolationLab :: MemoryIsolationLab where
  "NewMemoryIsolationLab = \<lparr>lab_PhysicalRAM = Map.empty, lab_PageSize = 4096\<rparr>"

text \<open>The two page tables, as the experiment leaves them, are returned too.\<close>

definition RunIsolationTest ::
  "MemoryIsolationLab \<Rightarrow> (MemoryIsolationLab \<times> PageTable \<times> PageTable \<times> IsolationExperimentResult) option" where
  "RunIsolationTest lab =
     (if lab_PageSize lab = 0 then None else
      let vAddr = 0x00401050 :: u64;
          vpn = vAddr div lab_PageSize lab;
          offset = vAddr mod lab_PageSize lab;
          pAddrA = 12 * lab_PageSize lab + offset;
          pAddrB = 88 * lab_PageSize lab + offset;
          lab1 = lab\<lparr>lab_PhysicalRAM := (lab_PhysicalRAM lab)(pAddrA \<mapsto> ''Secret_Token_A'')\<rparr>;
          lab2 = lab1\<lparr>lab_PhysicalRAM := (lab_PhysicalRAM lab1)(pAddrB \<mapsto> ''Public_Data_B'')\<rparr>;
          valA = (case lab_PhysicalRAM lab2 pAddrA of None \<Rightarrow> [] | Some s \<Rightarrow> s);
          valB = (case lab_PhysicalRAM lab2 pAddrB of None \<Rightarrow> [] | Some s \<Rightarrow> s)
      in case (Option.bind (NewPageTable 100 1024 (lab_PageSize lab)) (\<lambda>pt. MapPage pt vpn 12 True),
               Option.bind (NewPageTable 200 1024 (lab_PageSize lab)) (\<lambda>pt. MapPage pt vpn 88 True)) of
           (Some ptA, Some ptB) \<Rightarrow>
             (case Translate ptB 0x90000000 False of
                None \<Rightarrow> None
              | Some (ptB', _, _, err) \<Rightarrow>
                  Some (lab2, ptA, ptB',
                    \<lparr>ir_ProcA_PID = 100, ir_ProcB_PID = 200, ir_VirtualAddress = vAddr, ir_ProcA_PFN = 12, ir_ProcB_PFN = 88,
                     ir_ProcA_Physical = pAddrA, ir_ProcB_Physical = pAddrB, ir_ProcA_Value = valA, ir_ProcB_Value = valB,
                     ir_CrossAccessTrap = (err \<noteq> None), ir_TrapMessage = err\<rparr>))
         | _ \<Rightarrow> None)"

text \<open>The experiment reports two isolated values, and yet neither page table maps the address: its page number is 1025, and the tables
  have 1024 entries.\<close>

lemma isolation_unmapped:
  "case RunIsolationTest NewMemoryIsolationLab of None \<Rightarrow> False
   | Some (lab, ptA, ptB, res) \<Rightarrow>
       ir_ProcA_Value res = ''Secret_Token_A'' \<and> ir_ProcB_Value res = ''Public_Data_B'' \<and> ir_CrossAccessTrap res \<and>
       map_option (snd \<circ> snd \<circ> snd) (Translate ptA (ir_VirtualAddress res) False) = Some (Some ErrInvalidPage) \<and>
       map_option (snd \<circ> snd \<circ> snd) (Translate ptB (ir_VirtualAddress res) False) = Some (Some ErrInvalidPage)"
  by code_simp

end
