(* ===== verification/Heap_Interface.thy ===== *)
theory Heap_Interface
  imports Go_Prelude
begin

text \<open>
  The errors of \<open>pkg/memory/allocator.go\<close> and the contract that its two allocators share: an
  allocation returns, keeps the invariant of the allocator, and either fails without effect or
  reserves a region inside the heap that meets no region in use. From the contract alone follows
  that the addresses that any sequence of requests obtains belong to disjoint regions.
\<close>

datatype alloc_error = ErrOutOfMemory | ErrInvalidFree

text \<open>A region is its first address and its length.\<close>

type_synonym region = "nat \<times> nat"

definition apart :: "region \<Rightarrow> region \<Rightarrow> bool" where
  "apart r q \<longleftrightarrow> fst r + snd r \<le> fst q \<or> fst q + snd q \<le> fst r"

definition within :: "region \<Rightarrow> region \<Rightarrow> bool" where
  "within r q \<longleftrightarrow> fst q \<le> fst r \<and> fst r + snd r \<le> fst q + snd q"

lemma apart_sym: "apart r q \<longleftrightarrow> apart q r"
  by (auto simp: apart_def)

lemma apart_within: "apart r q \<Longrightarrow> within r' r \<Longrightarrow> within q' q \<Longrightarrow> apart r' q'"
  by (auto simp: apart_def within_def)

lemma within_refl [simp]: "within r r"
  by (simp add: within_def)

lemma within_trans: "within r q \<Longrightarrow> within q p \<Longrightarrow> within r p"
  by (simp add: within_def)

text \<open>A sequence of requests; the regions that were asked for and obtained, in order.\<close>

fun alloc_all ::
  "('s \<Rightarrow> u64 \<Rightarrow> ('s \<times> (alloc_error + u64)) option) \<Rightarrow> 's \<Rightarrow> u64 list \<Rightarrow> ('s \<times> region list) option" where
  "alloc_all alloc s [] = Some (s, [])"
| "alloc_all alloc s (n # ns) =
     (case alloc s n of
        None \<Rightarrow> None
      | Some (s1, r) \<Rightarrow>
          (case alloc_all alloc s1 ns of
             None \<Rightarrow> None
           | Some (s2, rs) \<Rightarrow> Some (s2, case r of Inl _ \<Rightarrow> rs | Inr a \<Rightarrow> (unat a, unat n) # rs)))"

locale heap_allocator =
  fixes inv :: "'s \<Rightarrow> bool"
    and alloc :: "'s \<Rightarrow> u64 \<Rightarrow> ('s \<times> (alloc_error + u64)) option"
    and served :: "u64 \<Rightarrow> bool"
    and live :: "'s \<Rightarrow> region list"
    and span :: "'s \<Rightarrow> region"
  assumes alloc_law:
    "inv s \<Longrightarrow> served n \<Longrightarrow>
       \<exists>s' r. alloc s n = Some (s', r) \<and> inv s' \<and> span s' = span s \<and>
         (case r of
            Inl _ \<Rightarrow> set (live s') = set (live s)
          | Inr a \<Rightarrow> \<exists>m \<ge> unat n. set (live s') = insert (unat a, m) (set (live s)) \<and>
              within (unat a, m) (span s) \<and> (\<forall>q\<in>set (live s). apart (unat a, m) q))"
begin

text \<open>Everything obtained lies in the span, is disjoint from what was in use, and stays in use.\<close>

lemma alloc_all_disjoint:
  assumes "inv s" and "\<forall>n\<in>set ns. served n"
  shows "\<exists>s' rs. alloc_all alloc s ns = Some (s', rs) \<and> inv s' \<and> span s' = span s \<and>
     set (live s) \<subseteq> set (live s') \<and> sorted_wrt apart rs \<and>
     (\<forall>r\<in>set rs. within r (span s) \<and> (\<forall>q\<in>set (live s). apart r q) \<and>
        (\<exists>q\<in>set (live s'). within r q))"
  using assms
proof (induction ns arbitrary: s)
  case (Cons n ns)
  from alloc_law [of s n] Cons.prems obtain s1 r where
    s1: "alloc s n = Some (s1, r)" "inv s1" "span s1 = span s" and
    r: "case r of
          Inl _ \<Rightarrow> set (live s1) = set (live s)
        | Inr a \<Rightarrow> \<exists>m \<ge> unat n. set (live s1) = insert (unat a, m) (set (live s)) \<and>
            within (unat a, m) (span s) \<and> (\<forall>q\<in>set (live s). apart (unat a, m) q)"
    by auto
  from Cons.IH [of s1] Cons.prems s1 obtain s2 rs where
    s2: "alloc_all alloc s1 ns = Some (s2, rs)" "inv s2" "span s2 = span s"
      "set (live s1) \<subseteq> set (live s2)" "sorted_wrt apart rs"
      "\<forall>r\<in>set rs. within r (span s) \<and> (\<forall>q\<in>set (live s1). apart r q) \<and> (\<exists>q\<in>set (live s2). within r q)"
    by auto
  show ?case
  proof (cases r)
    case (Inl e)
    with r s1 s2 show ?thesis by auto
  next
    case (Inr a)
    with r obtain m where m: "unat n \<le> m" "set (live s1) = insert (unat a, m) (set (live s))"
      "within (unat a, m) (span s)" "\<forall>q\<in>set (live s). apart (unat a, m) q" by auto
    have w: "within (unat a, unat n) (unat a, m)" using m(1) by (simp add: within_def)
    have "\<forall>q\<in>set rs. apart (unat a, unat n) q"
      using s2(6) m(2) w apart_within [of "(unat a, m)"] within_refl apart_sym by blast
    moreover have "\<forall>q\<in>set (live s). apart (unat a, unat n) q"
      using m(4) w apart_within within_refl by blast
    moreover have "within (unat a, unat n) (span s)" using m(3) w within_trans by blast
    ultimately show ?thesis using s1 s2 m w Inr by auto
  qed
qed simp

end

end
