(* ===== verification/Free_List.thy ===== *)
theory Free_List
  imports Heap_Interface
begin

text \<open>
  The free-list allocator of \<open>pkg/memory/allocator.go\<close>. The code keeps its blocks in a doubly
  linked list of \<open>BlockHeader\<close> objects and updates them through pointers; the model keeps the
  objects in a store (a list, in the order of their allocation) and a pointer is a position of
  it, \<^const>\<open>None\<close> is \<open>nil\<close>. The loops over the list follow the \<open>Next\<close> pointers and are partial
  functions, in which \<^const>\<open>None\<close> is a loop that does not end. The list of blocks that the
  pointers denote is \<open>fla_blocks\<close>; the theorems say what the operations do to it.
\<close>

section \<open>Headers and the allocator\<close>

record BlockHeader =
  b_Addr :: u64
  b_Size :: u64
  b_IsAllocated :: bool
  b_Next :: "nat option"
  b_Prev :: "nat option"

record FreeListAllocator =
  fla_HeapStart :: u64
  fla_TotalSize :: u64
  fla_Head :: "nat option"
  fla_AllocatedBytes :: u64
  fla_AllocationsCount :: int
  fla_store :: "BlockHeader list"

definition upd :: "BlockHeader list \<Rightarrow> nat \<Rightarrow> (BlockHeader \<Rightarrow> BlockHeader) \<Rightarrow> BlockHeader list" where
  "upd h p f = h[p := f (h ! p)]"

definition upd_opt :: "BlockHeader list \<Rightarrow> nat option \<Rightarrow> (BlockHeader \<Rightarrow> BlockHeader) \<Rightarrow> BlockHeader list" where
  "upd_opt h q f = (case q of None \<Rightarrow> h | Some p \<Rightarrow> upd h p f)"

definition NewFreeListAllocator :: "u64 \<Rightarrow> u64 \<Rightarrow> FreeListAllocator" where
  "NewFreeListAllocator startAddr totalSize =
     \<lparr>fla_HeapStart = startAddr, fla_TotalSize = totalSize, fla_Head = Some 0, fla_AllocatedBytes = 0,
      fla_AllocationsCount = 0,
      fla_store = [\<lparr>b_Addr = startAddr, b_Size = totalSize, b_IsAllocated = False,
                    b_Next = None, b_Prev = None\<rparr>]\<rparr>"

section \<open>Malloc\<close>

definition b_fits :: "u64 \<Rightarrow> BlockHeader \<Rightarrow> bool" where
  "b_fits sz b \<longleftrightarrow> \<not> b_IsAllocated b \<and> sz \<le> b_Size b"

partial_function (option) best_fit ::
  "BlockHeader list \<Rightarrow> u64 \<Rightarrow> nat option \<Rightarrow> nat option \<Rightarrow> nat option option" where
  "best_fit h sz cur chosen =
     (case cur of
        None \<Rightarrow> Some chosen
      | Some p \<Rightarrow>
          best_fit h sz (b_Next (h ! p))
            (if b_fits sz (h ! p) \<and>
                (case chosen of None \<Rightarrow> True | Some c \<Rightarrow> b_Size (h ! p) < b_Size (h ! c))
             then Some p else chosen))"

partial_function (option) first_fit ::
  "BlockHeader list \<Rightarrow> u64 \<Rightarrow> nat option \<Rightarrow> nat option option" where
  "first_fit h sz cur =
     (case cur of
        None \<Rightarrow> Some None
      | Some p \<Rightarrow> if b_fits sz (h ! p) then Some (Some p) else first_fit h sz (b_Next (h ! p)))"

text \<open>The split of the chosen block: a new header between it and its successor.\<close>

definition split_block :: "BlockHeader list \<Rightarrow> nat \<Rightarrow> u64 \<Rightarrow> BlockHeader list" where
  "split_block h c sz =
     (let remaining = length h;
          h1 = h @ [\<lparr>b_Addr = b_Addr (h ! c) + sz, b_Size = b_Size (h ! c) - sz,
                     b_IsAllocated = False, b_Next = b_Next (h ! c), b_Prev = Some c\<rparr>];
          h2 = upd_opt h1 (b_Next (h1 ! c)) (\<lambda>b. b\<lparr>b_Prev := Some remaining\<rparr>);
          h3 = upd h2 c (\<lambda>b. b\<lparr>b_Next := Some remaining\<rparr>)
      in upd h3 c (\<lambda>b. b\<lparr>b_Size := sz\<rparr>))"

definition Malloc ::
  "FreeListAllocator \<Rightarrow> u64 \<Rightarrow> bool \<Rightarrow> (FreeListAllocator \<times> (alloc_error + u64)) option" where
  "Malloc fla sz bestFit =
     (if sz = 0 then Some (fla, Inr 0)
      else
        case (if bestFit then best_fit (fla_store fla) sz (fla_Head fla) None
              else first_fit (fla_store fla) sz (fla_Head fla)) of
          None \<Rightarrow> None
        | Some None \<Rightarrow> Some (fla, Inl ErrOutOfMemory)
        | Some (Some chosen) \<Rightarrow>
            let h1 = (if sz + 16 < b_Size (fla_store fla ! chosen)
                      then split_block (fla_store fla) chosen sz else fla_store fla);
                h2 = upd h1 chosen (\<lambda>b. b\<lparr>b_IsAllocated := True\<rparr>)
            in Some (fla\<lparr>fla_store := h2,
                         fla_AllocatedBytes := fla_AllocatedBytes fla + b_Size (h2 ! chosen),
                         fla_AllocationsCount := fla_AllocationsCount fla + 1\<rparr>,
                     Inr (b_Addr (h2 ! chosen))))"

section \<open>Free\<close>

partial_function (option) find_block ::
  "BlockHeader list \<Rightarrow> u64 \<Rightarrow> nat option \<Rightarrow> nat option option" where
  "find_block h addr cur =
     (case cur of
        None \<Rightarrow> Some None
      | Some p \<Rightarrow> if b_Addr (h ! p) = addr then Some (Some p) else find_block h addr (b_Next (h ! p)))"

definition coalesce_next :: "BlockHeader list \<Rightarrow> nat \<Rightarrow> BlockHeader list" where
  "coalesce_next h cur =
     (case b_Next (h ! cur) of
        None \<Rightarrow> h
      | Some n \<Rightarrow>
          if b_IsAllocated (h ! n) then h
          else
            let h1 = upd h cur (\<lambda>b. b\<lparr>b_Size := b_Size b + b_Size (h ! n)\<rparr>);
                h2 = upd h1 cur (\<lambda>b. b\<lparr>b_Next := b_Next (h1 ! n)\<rparr>)
            in upd_opt h2 (b_Next (h2 ! cur)) (\<lambda>b. b\<lparr>b_Prev := Some cur\<rparr>))"

definition coalesce_prev :: "BlockHeader list \<Rightarrow> nat \<Rightarrow> BlockHeader list" where
  "coalesce_prev h cur =
     (case b_Prev (h ! cur) of
        None \<Rightarrow> h
      | Some p \<Rightarrow>
          if b_IsAllocated (h ! p) then h
          else
            let h1 = upd h p (\<lambda>b. b\<lparr>b_Size := b_Size b + b_Size (h ! cur)\<rparr>);
                h2 = upd h1 p (\<lambda>b. b\<lparr>b_Next := b_Next (h1 ! cur)\<rparr>)
            in upd_opt h2 (b_Next (h2 ! cur)) (\<lambda>b. b\<lparr>b_Prev := b_Prev (h2 ! cur)\<rparr>))"

definition Free :: "FreeListAllocator \<Rightarrow> u64 \<Rightarrow> (FreeListAllocator \<times> alloc_error option) option" where
  "Free fla addr =
     (case find_block (fla_store fla) addr (fla_Head fla) of
        None \<Rightarrow> None
      | Some None \<Rightarrow> Some (fla, Some ErrInvalidFree)
      | Some (Some cur) \<Rightarrow>
          if \<not> b_IsAllocated (fla_store fla ! cur) then Some (fla, Some ErrInvalidFree)
          else
            let h1 = upd (fla_store fla) cur (\<lambda>b. b\<lparr>b_IsAllocated := False\<rparr>);
                bytes = fla_AllocatedBytes fla - b_Size (h1 ! cur)
            in Some (fla\<lparr>fla_store := coalesce_prev (coalesce_next h1 cur) cur,
                         fla_AllocatedBytes := bytes\<rparr>, None))"

declare best_fit.simps [code] first_fit.simps [code] find_block.simps [code]

section \<open>What the pointers denote\<close>

text \<open>
  A block without its pointers, and the blocks that are met from a pointer on; the store has
  enough objects to bound the walk.
\<close>

datatype block = Block (blk_addr: u64) (blk_size: u64) (blk_used: bool)

definition block_of :: "BlockHeader \<Rightarrow> block" where
  "block_of b = Block (b_Addr b) (b_Size b) (b_IsAllocated b)"

fun walk :: "BlockHeader list \<Rightarrow> nat \<Rightarrow> nat option \<Rightarrow> nat list" where
  "walk h 0 cur = []"
| "walk h (Suc n) cur = (case cur of None \<Rightarrow> [] | Some p \<Rightarrow> p # walk h n (b_Next (h ! p)))"

definition fla_nodes :: "FreeListAllocator \<Rightarrow> nat list" where
  "fla_nodes fla = walk (fla_store fla) (length (fla_store fla)) (fla_Head fla)"

definition fla_blocks :: "FreeListAllocator \<Rightarrow> block list" where
  "fla_blocks fla = map (\<lambda>p. block_of (fla_store fla ! p)) (fla_nodes fla)"

text \<open>A segment of a well-formed doubly linked list, with what lies before and after it.\<close>

definition hd_or :: "nat list \<Rightarrow> nat option \<Rightarrow> nat option" where
  "hd_or ps nx = (case ps of [] \<Rightarrow> nx | p # _ \<Rightarrow> Some p)"

fun last_or :: "nat list \<Rightarrow> nat option \<Rightarrow> nat option" where
  "last_or [] pr = pr"
| "last_or (p # ps) pr = last_or ps (Some p)"

fun seg :: "BlockHeader list \<Rightarrow> nat option \<Rightarrow> nat list \<Rightarrow> nat option \<Rightarrow> bool" where
  "seg h pr [] nx = True"
| "seg h pr (p # ps) nx \<longleftrightarrow>
     p < length h \<and> b_Prev (h ! p) = pr \<and> b_Next (h ! p) = hd_or ps nx \<and> seg h (Some p) ps nx"

definition dll :: "BlockHeader list \<Rightarrow> nat option \<Rightarrow> nat list \<Rightarrow> bool" where
  "dll h hp ps \<longleftrightarrow> distinct ps \<and> hp = hd_or ps None \<and> seg h None ps None"

text \<open>
  The blocks cover an interval without a gap; no block is empty, and no two free blocks are
  neighbours.
\<close>

fun tiles :: "nat \<Rightarrow> block list \<Rightarrow> nat \<Rightarrow> bool" where
  "tiles a [] e \<longleftrightarrow> a = e"
| "tiles a (b # bs) e \<longleftrightarrow>
     unat (blk_addr b) = a \<and> 0 < unat (blk_size b) \<and> tiles (a + unat (blk_size b)) bs e"

fun coalesced :: "block list \<Rightarrow> bool" where
  "coalesced (b # c # bs) \<longleftrightarrow> (blk_used b \<or> blk_used c) \<and> coalesced (c # bs)"
| "coalesced _ \<longleftrightarrow> True"

definition used_bytes :: "block list \<Rightarrow> u64" where
  "used_bytes bs = sum_list (map blk_size (filter blk_used bs))"

definition heap_ok :: "u64 \<Rightarrow> u64 \<Rightarrow> block list \<Rightarrow> bool" where
  "heap_ok start len bs \<longleftrightarrow> unat start + unat len \<le> 2 ^ 64 \<and> unat len + 16 < 2 ^ 64 \<and>
     tiles (unat start) bs (unat start + unat len) \<and> coalesced bs"

definition fla_inv :: "FreeListAllocator \<Rightarrow> bool" where
  "fla_inv fla \<longleftrightarrow> dll (fla_store fla) (fla_Head fla) (fla_nodes fla) \<and>
     heap_ok (fla_HeapStart fla) (fla_TotalSize fla) (fla_blocks fla) \<and>
     fla_AllocatedBytes fla = used_bytes (fla_blocks fla)"

section \<open>The linked list\<close>

lemma hd_or_simps [simp]: "hd_or [] nx = nx" "hd_or (p # ps) nx = Some p"
  by (simp_all add: hd_or_def)

lemma hd_or_append [simp]: "hd_or (xs @ ys) nx = hd_or xs (hd_or ys nx)"
  by (cases xs) simp_all

lemma seg_append:
  "seg h pr (xs @ ys) nx \<longleftrightarrow> seg h pr xs (hd_or ys nx) \<and> seg h (last_or xs pr) ys nx"
  by (induction xs arbitrary: pr) auto

lemma seg_cong:
  assumes "seg h pr ps nx" and "length h \<le> length h'"
    and "\<forall>p\<in>set ps. b_Prev (h' ! p) = b_Prev (h ! p) \<and> b_Next (h' ! p) = b_Next (h ! p)"
  shows "seg h' pr ps nx"
  using assms by (induction ps arbitrary: pr) auto

lemma seg_bound: "seg h pr ps nx \<Longrightarrow> p \<in> set ps \<Longrightarrow> p < length h"
  by (induction ps arbitrary: pr) auto

lemma last_or_snoc [simp]: "last_or (xs @ [p]) pr = Some p"
  by (induction xs arbitrary: pr) auto

lemma walk_seg: "seg h pr ps None \<Longrightarrow> length ps \<le> n \<Longrightarrow> walk h n (hd_or ps None) = ps"
proof (induction ps arbitrary: pr n)
  case Nil
  then show ?case by (cases n) auto
next
  case (Cons p ps)
  then show ?case by (cases n) auto
qed

lemma dll_walk:
  assumes "dll h hp ps"
  shows "walk h (length h) hp = ps"
proof -
  have "set ps \<subseteq> {..<length h}" using assms seg_bound by (auto simp: dll_def)
  then have "card (set ps) \<le> length h" using card_mono [of "{..<length h}" "set ps"] by simp
  then have "length ps \<le> length h" using assms by (simp add: dll_def distinct_card)
  with assms walk_seg show ?thesis by (auto simp: dll_def)
qed

lemma dll_nodes: "dll (fla_store fla) (fla_Head fla) ps \<Longrightarrow> fla_nodes fla = ps"
  by (simp add: fla_nodes_def dll_walk)

lemma dll_cong:
  assumes "dll h hp ps" and "length h = length h'"
    and "\<forall>p\<in>set ps. b_Prev (h' ! p) = b_Prev (h ! p) \<and> b_Next (h' ! p) = b_Next (h ! p)"
  shows "dll h' hp ps"
  using assms seg_cong [of h None ps None h'] by (simp add: dll_def)

lemma upd_simps [simp]:
  "length (upd h p f) = length h" "length (upd_opt h q f) = length h"
  "p < length h \<Longrightarrow> upd h p f ! p = f (h ! p)" "p \<noteq> q' \<Longrightarrow> upd h p f ! q' = h ! q'"
  by (auto simp: upd_def upd_opt_def split: option.splits)

lemma upd_opt_simps [simp]: "upd_opt h None f = h" "upd_opt h (Some p) f = upd h p f"
  by (simp_all add: upd_opt_def)

section \<open>The loops\<close>

lemma first_fit_find:
  "seg h pr ps None \<Longrightarrow> first_fit h sz (hd_or ps None) = Some (find (\<lambda>p. b_fits sz (h ! p)) ps)"
proof (induction ps arbitrary: pr)
  case Nil
  then show ?case by (simp add: first_fit.simps)
next
  case (Cons p ps)
  then show ?case by (subst first_fit.simps) auto
qed

lemma find_block_find:
  "seg h pr ps None \<Longrightarrow> find_block h a (hd_or ps None) = Some (find (\<lambda>p. b_Addr (h ! p) = a) ps)"
proof (induction ps arbitrary: pr)
  case Nil
  then show ?case by (simp add: find_block.simps)
next
  case (Cons p ps)
  then show ?case by (subst find_block.simps) auto
qed

text \<open>Best fit keeps the first of the smallest fitting blocks.\<close>

definition best_of :: "BlockHeader list \<Rightarrow> u64 \<Rightarrow> nat list \<Rightarrow> nat option \<Rightarrow> nat option \<Rightarrow> bool" where
  "best_of h sz ps ch r \<longleftrightarrow>
     (r = ch \<and> (\<forall>p\<in>set ps. b_fits sz (h ! p) \<longrightarrow> (\<exists>c. ch = Some c \<and> b_Size (h ! c) \<le> b_Size (h ! p)))) \<or>
     (\<exists>xs c ys. r = Some c \<and> ps = xs @ c # ys \<and> b_fits sz (h ! c) \<and>
        (\<forall>x\<in>set xs. b_fits sz (h ! x) \<longrightarrow> b_Size (h ! c) < b_Size (h ! x)) \<and>
        (\<forall>y\<in>set ys. b_fits sz (h ! y) \<longrightarrow> b_Size (h ! c) \<le> b_Size (h ! y)) \<and>
        (\<forall>d. ch = Some d \<longrightarrow> b_Size (h ! c) < b_Size (h ! d)))"

lemma best_of_pick:
  assumes "b_fits sz (h ! c)"
    and "\<forall>x\<in>set xs. b_fits sz (h ! x) \<longrightarrow> b_Size (h ! c) < b_Size (h ! x)"
    and "\<forall>y\<in>set ys. b_fits sz (h ! y) \<longrightarrow> b_Size (h ! c) \<le> b_Size (h ! y)"
    and "\<forall>d. ch = Some d \<longrightarrow> b_Size (h ! c) < b_Size (h ! d)"
  shows "best_of h sz (xs @ c # ys) ch (Some c)"
  unfolding best_of_def using assms by blast

lemma best_of_cases:
  assumes "best_of h sz ps ch r"
  obtains (keep) "r = ch"
      "\<forall>p\<in>set ps. b_fits sz (h ! p) \<longrightarrow> (\<exists>c. ch = Some c \<and> b_Size (h ! c) \<le> b_Size (h ! p))"
  | (pick) xs c ys where "r = Some c" "ps = xs @ c # ys" "b_fits sz (h ! c)"
      "\<forall>x\<in>set xs. b_fits sz (h ! x) \<longrightarrow> b_Size (h ! c) < b_Size (h ! x)"
      "\<forall>y\<in>set ys. b_fits sz (h ! y) \<longrightarrow> b_Size (h ! c) \<le> b_Size (h ! y)"
      "\<forall>d. ch = Some d \<longrightarrow> b_Size (h ! c) < b_Size (h ! d)"
  using assms unfolding best_of_def by blast

lemma best_of_take:
  assumes "best_of h sz ps (Some p) r" and "b_fits sz (h ! p)"
    and "\<forall>d. ch = Some d \<longrightarrow> b_Size (h ! p) < b_Size (h ! d)"
  shows "best_of h sz (p # ps) ch r"
  using assms(1)
proof (cases rule: best_of_cases)
  case keep
  then show ?thesis using best_of_pick [of sz h p "[]" ps ch] assms(2,3) by auto
next
  case (pick xs c ys)
  have "\<forall>d. ch = Some d \<longrightarrow> b_Size (h ! c) < b_Size (h ! d)"
    using pick(6) assms(3) by (auto intro: order.strict_trans)
  then show ?thesis using pick best_of_pick [of sz h c "p # xs" ys ch] by auto
qed

lemma best_of_skip:
  assumes "best_of h sz ps ch r"
    and "b_fits sz (h ! p) \<Longrightarrow> \<exists>c. ch = Some c \<and> b_Size (h ! c) \<le> b_Size (h ! p)"
  shows "best_of h sz (p # ps) ch r"
  using assms(1)
proof (cases rule: best_of_cases)
  case keep
  with assms(2) show ?thesis by (simp add: best_of_def)
next
  case (pick xs c ys)
  have "\<forall>x\<in>set (p # xs). b_fits sz (h ! x) \<longrightarrow> b_Size (h ! c) < b_Size (h ! x)"
    using pick(4,6) assms(2) by (auto intro: order.strict_trans2)
  then show ?thesis using pick best_of_pick [of sz h c "p # xs" ys ch] by auto
qed

lemma best_fit_best:
  "seg h pr ps None \<Longrightarrow> \<exists>r. best_fit h sz (hd_or ps None) ch = Some r \<and> best_of h sz ps ch r"
proof (induction ps arbitrary: pr ch)
  case Nil
  then show ?case by (simp add: best_fit.simps best_of_def)
next
  case (Cons p ps)
  let ?take = "b_fits sz (h ! p) \<and> (case ch of None \<Rightarrow> True | Some c \<Rightarrow> b_Size (h ! p) < b_Size (h ! c))"
  from Cons.prems have s: "seg h (Some p) ps None" and n: "b_Next (h ! p) = hd_or ps None" by auto
  obtain r where r: "best_fit h sz (hd_or ps None) (if ?take then Some p else ch) = Some r"
    "best_of h sz ps (if ?take then Some p else ch) r"
    using Cons.IH [OF s] by blast
  have "best_fit h sz (hd_or (p # ps) None) ch = Some r"
    using r(1) n by (subst best_fit.simps) simp
  moreover have "best_of h sz (p # ps) ch r"
  proof (cases ?take)
    case True
    with r(2) show ?thesis by (auto intro!: best_of_take)
  next
    case False
    with r(2) show ?thesis by (auto intro!: best_of_skip split: option.splits)
  qed
  ultimately show ?case by blast
qed

text \<open>The block that a request for \<open>sz\<close> bytes takes, between \<open>xs\<close> and \<open>ys\<close>.\<close>

definition fits :: "u64 \<Rightarrow> block \<Rightarrow> bool" where
  "fits sz b \<longleftrightarrow> \<not> blk_used b \<and> sz \<le> blk_size b"

definition chosen_by :: "bool \<Rightarrow> u64 \<Rightarrow> block list \<Rightarrow> block \<Rightarrow> block list \<Rightarrow> bool" where
  "chosen_by bestFit sz xs b ys \<longleftrightarrow> fits sz b \<and>
     (\<forall>x\<in>set xs. fits sz x \<longrightarrow> bestFit \<and> blk_size b < blk_size x) \<and>
     (bestFit \<longrightarrow> (\<forall>y\<in>set ys. fits sz y \<longrightarrow> blk_size b \<le> blk_size y))"

lemma fits_block_of [simp]: "fits sz (block_of b) = b_fits sz b"
  by (simp add: fits_def b_fits_def block_of_def)

lemma block_of_sel [simp]:
  "blk_addr (block_of b) = b_Addr b" "blk_size (block_of b) = b_Size b" "blk_used (block_of b) = b_IsAllocated b"
  by (simp_all add: block_of_def)

lemma find_split:
  "find P xs = Some x \<Longrightarrow> \<exists>ys zs. xs = ys @ x # zs \<and> P x \<and> (\<forall>y\<in>set ys. \<not> P y)"
proof (induction xs)
  case (Cons a xs)
  show ?case
  proof (cases "P a")
    case True
    with Cons.prems have "a # xs = [] @ x # xs" "P x" by auto
    then show ?thesis by (metis empty_iff empty_set)
  next
    case False
    with Cons obtain ys zs where "xs = ys @ x # zs" "P x" "\<forall>y\<in>set ys. \<not> P y" by auto
    then have "a # xs = (a # ys) @ x # zs" "\<forall>y\<in>set (a # ys). \<not> P y" using False by auto
    with \<open>P x\<close> show ?thesis by blast
  qed
qed simp

lemma choose_block:
  assumes "dll h hp ps"
  shows "\<exists>r. (if bf then best_fit h sz hp None else first_fit h sz hp) = Some r \<and>
     (case r of
        None \<Rightarrow> \<forall>p\<in>set ps. \<not> b_fits sz (h ! p)
      | Some c \<Rightarrow> \<exists>xs ys. ps = xs @ c # ys \<and>
          chosen_by bf sz (map (\<lambda>p. block_of (h ! p)) xs) (block_of (h ! c)) (map (\<lambda>p. block_of (h ! p)) ys))"
proof (cases bf)
  case True
  obtain r where r: "best_fit h sz hp None = Some r" "best_of h sz ps None r"
    using assms best_fit_best [of h None ps sz None] by (auto simp: dll_def)
  from r(2) have "case r of None \<Rightarrow> \<forall>p\<in>set ps. \<not> b_fits sz (h ! p)
      | Some c \<Rightarrow> \<exists>xs ys. ps = xs @ c # ys \<and>
          chosen_by bf sz (map (\<lambda>p. block_of (h ! p)) xs) (block_of (h ! c)) (map (\<lambda>p. block_of (h ! p)) ys)"
    by (cases rule: best_of_cases) (auto simp: chosen_by_def True)
  with r True show ?thesis by auto
next
  case False
  let ?r = "find (\<lambda>p. b_fits sz (h ! p)) ps"
  have "first_fit h sz hp = Some ?r" using assms first_fit_find by (auto simp: dll_def)
  moreover have "case ?r of None \<Rightarrow> \<forall>p\<in>set ps. \<not> b_fits sz (h ! p)
      | Some c \<Rightarrow> \<exists>xs ys. ps = xs @ c # ys \<and>
          chosen_by bf sz (map (\<lambda>p. block_of (h ! p)) xs) (block_of (h ! c)) (map (\<lambda>p. block_of (h ! p)) ys)"
  proof (cases ?r)
    case None
    then have "\<forall>p\<in>set ps. \<not> b_fits sz (h ! p)" by (auto simp: find_None_iff)
    with None show ?thesis by simp
  next
    case (Some c)
    from find_split [OF this] Some show ?thesis by (auto simp: chosen_by_def False)
  qed
  ultimately show ?thesis using False by auto
qed

section \<open>The updates of the list\<close>

lemma split_block_dll:
  fixes sz :: u64
  assumes "dll h hp (xs @ c # ys)"
  defines "h' \<equiv> split_block h c sz"
  shows "dll h' hp (xs @ c # length h # ys)"
    and "block_of (h' ! c) = Block (b_Addr (h ! c)) sz (b_IsAllocated (h ! c))"
    and "block_of (h' ! length h) = Block (b_Addr (h ! c) + sz) (b_Size (h ! c) - sz) False"
    and "\<forall>p\<in>set (xs @ ys). block_of (h' ! p) = block_of (h ! p)"
proof -
  have d: "distinct (xs @ c # ys)" and sx: "seg h None xs (Some c)"
    and c: "c < length h" "b_Prev (h ! c) = last_or xs None" "b_Next (h ! c) = hd_or ys None"
    and sy: "seg h (Some c) ys None" and hp: "hp = hd_or xs (Some c)"
    using assms(1) by (simp_all add: dll_def seg_append)
  have b: "\<forall>p\<in>set (xs @ ys). p < length h \<and> p \<noteq> c"
    using sx sy seg_bound d by auto
  have old: "\<forall>p\<in>set (xs @ ys). b_Next (h' ! p) = b_Next (h ! p) \<and> block_of (h' ! p) = block_of (h ! p) \<and>
      b_Prev (h' ! p) = (if hd_or ys None = Some p then Some (length h) else b_Prev (h ! p))"
    using b c d unfolding h'_def split_block_def Let_def
    by (cases ys) (auto simp: nth_append upd_def nth_list_update block_of_def)
  have new: "h' ! c = (h ! c)\<lparr>b_Next := Some (length h), b_Size := sz\<rparr>"
      "h' ! length h = \<lparr>b_Addr = b_Addr (h ! c) + sz, b_Size = b_Size (h ! c) - sz,
                     b_IsAllocated = False, b_Next = b_Next (h ! c), b_Prev = Some c\<rparr>"
      "length h' = Suc (length h)"
    using b c d unfolding h'_def split_block_def Let_def
    by (cases ys; auto simp: nth_append upd_def nth_list_update)+
  have "hd_or ys None \<noteq> Some p" if "p \<in> set xs" for p using that d by (cases ys) auto
  with old have "seg h' None xs (Some c)" by (intro seg_cong [OF sx]) (auto simp: new)
  moreover have "seg h' (Some (length h)) ys None"
  proof (cases ys)
    case (Cons n zs)
    with sy have "seg h (Some n) zs None" by simp
    moreover have "\<forall>p\<in>set zs. b_Prev (h' ! p) = b_Prev (h ! p) \<and> b_Next (h' ! p) = b_Next (h ! p)"
      using old d Cons by auto
    ultimately have "seg h' (Some n) zs None" using seg_cong new(3) by (metis le_SucI order_refl)
    with Cons sy old b new(3) show ?thesis by auto
  qed simp
  ultimately show "dll h' hp (xs @ c # length h # ys)"
    using d b c new hp by (auto simp: dll_def seg_append)
  show "block_of (h' ! c) = Block (b_Addr (h ! c)) sz (b_IsAllocated (h ! c))"
    "block_of (h' ! length h) = Block (b_Addr (h ! c) + sz) (b_Size (h ! c) - sz) False"
    "\<forall>p\<in>set (xs @ ys). block_of (h' ! p) = block_of (h ! p)"
    using new old by (simp_all add: block_of_def)
qed

lemma coalesce_next_none:
  "dll h hp (xs @ c # ys) \<Longrightarrow> ys = [] \<or> b_IsAllocated (h ! hd ys) \<Longrightarrow> coalesce_next h c = h"
  by (cases ys) (auto simp: coalesce_next_def dll_def seg_append)

lemma coalesce_next_dll:
  assumes "dll h hp (xs @ c # n # zs)" and "\<not> b_IsAllocated (h ! n)"
  defines "h' \<equiv> coalesce_next h c"
  shows "dll h' hp (xs @ c # zs)"
    and "block_of (h' ! c) = Block (b_Addr (h ! c)) (b_Size (h ! c) + b_Size (h ! n)) (b_IsAllocated (h ! c))"
    and "\<forall>p\<in>set (xs @ zs). block_of (h' ! p) = block_of (h ! p)"
proof -
  have d: "distinct (xs @ c # n # zs)" and sx: "seg h None xs (Some c)"
    and c: "c < length h" "b_Prev (h ! c) = last_or xs None" "b_Next (h ! c) = Some n"
    and n: "n < length h" "b_Next (h ! n) = hd_or zs None"
    and sz: "seg h (Some n) zs None" and hp: "hp = hd_or xs (Some c)"
    using assms(1) by (simp_all add: dll_def seg_append)
  have b: "\<forall>p\<in>set (xs @ zs). p < length h \<and> p \<noteq> c" using sx sz seg_bound d by auto
  have h': "h' = upd_opt (upd (upd h c (\<lambda>b. b\<lparr>b_Size := b_Size b + b_Size (h ! n)\<rparr>)) c
      (\<lambda>b. b\<lparr>b_Next := hd_or zs None\<rparr>)) (hd_or zs None) (\<lambda>b. b\<lparr>b_Prev := Some c\<rparr>)"
    using assms(2) c n d by (simp add: h'_def coalesce_next_def Let_def)
  have old: "\<forall>p\<in>set (xs @ zs). b_Next (h' ! p) = b_Next (h ! p) \<and> block_of (h' ! p) = block_of (h ! p) \<and>
      b_Prev (h' ! p) = (if hd_or zs None = Some p then Some c else b_Prev (h ! p))"
    using b c d unfolding h' by (cases zs) (auto simp: upd_def nth_list_update block_of_def)
  have new: "h' ! c = (h ! c)\<lparr>b_Next := hd_or zs None, b_Size := b_Size (h ! c) + b_Size (h ! n)\<rparr>"
      "length h' = length h"
    using b c d unfolding h' by (cases zs; auto simp: upd_def nth_list_update)+
  have "hd_or zs None \<noteq> Some p" if "p \<in> set xs" for p using that d by (cases zs) auto
  with old have "seg h' None xs (Some c)" by (intro seg_cong [OF sx]) (auto simp: new)
  moreover have "seg h' (Some c) zs None"
  proof (cases zs)
    case (Cons m ws)
    with sz have "seg h (Some m) ws None" by simp
    moreover have "\<forall>p\<in>set ws. b_Prev (h' ! p) = b_Prev (h ! p) \<and> b_Next (h' ! p) = b_Next (h ! p)"
      using old d Cons by auto
    ultimately have "seg h' (Some m) ws None" using seg_cong new(2) by (metis order_refl)
    with Cons sz old b new(2) show ?thesis by auto
  qed simp
  ultimately show "dll h' hp (xs @ c # zs)" using d b c new hp by (auto simp: dll_def seg_append)
  show "block_of (h' ! c) = Block (b_Addr (h ! c)) (b_Size (h ! c) + b_Size (h ! n)) (b_IsAllocated (h ! c))"
    "\<forall>p\<in>set (xs @ zs). block_of (h' ! p) = block_of (h ! p)"
    using new old by (simp_all add: block_of_def)
qed

lemma coalesce_prev_none:
  assumes "dll h hp (xs @ c # ys)" and "xs = [] \<or> b_IsAllocated (h ! last xs)"
  shows "coalesce_prev h c = h"
  using assms by (cases xs rule: rev_cases) (auto simp: coalesce_prev_def dll_def seg_append)

lemma coalesce_prev_next:
  assumes "dll h hp ((ws @ [p]) @ c # ys)" and "\<not> b_IsAllocated (h ! p)" and "\<not> b_IsAllocated (h ! c)"
  shows "coalesce_prev h c = coalesce_next h p"
proof -
  have "b_Next (h ! p) = Some c" "b_Prev (h ! c) = Some p" "p \<noteq> c" "p < length h" "c < length h"
    "b_Next (h ! c) = hd_or ys None"
    using assms(1) by (auto simp: dll_def seg_append)
  moreover have "upd_opt h (hd_or ys None) f ! c = h ! c" "hd_or ys None \<noteq> Some c" for h f
    using assms(1) by (cases ys; auto simp: dll_def)+
  ultimately show ?thesis using assms(2,3) by (simp add: coalesce_prev_def coalesce_next_def Let_def)
qed

section \<open>The blocks\<close>

text \<open>What an allocation makes of the block it takes, and what a deallocation makes of its list.\<close>

definition carve :: "u64 \<Rightarrow> block \<Rightarrow> block list" where
  "carve sz b =
     (if sz + 16 < blk_size b
      then [Block (blk_addr b) sz True, Block (blk_addr b + sz) (blk_size b - sz) False]
      else [Block (blk_addr b) (blk_size b) True])"

definition join_next :: "block list \<Rightarrow> block \<Rightarrow> block list \<Rightarrow> block list" where
  "join_next xs b ys =
     (if ys \<noteq> [] \<and> \<not> blk_used (hd ys)
      then xs @ Block (blk_addr b) (blk_size b + blk_size (hd ys)) False # tl ys
      else xs @ Block (blk_addr b) (blk_size b) False # ys)"

definition release :: "block list \<Rightarrow> block \<Rightarrow> block list \<Rightarrow> block list" where
  "release xs b ys =
     (if xs \<noteq> [] \<and> \<not> blk_used (last xs)
      then join_next (butlast xs) (last xs) (join_next [] b ys)
      else join_next xs b ys)"

lemma tiles_append: "tiles a (xs @ ys) e \<longleftrightarrow> (\<exists>m. tiles a xs m \<and> tiles m ys e)"
  by (induction xs arbitrary: a) auto

lemma tiles_le: "tiles a bs e \<Longrightarrow> a \<le> e"
  by (induction bs arbitrary: a) fastforce+

lemma tiles_bounds:
  "tiles a bs e \<Longrightarrow> b \<in> set bs \<Longrightarrow>
     a \<le> unat (blk_addr b) \<and> unat (blk_addr b) + unat (blk_size b) \<le> e \<and> 0 < unat (blk_size b)"
proof (induction bs arbitrary: a)
  case (Cons c bs)
  then show ?case using tiles_le [of "a + unat (blk_size c)" bs e] by fastforce
qed simp

lemma coalesced_Cons: "coalesced (b # ys) \<longleftrightarrow> (ys \<noteq> [] \<longrightarrow> blk_used b \<or> blk_used (hd ys)) \<and> coalesced ys"
  by (cases ys) auto

lemma coalesced_append:
  "coalesced (xs @ ys) \<longleftrightarrow> coalesced xs \<and> coalesced ys \<and>
     (xs \<noteq> [] \<and> ys \<noteq> [] \<longrightarrow> blk_used (last xs) \<or> blk_used (hd ys))"
  by (induction xs) (auto simp: coalesced_Cons hd_append)

lemma used_bytes_simps [simp]:
  "used_bytes (xs @ ys) = used_bytes xs + used_bytes ys" "used_bytes [] = 0"
  "used_bytes (b # ys) = (if blk_used b then blk_size b else 0) + used_bytes ys"
  by (simp_all add: used_bytes_def)

text \<open>The arithmetic of a split: neither the sum nor the difference wraps.\<close>

lemma carve_words:
  fixes a sz s :: u64
  assumes "sz + 16 < s" and "sz \<le> s" and "sz \<noteq> 0" and "unat a + unat s \<le> 2 ^ 64" and "unat s + 16 < 2 ^ 64"
  shows "unat (a + sz) = unat a + unat sz" "unat (s - sz) = unat s - unat sz"
    "0 < unat sz" "0 < unat (s - sz)" "unat sz \<le> unat s"
proof -
  have le: "unat sz \<le> unat s" using assms(2) by (simp add: word_le_nat_alt)
  then have "unat (sz + 16) = unat sz + 16" using assms(5) by (subst unat_add_lem [THEN iffD1]) auto
  then have lt: "unat sz + 16 < unat s" using assms(1) by (simp add: word_less_nat_alt)
  then show "unat (a + sz) = unat a + unat sz"
    using assms(4) by (subst unat_add_lem [THEN iffD1]) auto
  show d: "unat (s - sz) = unat s - unat sz" using assms(2) by (rule unat_sub)
  show "0 < unat sz" using assms(3) unat_gt_0 by blast
  show "0 < unat (s - sz)" unfolding d using lt by simp
  show "unat sz \<le> unat s" by (rule le)
qed

lemma tiles_carve:
  assumes "tiles m (b # ys) e" and "fits sz b" and "sz \<noteq> 0" and "e \<le> 2 ^ 64" and "unat (blk_size b) + 16 < 2 ^ 64"
  shows "tiles m (carve sz b @ ys) e"
proof (cases "sz + 16 < blk_size b")
  case True
  have "m + unat (blk_size b) \<le> e" using assms(1) tiles_le by auto
  then show ?thesis
    using carve_words [of sz "blk_size b" "blk_addr b"] True assms by (auto simp: carve_def fits_def)
next
  case False
  with assms(1) show ?thesis by (simp add: carve_def)
qed

lemma heap_ok_carve:
  assumes "heap_ok st len (xs @ b # ys)" and "fits sz b" and "sz \<noteq> 0"
  shows "heap_ok st len (xs @ carve sz b @ ys)"
proof -
  obtain m where m: "tiles (unat st) xs m" "tiles m (b # ys) (unat st + unat len)"
    using assms(1) by (auto simp: heap_ok_def tiles_append)
  have "unat (blk_size b) \<le> unat len" using tiles_bounds [OF m(2), of b] tiles_le [OF m(1)] by simp
  then have "tiles m (carve sz b @ ys) (unat st + unat len)"
    using assms by (intro tiles_carve [OF m(2)]) (auto simp: heap_ok_def)
  moreover have "coalesced (xs @ carve sz b @ ys)"
    using assms(1,2) by (auto simp: heap_ok_def coalesced_append coalesced_Cons carve_def fits_def)
  ultimately show ?thesis using assms(1) m(1) by (auto simp: heap_ok_def tiles_append)
qed

text \<open>Joining two neighbours keeps the tiling.\<close>

lemma tiles_join:
  assumes "tiles m (b # ys) e" and "e \<le> 2 ^ 64" and "e - m < 2 ^ 64"
  shows "tiles m (join_next [] b ys) e"
proof (cases "ys \<noteq> [] \<and> \<not> blk_used (hd ys)")
  case True
  then obtain c zs where ys: "ys = c # zs" by (cases ys) auto
  have "m + unat (blk_size b) + unat (blk_size c) \<le> e"
    using assms(1) tiles_bounds [of "m + unat (blk_size b)" ys e c] ys by simp
  then have "unat (blk_size b + blk_size c) = unat (blk_size b) + unat (blk_size c)"
    using assms(3) by (subst unat_add_lem [THEN iffD1]) auto
  with assms(1) True ys show ?thesis by (simp add: join_next_def add.assoc)
next
  case False
  with assms(1) show ?thesis by (auto simp: join_next_def)
qed

lemma join_next_append: "join_next xs b ys = xs @ join_next [] b ys"
  by (simp add: join_next_def)

lemma join_next_coalesced:
  assumes "coalesced ys"
  shows "\<exists>s zs. join_next [] b ys = Block (blk_addr b) s False # zs \<and> coalesced zs \<and>
     (zs \<noteq> [] \<longrightarrow> blk_used (hd zs))"
  using assms by (cases ys) (auto simp: join_next_def coalesced_Cons)

lemma join_next_used: "\<not> blk_used b \<Longrightarrow> used_bytes (join_next [] b ys) = used_bytes (b # ys)"
  by (cases ys) (auto simp: join_next_def)

lemma join_next_used': "used_bytes (join_next [] b ys) = used_bytes ys"
  by (cases ys) (auto simp: join_next_def)

lemma release_cases:
  obtains (prev) ws p where "xs = ws @ [p]" "\<not> blk_used p"
    "release xs b ys = ws @ join_next [] p (join_next [] b ys)"
  | (plain) "xs \<noteq> [] \<Longrightarrow> blk_used (last xs)" "release xs b ys = xs @ join_next [] b ys"
proof (cases "xs \<noteq> [] \<and> \<not> blk_used (last xs)")
  case True
  then have "release xs b ys = butlast xs @ join_next [] (last xs) (join_next [] b ys)"
    by (simp add: release_def join_next_append [of "butlast xs"])
  with True show thesis using prev [of "butlast xs" "last xs"] by simp
next
  case False
  then show thesis using plain by (auto simp: release_def join_next_append [of xs])
qed

lemma heap_ok_release:
  assumes "heap_ok st len (xs @ b # ys)" and "blk_used b"
  shows "heap_ok st len (release xs b ys)"
    and "used_bytes (release xs b ys) = used_bytes (xs @ b # ys) - blk_size b"
proof -
  let ?e = "unat st + unat len"
  obtain m where m: "tiles (unat st) xs m" "tiles m (b # ys) ?e"
    using assms(1) by (auto simp: heap_ok_def tiles_append)
  have e: "?e \<le> 2 ^ 64" "?e - unat st < 2 ^ 64" "unat st \<le> m"
    using assms(1) tiles_le [OF m(1)] by (auto simp: heap_ok_def)
  have j: "tiles m (join_next [] b ys) ?e" using e by (intro tiles_join [OF m(2)]) auto
  have cx: "coalesced xs" "coalesced ys"
    using assms(1) by (auto simp: heap_ok_def coalesced_append coalesced_Cons)
  from join_next_coalesced [OF cx(2), of b] obtain s zs where
    z: "join_next [] b ys = Block (blk_addr b) s False # zs" "coalesced zs" "zs \<noteq> [] \<Longrightarrow> blk_used (hd zs)"
    by auto
  have cz: "coalesced (join_next [] b ys)" using z by (simp add: coalesced_Cons)
  have "tiles (unat st) (release xs b ys) ?e \<and> coalesced (release xs b ys)"
  proof (cases xs b ys rule: release_cases)
    case (prev ws p)
    obtain k where k: "tiles (unat st) ws k" "tiles k [p] m"
      using m(1) prev(1) by (auto simp: tiles_append)
    have "tiles k (p # join_next [] b ys) ?e" using k(2) j tiles_append [of k "[p]"] by auto
    then have "tiles k (join_next [] p (join_next [] b ys)) ?e"
      using e tiles_le [OF k(1)] by (intro tiles_join) auto
    moreover from join_next_coalesced [OF cz, of p] obtain s' zs' where
      "join_next [] p (join_next [] b ys) = Block (blk_addr p) s' False # zs'" "coalesced zs'"
      "zs' \<noteq> [] \<Longrightarrow> blk_used (hd zs')" by auto
    ultimately show ?thesis using k(1) cx(1) prev
      by (auto simp: tiles_append coalesced_append coalesced_Cons)
  next
    case plain
    then show ?thesis using m(1) j cx(1) cz by (auto simp: tiles_append coalesced_append)
  qed
  with assms(1) show "heap_ok st len (release xs b ys)" by (simp add: heap_ok_def)
  show "used_bytes (release xs b ys) = used_bytes (xs @ b # ys) - blk_size b"
    using assms(2) by (cases xs b ys rule: release_cases) (simp_all add: join_next_used')
qed

text \<open>Releasing the block that an allocation carved restores the list.\<close>

lemma release_carve:
  assumes "coalesced (xs @ b # ys)" and "fits sz b"
  shows "release xs (hd (carve sz b)) (tl (carve sz b) @ ys) = xs @ b # ys"
proof -
  have "join_next [] (hd (carve sz b)) (tl (carve sz b) @ ys) = b # ys"
    using assms by (cases b; cases ys) (auto simp: carve_def join_next_def fits_def coalesced_append)
  moreover have "xs \<noteq> [] \<Longrightarrow> blk_used (last xs)"
    using assms by (auto simp: coalesced_append fits_def)
  ultimately show ?thesis by (auto simp: release_def join_next_append [of xs])
qed

lemma heap_ok_addr:
  assumes "heap_ok st len (xs @ b # ys)" and "x \<in> set xs \<or> x \<in> set ys"
  shows "blk_addr x \<noteq> blk_addr b"
proof -
  obtain m where m: "tiles (unat st) xs m" "tiles m (b # ys) (unat st + unat len)"
    using assms(1) by (auto simp: heap_ok_def tiles_append)
  then have "unat (blk_addr x) \<noteq> unat (blk_addr b)"
    using assms(2) tiles_bounds [OF m(1), of x] tiles_bounds [of "m + unat (blk_size b)" ys _ x] by auto
  then show ?thesis by auto
qed

lemma heap_ok_split:
  assumes "heap_ok st len (xs @ b # ys)" and "xs @ b # ys = xs' @ b' # ys'" and "blk_addr b' = blk_addr b"
  shows "xs' = xs \<and> b' = b \<and> ys' = ys"
proof -
  have "b' \<in> set (xs @ b # ys)" unfolding assms(2) by simp
  then have "b' = b" using heap_ok_addr [OF assms(1), of b'] assms(3) by auto
  moreover have "b \<notin> set xs" "b \<notin> set ys" using heap_ok_addr [OF assms(1), of b] by auto
  ultimately show ?thesis using assms(2) append_Cons_eq_iff [of b xs ys xs' ys'] by auto
qed

section \<open>The operations on the denoted list\<close>

lemma fla_blocks_dll:
  "dll (fla_store fla) (fla_Head fla) ps \<Longrightarrow> fla_blocks fla = map (\<lambda>p. block_of (fla_store fla ! p)) ps"
  by (simp add: fla_blocks_def dll_nodes)

lemma fla_invI:
  assumes "dll (fla_store fla) (fla_Head fla) ps"
    and "map (\<lambda>p. block_of (fla_store fla ! p)) ps = bs"
    and "heap_ok (fla_HeapStart fla) (fla_TotalSize fla) bs" and "fla_AllocatedBytes fla = used_bytes bs"
  shows "fla_inv fla" and "fla_blocks fla = bs"
  using assms fla_blocks_dll [OF assms(1)] by (simp_all add: fla_inv_def dll_nodes)

text \<open>The marking of a chosen block, split or not, is \<open>carve\<close>.\<close>

lemma carve_store:
  assumes "dll h hp (xs @ c # ys)" and "b_fits sz (h ! c)"
  defines "h1 \<equiv> (if sz + 16 < b_Size (h ! c) then split_block h c sz else h)"
  defines "h2 \<equiv> upd h1 c (\<lambda>b. b\<lparr>b_IsAllocated := True\<rparr>)"
  shows "\<exists>ps. dll h2 hp ps \<and> map (\<lambda>p. block_of (h2 ! p)) ps =
      map (\<lambda>p. block_of (h ! p)) xs @ carve sz (block_of (h ! c)) @ map (\<lambda>p. block_of (h ! p)) ys"
    and "block_of (h2 ! c) = hd (carve sz (block_of (h ! c)))"
proof -
  have d: "distinct (xs @ c # ys)" and c: "c < length h" using assms(1) by (auto simp: dll_def seg_append)
  have links: "b_Next (h2 ! p) = b_Next (h1 ! p) \<and> b_Prev (h2 ! p) = b_Prev (h1 ! p) \<and>
      block_of (h2 ! p) = (if p = c then Block (b_Addr (h1 ! c)) (b_Size (h1 ! c)) True else block_of (h1 ! p))"
    if "p < length h1" for p
    using that by (cases "p = c") (auto simp: h2_def block_of_def)
  have len: "length h \<le> length h1" "length h2 = length h1"
    by (auto simp: h1_def h2_def split_block_def Let_def)
  have dll2: "dll h2 hp ps" if "dll h1 hp ps" for ps
    using that links seg_bound [of h1 None ps None] by (intro dll_cong [OF that]) (auto simp: len dll_def)
  show "\<exists>ps. dll h2 hp ps \<and> map (\<lambda>p. block_of (h2 ! p)) ps =
      map (\<lambda>p. block_of (h ! p)) xs @ carve sz (block_of (h ! c)) @ map (\<lambda>p. block_of (h ! p)) ys"
  proof (cases "sz + 16 < b_Size (h ! c)")
    case True
    note sp = split_block_dll [OF assms(1), where sz = sz]
    have h1: "h1 = split_block h c sz" using True by (simp add: h1_def)
    have bnd: "p < length h" if "p \<in> set (xs @ ys)" for p
      using that assms(1) seg_bound by (auto simp: dll_def seg_append)
    have r: "length h < length h1" using sp(1) seg_bound h1 by (fastforce simp: dll_def)
    have "block_of (h2 ! p) = block_of (h ! p)" if "p \<in> set (xs @ ys)" for p
      using that links [of p] bnd [of p] len(1) d sp(4) h1 by auto
    moreover have "block_of (h2 ! c) = Block (b_Addr (h ! c)) sz True"
      using links [of c] c len(1) sp(2) h1 by (simp add: block_of_def)
    moreover have "block_of (h2 ! length h) = Block (b_Addr (h ! c) + sz) (b_Size (h ! c) - sz) False"
      using links [of "length h"] c r sp(3) h1 by simp
    ultimately have "map (\<lambda>p. block_of (h2 ! p)) (xs @ c # length h # ys) =
      map (\<lambda>p. block_of (h ! p)) xs @ carve sz (block_of (h ! c)) @ map (\<lambda>p. block_of (h ! p)) ys"
      using True by (simp add: carve_def)
    with dll2 sp(1) h1 show ?thesis by metis
  next
    case False
    then have "h1 = h" by (simp add: h1_def)
    moreover have "p < length h" if "p \<in> set (xs @ ys)" for p
      using that assms(1) seg_bound by (auto simp: dll_def seg_append)
    ultimately have "map (\<lambda>p. block_of (h2 ! p)) (xs @ c # ys) =
      map (\<lambda>p. block_of (h ! p)) xs @ carve sz (block_of (h ! c)) @ map (\<lambda>p. block_of (h ! p)) ys"
      using links d c False by (auto simp: carve_def)
    with dll2 assms(1) \<open>h1 = h\<close> show ?thesis by metis
  qed
  show "block_of (h2 ! c) = hd (carve sz (block_of (h ! c)))"
    using links [of c] c len split_block_dll(2) [OF assms(1), where sz = sz]
    by (auto simp: h1_def carve_def block_of_def)
qed

lemma used_bytes_carve:
  "fits sz b \<Longrightarrow> used_bytes (xs @ carve sz b @ ys) = used_bytes (xs @ b # ys) + blk_size (hd (carve sz b))"
  by (simp add: carve_def fits_def)

lemma Malloc_effect:
  assumes "fla_inv fla" and "sz \<noteq> 0"
  shows "\<exists>fla' r. Malloc fla sz bf = Some (fla', r) \<and> fla_inv fla' \<and>
     fla_HeapStart fla' = fla_HeapStart fla \<and> fla_TotalSize fla' = fla_TotalSize fla \<and>
     (case r of
        Inl e \<Rightarrow> e = ErrOutOfMemory \<and> fla' = fla \<and> (\<forall>b\<in>set (fla_blocks fla). \<not> fits sz b)
      | Inr a \<Rightarrow> \<exists>xs b ys. fla_blocks fla = xs @ b # ys \<and> chosen_by bf sz xs b ys \<and> a = blk_addr b \<and>
          fla_blocks fla' = xs @ carve sz b @ ys)"
proof -
  let ?h = "fla_store fla" and ?ps = "fla_nodes fla" and ?B = "\<lambda>p. block_of (fla_store fla ! p)"
  have d: "dll ?h (fla_Head fla) ?ps" and ok: "heap_ok (fla_HeapStart fla) (fla_TotalSize fla) (fla_blocks fla)"
    and ab: "fla_AllocatedBytes fla = used_bytes (fla_blocks fla)" and bl: "fla_blocks fla = map ?B ?ps"
    using assms(1) by (auto simp: fla_inv_def fla_blocks_def)
  from choose_block [OF d, of bf sz] obtain r where
    r: "(if bf then best_fit ?h sz (fla_Head fla) None else first_fit ?h sz (fla_Head fla)) = Some r"
    and ch: "case r of None \<Rightarrow> \<forall>p\<in>set ?ps. \<not> b_fits sz (?h ! p)
      | Some c \<Rightarrow> \<exists>xs ys. ?ps = xs @ c # ys \<and> chosen_by bf sz (map ?B xs) (?B c) (map ?B ys)" by blast
  show ?thesis
  proof (cases r)
    case None
    then have "Malloc fla sz bf = Some (fla, Inl ErrOutOfMemory)" using r assms(2) by (simp add: Malloc_def)
    with ch None assms(1) bl show ?thesis by auto
  next
    case (Some c)
    from ch Some obtain xs ys where ps: "?ps = xs @ c # ys" and cb: "chosen_by bf sz (map ?B xs) (?B c) (map ?B ys)"
      by auto
    then have fit: "b_fits sz (?h ! c)" by (simp add: chosen_by_def)
    let ?h1 = "if sz + 16 < b_Size (?h ! c) then split_block ?h c sz else ?h"
    let ?h2 = "upd ?h1 c (\<lambda>b. b\<lparr>b_IsAllocated := True\<rparr>)"
    let ?fla = "fla\<lparr>fla_store := ?h2, fla_AllocatedBytes := fla_AllocatedBytes fla + b_Size (?h2 ! c),
      fla_AllocationsCount := fla_AllocationsCount fla + 1\<rparr>"
    let ?bs = "map ?B xs @ carve sz (?B c) @ map ?B ys"
    note cs = carve_store [OF d [unfolded ps] fit]
    have hd2: "b_Addr (?h2 ! c) = b_Addr (?h ! c)" "b_Size (?h2 ! c) = blk_size (hd (carve sz (?B c)))"
      using arg_cong [OF cs(2), of blk_addr] arg_cong [OF cs(2), of blk_size] by (simp_all add: carve_def)
    have eq: "Malloc fla sz bf = Some (?fla, Inr (b_Addr (?h ! c)))"
      using r Some assms(2) hd2(1) by (simp add: Malloc_def Let_def)
    have bl': "fla_blocks fla = map ?B xs @ ?B c # map ?B ys" by (simp add: bl ps)
    have ok': "heap_ok (fla_HeapStart fla) (fla_TotalSize fla) ?bs"
      using ok fit assms(2) unfolding bl' by (intro heap_ok_carve) simp_all
    have ab': "fla_AllocatedBytes ?fla = used_bytes ?bs"
      using used_bytes_carve [of sz "?B c" "map ?B xs" "map ?B ys"] fit by (simp add: ab bl' hd2)
    obtain qs where qs: "dll (fla_store ?fla) (fla_Head ?fla) qs"
      "map (\<lambda>p. block_of (fla_store ?fla ! p)) qs = ?bs" using cs(1) by auto
    define fla2 where "fla2 = ?fla"
    have "fla_inv fla2" "fla_blocks fla2 = ?bs" "fla_HeapStart fla2 = fla_HeapStart fla"
      "fla_TotalSize fla2 = fla_TotalSize fla"
      using fla_invI [OF qs _ ab'] ok' by (simp_all add: fla2_def)
    moreover have "Malloc fla sz bf = Some (fla2, Inr (blk_addr (?B c)))" using eq by (simp add: fla2_def)
    ultimately show ?thesis using bl' cb by fastforce
  qed
qed

text \<open>The deallocation of a used block is \<open>release\<close>.\<close>

lemma coalesce_next_join:
  assumes "dll h hp (xs @ c # ys)" and "\<not> b_IsAllocated (h ! c)"
  defines "h' \<equiv> coalesce_next h c"
  shows "\<exists>ys'. dll h' hp (xs @ c # ys') \<and> map (\<lambda>p. block_of (h' ! p)) xs = map (\<lambda>p. block_of (h ! p)) xs \<and>
     map (\<lambda>p. block_of (h' ! p)) (c # ys') = join_next [] (block_of (h ! c)) (map (\<lambda>p. block_of (h ! p)) ys)"
proof (cases "ys = [] \<or> b_IsAllocated (h ! hd ys)")
  case True
  then have "h' = h" using coalesce_next_none [OF assms(1)] by (simp add: h'_def)
  moreover have "map (\<lambda>p. block_of (h ! p)) (c # ys) =
      join_next [] (block_of (h ! c)) (map (\<lambda>p. block_of (h ! p)) ys)"
    using True assms(2) by (cases ys) (auto simp: join_next_def block_of_def)
  ultimately show ?thesis using assms(1) by auto
next
  case False
  then obtain n zs where ys: "ys = n # zs" "\<not> b_IsAllocated (h ! n)" by (cases ys) auto
  note cn = coalesce_next_dll [OF assms(1) [unfolded ys(1)] ys(2), folded h'_def]
  have "map (\<lambda>p. block_of (h' ! p)) (c # zs) = join_next [] (block_of (h ! c)) (map (\<lambda>p. block_of (h ! p)) ys)"
    using cn(2,3) ys assms(2) by (simp add: join_next_def)
  with cn show ?thesis by auto
qed

lemma release_store:
  assumes "dll h hp (xs @ c # ys)" and "b_IsAllocated (h ! c)"
  defines "h1 \<equiv> upd h c (\<lambda>b. b\<lparr>b_IsAllocated := False\<rparr>)"
  shows "\<exists>ps. dll (coalesce_prev (coalesce_next h1 c) c) hp ps \<and>
     map (\<lambda>p. block_of (coalesce_prev (coalesce_next h1 c) c ! p)) ps =
       release (map (\<lambda>p. block_of (h ! p)) xs) (block_of (h ! c)) (map (\<lambda>p. block_of (h ! p)) ys)"
proof -
  let ?B = "\<lambda>h p. block_of (h ! p)" and ?h2 = "coalesce_next h1 c"
  have c: "c < length h" "distinct (xs @ c # ys)" using assms(1) by (auto simp: dll_def seg_append)
  have d1: "dll h1 hp (xs @ c # ys)"
  proof (rule dll_cong [OF assms(1)])
    show "\<forall>p\<in>set (xs @ c # ys). b_Prev (h1 ! p) = b_Prev (h ! p) \<and> b_Next (h1 ! p) = b_Next (h ! p)"
      using c(1) by (auto simp: h1_def upd_def nth_list_update)
  qed (simp add: h1_def)
  have B1: "map (?B h1) xs = map (?B h) xs" "map (?B h1) ys = map (?B h) ys"
    "?B h1 c = Block (b_Addr (h ! c)) (b_Size (h ! c)) False" "\<not> b_IsAllocated (h1 ! c)"
    using c by (auto simp: h1_def upd_def nth_list_update block_of_def)
  have jn: "join_next [] (?B h1 c) zs = join_next [] (?B h c) zs" for zs
    using B1(3) by (simp add: join_next_def)
  from coalesce_next_join [OF d1 B1(4)] obtain ys' where
    d2: "dll ?h2 hp (xs @ c # ys')" "map (?B ?h2) xs = map (?B h) xs"
      "map (?B ?h2) (c # ys') = join_next [] (?B h c) (map (?B h) ys)"
    unfolding B1(1,2) jn by blast
  show ?thesis
  proof (cases "xs = [] \<or> b_IsAllocated (?h2 ! last xs)")
    case True
    then have "xs = [] \<or> blk_used (last (map (?B h) xs))"
      unfolding d2(2) [symmetric] by (cases "xs = []") (auto simp: last_map)
    then have "release (map (?B h) xs) (?B h c) (map (?B h) ys) = map (?B h) xs @ join_next [] (?B h c) (map (?B h) ys)"
      by (auto simp: release_def intro: join_next_append)
    also have "\<dots> = map (?B ?h2) (xs @ c # ys')" using d2(2,3) by simp
    finally have "release (map (?B h) xs) (?B h c) (map (?B h) ys) = map (?B ?h2) (xs @ c # ys')" .
    with True d2(1) coalesce_prev_none [OF d2(1)] show ?thesis by metis
  next
    case False
    then obtain ws p where xs: "xs = ws @ [p]" "\<not> b_IsAllocated (?h2 ! p)" by (cases xs rule: rev_cases) auto
    have "\<not> blk_used (?B ?h2 c)"
      using arg_cong [OF d2(3), of hd] by (auto simp: join_next_def split: if_splits)
    then have cp: "coalesce_prev ?h2 c = coalesce_next ?h2 p"
      using coalesce_prev_next [OF d2(1) [unfolded xs(1)] xs(2)] by simp
    have d3: "dll ?h2 hp (ws @ p # c # ys')" using d2(1) xs(1) by simp
    from coalesce_next_join [OF d3 xs(2)] obtain zs where
      z: "dll (coalesce_next ?h2 p) hp (ws @ p # zs)" "map (?B (coalesce_next ?h2 p)) ws = map (?B ?h2) ws"
        "map (?B (coalesce_next ?h2 p)) (p # zs) = join_next [] (?B ?h2 p) (map (?B ?h2) (c # ys'))" by blast
    have "map (?B ?h2) ws = map (?B h) ws" "?B ?h2 p = ?B h p" using d2(2) xs(1) by simp_all
    then have "release (map (?B h) xs) (?B h c) (map (?B h) ys) = map (?B (coalesce_next ?h2 p)) (ws @ p # zs)"
      using z(2,3) xs d2(3) block_of_sel(3) [of "?h2 ! p"]
      by (simp add: release_def join_next_append [of "map (?B h) ws"])
    with z(1) cp show ?thesis by metis
  qed
qed

lemma Free_effect:
  assumes "fla_inv fla"
  shows "\<exists>fla' r. Free fla a = Some (fla', r) \<and> fla_inv fla' \<and>
     fla_HeapStart fla' = fla_HeapStart fla \<and> fla_TotalSize fla' = fla_TotalSize fla \<and>
     (case r of
        Some e \<Rightarrow> e = ErrInvalidFree \<and> fla' = fla \<and> (\<forall>b\<in>set (fla_blocks fla). blk_used b \<longrightarrow> blk_addr b \<noteq> a)
      | None \<Rightarrow> \<exists>xs b ys. fla_blocks fla = xs @ b # ys \<and> blk_used b \<and> blk_addr b = a \<and>
          fla_blocks fla' = release xs b ys)"
proof -
  let ?h = "fla_store fla" and ?ps = "fla_nodes fla" and ?B = "\<lambda>p. block_of (fla_store fla ! p)"
  have d: "dll ?h (fla_Head fla) ?ps" and ok: "heap_ok (fla_HeapStart fla) (fla_TotalSize fla) (fla_blocks fla)"
    and ab: "fla_AllocatedBytes fla = used_bytes (fla_blocks fla)" and bl: "fla_blocks fla = map ?B ?ps"
    using assms(1) by (auto simp: fla_inv_def fla_blocks_def)
  let ?f = "find (\<lambda>p. b_Addr (?h ! p) = a) ?ps"
  have f: "find_block ?h a (fla_Head fla) = Some ?f" using d find_block_find by (auto simp: dll_def)
  show ?thesis
  proof (cases ?f)
    case None
    then have "Free fla a = Some (fla, Some ErrInvalidFree)" using f by (simp add: Free_def)
    with None assms bl show ?thesis by (auto simp: find_None_iff)
  next
    case (Some c)
    from find_split [OF this] obtain xs ys where ps: "?ps = xs @ c # ys" "b_Addr (?h ! c) = a" by auto
    have bl': "fla_blocks fla = map ?B xs @ ?B c # map ?B ys" by (simp add: bl ps)
    show ?thesis
    proof (cases "b_IsAllocated (?h ! c)")
      case True
      let ?h1 = "upd ?h c (\<lambda>b. b\<lparr>b_IsAllocated := False\<rparr>)"
      let ?fla = "fla\<lparr>fla_store := coalesce_prev (coalesce_next ?h1 c) c,
        fla_AllocatedBytes := fla_AllocatedBytes fla - b_Size (?h ! c)\<rparr>"
      let ?bs = "release (map ?B xs) (?B c) (map ?B ys)"
      have "c < length ?h" using d ps(1) by (auto simp: dll_def seg_append)
      then have eq: "Free fla a = Some (?fla, None)" using f Some True by (simp add: Free_def Let_def)
      note ro = heap_ok_release [OF ok [unfolded bl'], simplified, OF True]
      have ab': "fla_AllocatedBytes ?fla = used_bytes ?bs" using ro(2) ab bl' True by simp
      obtain qs where qs: "dll (fla_store ?fla) (fla_Head ?fla) qs"
        "map (\<lambda>p. block_of (fla_store ?fla ! p)) qs = ?bs"
        using release_store [OF d [unfolded ps(1)] True] by auto
      define fla2 where "fla2 = ?fla"
      have "fla_inv fla2" "fla_blocks fla2 = ?bs" "fla_HeapStart fla2 = fla_HeapStart fla"
        "fla_TotalSize fla2 = fla_TotalSize fla"
        using fla_invI [OF qs _ ab'] ro(1) by (simp_all add: fla2_def)
      moreover have "Free fla a = Some (fla2, None)" using eq by (simp add: fla2_def)
      ultimately show ?thesis using bl' ps(2) True block_of_sel(1,3) [of "?h ! c"] by fastforce
    next
      case False
      then have "Free fla a = Some (fla, Some ErrInvalidFree)" using f Some by (simp add: Free_def)
      moreover have "\<forall>b\<in>set (fla_blocks fla). blk_used b \<longrightarrow> blk_addr b \<noteq> a"
        using heap_ok_addr [OF ok [unfolded bl']] False ps(2) unfolding bl' by auto
      ultimately show ?thesis using assms by auto
    qed
  qed
qed

lemma heap_ok_single:
  assumes "heap_ok st len bs" and "\<forall>b\<in>set bs. \<not> blk_used b" and "len \<noteq> 0"
  shows "bs = [Block st len False]"
proof -
  have t: "tiles (unat st) bs (unat st + unat len)" and c: "coalesced bs"
    using assms(1) unfolding heap_ok_def by blast+
  have "0 < unat len" using assms(3) unat_gt_0 by blast
  with t obtain b cs where b: "bs = b # cs" by (cases bs) simp_all
  then have cs: "cs = []" using c assms(2) by (cases cs) simp_all
  have "unat (blk_addr b) = unat st" "unat (blk_size b) = unat len" using t unfolding b cs by simp_all
  then have "blk_addr b = st" "blk_size b = len" unfolding word_unat_eq_iff .
  then show ?thesis using assms(2) unfolding b cs by (cases b) simp
qed

section \<open>The allocator as a heap\<close>

definition fla_live :: "FreeListAllocator \<Rightarrow> region list" where
  "fla_live fla = map (\<lambda>b. (unat (blk_addr b), unat (blk_size b))) (filter blk_used (fla_blocks fla))"

definition fla_span :: "FreeListAllocator \<Rightarrow> region" where
  "fla_span fla = (unat (fla_HeapStart fla), unat (fla_TotalSize fla))"

lemma tiles_apart:
  assumes "tiles a (xs @ b # ys) e" and "x \<in> set xs \<or> x \<in> set ys"
  shows "apart (unat (blk_addr b), unat (blk_size b)) (unat (blk_addr x), unat (blk_size x))"
proof -
  obtain m where m: "tiles a xs m" "tiles m (b # ys) e" using assms(1) by (auto simp: tiles_append)
  from assms(2) show ?thesis
    using m tiles_bounds [OF m(1), of x] tiles_bounds [of "m + unat (blk_size b)" ys e x]
    by (auto simp: apart_def)
qed

lemma carve_hd:
  "\<exists>zs. carve sz b = hd (carve sz b) # zs \<and> (\<forall>z\<in>set zs. \<not> blk_used z)"
  "blk_addr (hd (carve sz b)) = blk_addr b" "blk_used (hd (carve sz b))"
  "fits sz b \<Longrightarrow> sz \<le> blk_size (hd (carve sz b))"
  by (simp_all add: carve_def fits_def)

lemma Malloc_heap_law:
  assumes "fla_inv fla" and "sz \<noteq> 0"
  shows "\<exists>fla' r. Malloc fla sz bf = Some (fla', r) \<and> fla_inv fla' \<and> fla_span fla' = fla_span fla \<and>
     (case r of
        Inl _ \<Rightarrow> set (fla_live fla') = set (fla_live fla)
      | Inr a \<Rightarrow> \<exists>m \<ge> unat sz. set (fla_live fla') = insert (unat a, m) (set (fla_live fla)) \<and>
          within (unat a, m) (fla_span fla) \<and> (\<forall>q\<in>set (fla_live fla). apart (unat a, m) q))"
proof -
  from Malloc_effect [OF assms, of bf] obtain fla' r where
    m: "Malloc fla sz bf = Some (fla', r)" "fla_inv fla'" "fla_HeapStart fla' = fla_HeapStart fla"
      "fla_TotalSize fla' = fla_TotalSize fla" and
    r: "case r of
        Inl e \<Rightarrow> e = ErrOutOfMemory \<and> fla' = fla \<and> (\<forall>b\<in>set (fla_blocks fla). \<not> fits sz b)
      | Inr a \<Rightarrow> \<exists>xs b ys. fla_blocks fla = xs @ b # ys \<and> chosen_by bf sz xs b ys \<and> a = blk_addr b \<and>
          fla_blocks fla' = xs @ carve sz b @ ys" by blast
  have sp: "fla_span fla' = fla_span fla" using m by (simp add: fla_span_def)
  show ?thesis
  proof (cases r)
    case (Inl e)
    with m r sp show ?thesis by auto
  next
    case (Inr a)
    with r obtain xs b ys where b: "fla_blocks fla = xs @ b # ys" "chosen_by bf sz xs b ys" "a = blk_addr b"
      "fla_blocks fla' = xs @ carve sz b @ ys" by auto
    let ?c = "hd (carve sz b)"
    obtain zs where z: "carve sz b = ?c # zs" "\<forall>z\<in>set zs. \<not> blk_used z" using carve_hd(1) by blast
    have fit: "fits sz b" using b(2) by (simp add: chosen_by_def)
    have c: "blk_addr ?c = a" "blk_used ?c" "sz \<le> blk_size ?c" using carve_hd [of sz b] fit b(3) by auto
    have fl: "fla_blocks fla' = xs @ ?c # (zs @ ys)" using b(4) z(1) by (metis append_Cons)
    have t: "tiles (unat (fla_HeapStart fla)) (xs @ ?c # (zs @ ys)) (unat (fla_HeapStart fla) + unat (fla_TotalSize fla))"
      using m(2-4) fl by (auto simp: fla_inv_def heap_ok_def)
    have "set (fla_live fla') = insert (unat a, unat (blk_size ?c)) (set (fla_live fla))"
      using fl b(1) fit z(2) c by (auto simp: fla_live_def fits_def)
    moreover have "within (unat a, unat (blk_size ?c)) (fla_span fla)"
      using tiles_bounds [OF t, of ?c] c(1) by (simp add: within_def fla_span_def)
    moreover have "\<forall>q\<in>set (fla_live fla). apart (unat a, unat (blk_size ?c)) q"
      using tiles_apart [OF t] b(1) fit c(1) by (auto simp: fla_live_def fits_def)
    moreover have "unat sz \<le> unat (blk_size ?c)" using c(3) by (simp add: word_le_nat_alt)
    ultimately show ?thesis using m sp Inr by auto
  qed
qed

interpretation free_list: heap_allocator fla_inv "\<lambda>fla n. Malloc fla n bestFit" "\<lambda>n. n \<noteq> 0" fla_live fla_span
  for bestFit
  by unfold_locales (rule Malloc_heap_law)

lemma NewFreeListAllocator_inv:
  assumes "unat st + unat len \<le> 2 ^ 64" and "unat len + 16 < 2 ^ 64" and "len \<noteq> 0"
  shows "fla_inv (NewFreeListAllocator st len)"
    and "fla_blocks (NewFreeListAllocator st len) = [Block st len False]"
proof -
  have "0 < unat len" using assms(3) unat_gt_0 by blast
  moreover have "dll (fla_store (NewFreeListAllocator st len)) (fla_Head (NewFreeListAllocator st len)) [0]"
    by (simp add: NewFreeListAllocator_def dll_def)
  ultimately show "fla_inv (NewFreeListAllocator st len)"
    and "fla_blocks (NewFreeListAllocator st len) = [Block st len False]"
    using assms fla_invI [of "NewFreeListAllocator st len" "[0]" "[Block st len False]"]
    by (simp_all add: NewFreeListAllocator_def block_of_def heap_ok_def)
qed

section \<open>Correctness\<close>

text \<open>
  C5: allocations never overlap. From a new heap, any sequence of requests of positive size is
  served without a loop that does not end; the regions obtained lie in the heap, are pairwise
  disjoint, and each lies in a block marked as allocated, whether by first fit or by best fit.
\<close>

theorem Malloc_disjoint:
  assumes "unat st + unat len \<le> 2 ^ 64" and "unat len + 16 < 2 ^ 64" and "len \<noteq> 0"
    and "\<forall>n\<in>set ns. n \<noteq> 0"
  shows "\<exists>fla rs. alloc_all (\<lambda>fla n. Malloc fla n bestFit) (NewFreeListAllocator st len) ns = Some (fla, rs) \<and>
     fla_inv fla \<and> sorted_wrt apart rs \<and>
     (\<forall>r\<in>set rs. within r (unat st, unat len) \<and> (\<exists>q\<in>set (fla_live fla). within r q))"
proof -
  have "fla_span (NewFreeListAllocator st len) = (unat st, unat len)"
    by (simp add: fla_span_def NewFreeListAllocator_def)
  with free_list.alloc_all_disjoint [OF NewFreeListAllocator_inv(1) [OF assms(1-3)] assms(4), of bestFit]
  show ?thesis by auto
qed

theorem Malloc_disjoint_witness:
  "\<exists>fla rs. alloc_all (\<lambda>fla n. Malloc fla n True) (NewFreeListAllocator 0x1000 0x400) [100, 200, 5000] = Some (fla, rs) \<and>
     fla_inv fla \<and> sorted_wrt apart rs \<and>
     (\<forall>r\<in>set rs. within r (0x1000, 0x400) \<and> (\<exists>q\<in>set (fla_live fla). within r q))"
  using Malloc_disjoint [of "0x1000" "0x400" "[100, 200, 5000]" True] by simp

text \<open>
  C34: what an allocation takes. A request for no bytes returns the null address and changes
  nothing. Any other request fails exactly when no free block is large enough, and
  then changes nothing; otherwise it takes the first large enough block (first fit), or the first
  of the smallest large enough blocks (best fit), and splits it when more than 16 bytes remain.
\<close>

theorem Malloc_by_policy:
  assumes "fla_inv fla"
  shows "\<exists>fla' r. Malloc fla sz bestFit = Some (fla', r) \<and> fla_inv fla' \<and>
     (if sz = 0 then fla' = fla \<and> r = Inr 0
      else case r of
        Inl e \<Rightarrow> e = ErrOutOfMemory \<and> fla' = fla \<and> (\<forall>b\<in>set (fla_blocks fla). \<not> fits sz b)
      | Inr a \<Rightarrow> \<exists>xs b ys. fla_blocks fla = xs @ b # ys \<and> chosen_by bestFit sz xs b ys \<and> a = blk_addr b \<and>
          fla_blocks fla' = xs @ carve sz b @ ys)"
proof (cases "sz = 0")
  case True
  with assms show ?thesis by (simp add: Malloc_def)
next
  case False
  with Malloc_effect [OF assms False, of bestFit] show ?thesis unfolding if_not_P [OF False] by blast
qed

theorem Malloc_by_policy_witness:
  "\<exists>fla' r. Malloc (NewFreeListAllocator 0x1000 0x400) 100 False = Some (fla', r) \<and> fla_inv fla' \<and>
     (case r of
        Inl e \<Rightarrow> e = ErrOutOfMemory \<and> fla' = NewFreeListAllocator 0x1000 0x400 \<and>
          (\<forall>b\<in>set (fla_blocks (NewFreeListAllocator 0x1000 0x400)). \<not> fits 100 b)
      | Inr a \<Rightarrow> \<exists>xs b ys. fla_blocks (NewFreeListAllocator 0x1000 0x400) = xs @ b # ys \<and>
          chosen_by False 100 xs b ys \<and> a = blk_addr b \<and> fla_blocks fla' = xs @ carve 100 b @ ys)"
  using Malloc_by_policy [of "NewFreeListAllocator 0x1000 0x400" 100 False, OF NewFreeListAllocator_inv(1)] by simp

text \<open>
  C4: a deallocation undoes an allocation. After a successful request, freeing the address that
  it returned succeeds, and the coalescing restores the list of blocks and the count of
  allocated bytes that the heap had before.
\<close>

theorem Free_Malloc:
  assumes "fla_inv fla" and "sz \<noteq> 0" and "Malloc fla sz bestFit = Some (fla1, Inr a)"
  shows "\<exists>fla2. Free fla1 a = Some (fla2, None) \<and> fla_inv fla2 \<and> fla_blocks fla2 = fla_blocks fla \<and>
     fla_AllocatedBytes fla2 = fla_AllocatedBytes fla"
proof -
  from Malloc_effect [OF assms(1,2), of bestFit] assms(3) obtain xs b ys where
    m: "fla_inv fla1" "fla_blocks fla = xs @ b # ys" "fits sz b" "a = blk_addr b"
      "fla_blocks fla1 = xs @ carve sz b @ ys" by (auto simp: chosen_by_def)
  let ?c = "hd (carve sz b)"
  obtain zs where z: "carve sz b = ?c # zs" using carve_hd(1) by blast
  have fl: "fla_blocks fla1 = xs @ ?c # (zs @ ys)" using m(5) z by (metis append_Cons)
  have c: "blk_used ?c" "blk_addr ?c = a" using carve_hd(2,3) [of sz b] m(4) by auto
  from Free_effect [OF m(1), of a] obtain fla2 r where
    f: "Free fla1 a = Some (fla2, r)" "fla_inv fla2" and
    r: "case r of
        Some e \<Rightarrow> e = ErrInvalidFree \<and> fla2 = fla1 \<and> (\<forall>b\<in>set (fla_blocks fla1). blk_used b \<longrightarrow> blk_addr b \<noteq> a)
      | None \<Rightarrow> \<exists>xs b ys. fla_blocks fla1 = xs @ b # ys \<and> blk_used b \<and> blk_addr b = a \<and>
          fla_blocks fla2 = release xs b ys" by blast
  have "r = None" using r c fl by (cases r) auto
  with r obtain xs' b' ys' where r': "fla_blocks fla1 = xs' @ b' # ys'" "blk_addr b' = a"
    "fla_blocks fla2 = release xs' b' ys'" by auto
  have ok: "heap_ok (fla_HeapStart fla1) (fla_TotalSize fla1) (xs @ ?c # (zs @ ys))"
    using m(1) fl by (simp add: fla_inv_def)
  have "xs' = xs \<and> b' = ?c \<and> ys' = zs @ ys"
    using heap_ok_split [OF ok, of xs' b' ys'] r'(1,2) c(2) fl by simp
  then have "fla_blocks fla2 = fla_blocks fla"
    using release_carve [of xs b ys sz] assms(1) m(2,3) r'(3) z
    by (metis append_Nil2 fla_inv_def heap_ok_def list.sel(3) m(2))
  moreover from this have "fla_AllocatedBytes fla2 = fla_AllocatedBytes fla"
    using f(2) assms(1) by (simp add: fla_inv_def)
  ultimately show ?thesis using f \<open>r = None\<close> by blast
qed

theorem Free_Malloc_witness:
  "\<exists>fla1 a fla2. Malloc (NewFreeListAllocator 0x1000 0x400) 100 False = Some (fla1, Inr a) \<and>
     Free fla1 a = Some (fla2, None) \<and> fla_inv fla2 \<and> fla_blocks fla2 = [Block 0x1000 0x400 False] \<and>
     fla_AllocatedBytes fla2 = 0"
proof -
  let ?n = "NewFreeListAllocator 0x1000 0x400"
  have inv: "fla_inv ?n" "fla_blocks ?n = [Block 0x1000 0x400 False]"
    by (rule NewFreeListAllocator_inv; simp)+
  have m: "Malloc ?n 100 False = Some (the (map_option fst (Malloc ?n 100 False)), Inr 0x1000)"
    by code_simp
  from Free_Malloc [OF inv(1) _ m] m inv(2) show ?thesis
    by (auto simp: NewFreeListAllocator_def)
qed

text \<open>
  C35: freeing. An address that is not the start of an allocated block, a block freed before
  included, is refused without a change; and when the last allocated block is freed, the heap is
  one free block again.
\<close>

theorem Free_all_coalesces:
  assumes "fla_inv fla" and "fla_TotalSize fla \<noteq> 0"
  shows "\<exists>fla' r. Free fla a = Some (fla', r) \<and> fla_inv fla' \<and>
     (r = None \<longleftrightarrow> (\<exists>b\<in>set (fla_blocks fla). blk_used b \<and> blk_addr b = a)) \<and>
     (r \<noteq> None \<longrightarrow> r = Some ErrInvalidFree \<and> fla' = fla) \<and>
     (fla_live fla' = [] \<longrightarrow> fla_blocks fla' = [Block (fla_HeapStart fla) (fla_TotalSize fla) False])"
proof -
  from Free_effect [OF assms(1), of a] obtain fla' r where
    f: "Free fla a = Some (fla', r)" "fla_inv fla'" "fla_HeapStart fla' = fla_HeapStart fla"
      "fla_TotalSize fla' = fla_TotalSize fla" and
    r: "case r of
        Some e \<Rightarrow> e = ErrInvalidFree \<and> fla' = fla \<and> (\<forall>b\<in>set (fla_blocks fla). blk_used b \<longrightarrow> blk_addr b \<noteq> a)
      | None \<Rightarrow> \<exists>xs b ys. fla_blocks fla = xs @ b # ys \<and> blk_used b \<and> blk_addr b = a \<and>
          fla_blocks fla' = release xs b ys" by blast
  have "fla_blocks fla' = [Block (fla_HeapStart fla) (fla_TotalSize fla) False]" if "fla_live fla' = []"
  proof (rule heap_ok_single)
    show "heap_ok (fla_HeapStart fla) (fla_TotalSize fla) (fla_blocks fla')"
      using f(2-4) by (simp add: fla_inv_def)
    show "\<forall>b\<in>set (fla_blocks fla'). \<not> blk_used b"
      using that by (simp add: fla_live_def filter_empty_conv)
  qed (rule assms(2))
  with f r show ?thesis by (cases r) auto
qed

theorem Free_all_coalesces_witness:
  "\<exists>fla' r. Free (NewFreeListAllocator 0x1000 0x400) 0x1000 = Some (fla', r) \<and> fla_inv fla' \<and>
     (r = None \<longleftrightarrow> (\<exists>b\<in>set (fla_blocks (NewFreeListAllocator 0x1000 0x400)). blk_used b \<and> blk_addr b = 0x1000)) \<and>
     (r \<noteq> None \<longrightarrow> r = Some ErrInvalidFree \<and> fla' = NewFreeListAllocator 0x1000 0x400) \<and>
     (fla_live fla' = [] \<longrightarrow> fla_blocks fla' = [Block 0x1000 0x400 False])"
proof -
  let ?n = "NewFreeListAllocator 0x1000 0x400"
  have "fla_inv ?n" by (rule NewFreeListAllocator_inv; simp)
  moreover have "fla_HeapStart ?n = 0x1000" "fla_TotalSize ?n = 0x400" by (simp_all add: NewFreeListAllocator_def)
  ultimately show ?thesis using Free_all_coalesces [of ?n "0x1000"] by simp
qed

end
