(* ===== verification/Buddy.thy ===== *)
theory Buddy
  imports Heap_Interface
begin

text \<open>
  The buddy allocator of \<open>pkg/memory/allocator.go\<close>. A node is a tree; a node pointer that the
  search returns is the path to the node, and the tree that the search leaves behind is returned
  with it. A shift by a negative count panics (\<^const>\<open>None\<close>); a shift by 64 or more gives 0, so that
  the loop that looks for the order of a request may not end, and it is a partial function.
\<close>

section \<open>Nodes and the allocator\<close>

datatype BuddyNode =
  BuddyNode (bn_Addr: u64) (bn_Order: int) (bn_IsAllocated: bool)
    (bn_Left: "BuddyNode option") (bn_Right: "BuddyNode option")

record BuddyAllocator =
  ba_BaseAddr :: u64
  ba_MinOrder :: int
  ba_MaxOrder :: int
  ba_Root :: BuddyNode

definition NewBuddyAllocator :: "u64 \<Rightarrow> int \<Rightarrow> int \<Rightarrow> BuddyAllocator" where
  "NewBuddyAllocator baseAddr minOrder maxOrder =
     \<lparr>ba_BaseAddr = baseAddr, ba_MinOrder = minOrder, ba_MaxOrder = maxOrder,
      ba_Root = BuddyNode baseAddr maxOrder False None None\<rparr>"

text \<open>The expression \<open>1 << k\<close> at type \<open>uint64\<close>.\<close>

definition shift1 :: "int \<Rightarrow> u64 option" where
  "shift1 k = (if k < 0 then None else Some (push_bit (nat k) 1))"

partial_function (option) target_order :: "int \<Rightarrow> u64 \<Rightarrow> int option" where
  "target_order k sz =
     (case shift1 k of
        None \<Rightarrow> None
      | Some n \<Rightarrow> if n < sz then target_order (k + 1) sz else Some k)"

declare target_order.simps [code]

text \<open>
  The search: \<^const>\<open>None\<close> is a panic, otherwise the tree with the splits that were made and the
  path to the node found, if any (\<^const>\<open>False\<close> goes left).
\<close>

fun bn_weight :: "int \<Rightarrow> BuddyNode \<Rightarrow> nat" where
  "bn_weight t (BuddyNode a k u l r) =
     Suc (nat (k - t)) + (case l of None \<Rightarrow> 0 | Some n \<Rightarrow> bn_weight t n) +
       (case r of None \<Rightarrow> 0 | Some n \<Rightarrow> bn_weight t n)"

function findAndSplit :: "BuddyNode \<Rightarrow> int \<Rightarrow> (BuddyNode \<times> bool list option) option" where
  "findAndSplit (BuddyNode a k u l r) t =
     (if u then Some (BuddyNode a k u l r, None)
      else
        case (l, r) of
          (None, None) \<Rightarrow>
            if k = t then Some (BuddyNode a k u l r, Some [])
            else if t < k then
              (case shift1 (k - 1) of
                 None \<Rightarrow> None
               | Some childSize \<Rightarrow>
                   let left = BuddyNode a (k - 1) False None None;
                       right = BuddyNode (a + childSize) (k - 1) False None None
                   in map_option (\<lambda>(n, p). (BuddyNode a k u (Some n) (Some right), map_option (Cons False) p))
                        (findAndSplit left t))
            else Some (BuddyNode a k u l r, None)
        | (None, Some _) \<Rightarrow> None
        | (Some ln, _) \<Rightarrow>
            (case findAndSplit ln t of
               None \<Rightarrow> None
             | Some (ln', Some p) \<Rightarrow> Some (BuddyNode a k u (Some ln') r, Some (False # p))
             | Some (ln', None) \<Rightarrow>
                 (case r of
                    None \<Rightarrow> None
                  | Some rn \<Rightarrow>
                      map_option (\<lambda>(n, p). (BuddyNode a k u (Some ln') (Some n), map_option (Cons True) p))
                        (findAndSplit rn t))))"
  by pat_completeness auto
termination
  by (relation "measure (\<lambda>(n, t). bn_weight t n)") auto

declare findAndSplit.simps [simp del]

text \<open>The assignment \<open>node.IsAllocated = true\<close> through the path.\<close>

fun mark_node :: "BuddyNode \<Rightarrow> bool list \<Rightarrow> BuddyNode \<times> u64" where
  "mark_node (BuddyNode a k u l r) [] = (BuddyNode a k True l r, a)"
| "mark_node (BuddyNode a k u l r) (False # p) =
     (case l of None \<Rightarrow> (BuddyNode a k u l r, 0)
      | Some n \<Rightarrow> let (n', x) = mark_node n p in (BuddyNode a k u (Some n') r, x))"
| "mark_node (BuddyNode a k u l r) (True # p) =
     (case r of None \<Rightarrow> (BuddyNode a k u l r, 0)
      | Some n \<Rightarrow> let (n', x) = mark_node n p in (BuddyNode a k u l (Some n'), x))"

definition Allocate :: "BuddyAllocator \<Rightarrow> u64 \<Rightarrow> (BuddyAllocator \<times> (alloc_error + u64)) option" where
  "Allocate ba sz =
     (case target_order (ba_MinOrder ba) sz of
        None \<Rightarrow> None
      | Some t \<Rightarrow>
          if ba_MaxOrder ba < t then
            (case shift1 (ba_MaxOrder ba) of None \<Rightarrow> None | Some _ \<Rightarrow> Some (ba, Inl ErrOutOfMemory))
          else
            case findAndSplit (ba_Root ba) t of
              None \<Rightarrow> None
            | Some (root, None) \<Rightarrow> Some (ba\<lparr>ba_Root := root\<rparr>, Inl ErrOutOfMemory)
            | Some (root, Some p) \<Rightarrow>
                let (root', addr) = mark_node root p in Some (ba\<lparr>ba_Root := root'\<rparr>, Inr addr))"

section \<open>What a tree denotes\<close>

text \<open>
  A well-formed node covers \<open>2 ^ k\<close> bytes that do not wrap; a node that is split has two halves and
  is not allocated itself.
\<close>

definition bn_span :: "BuddyNode \<Rightarrow> region" where
  "bn_span n = (unat (bn_Addr n), 2 ^ nat (bn_Order n))"

fun bn_ok :: "BuddyNode \<Rightarrow> bool" where
  "bn_ok (BuddyNode a k u l r) \<longleftrightarrow> 0 \<le> k \<and> unat a + 2 ^ nat k \<le> 2 ^ 64 \<and>
     (case l of
        None \<Rightarrow> r = None
      | Some ln \<Rightarrow> \<not> u \<and> 1 \<le> k \<and> bn_Addr ln = a \<and> bn_Order ln = k - 1 \<and> bn_ok ln \<and>
          (case r of
             None \<Rightarrow> False
           | Some rn \<Rightarrow> bn_Addr rn = a + push_bit (nat (k - 1)) 1 \<and> bn_Order rn = k - 1 \<and> bn_ok rn))"

fun bn_live :: "BuddyNode \<Rightarrow> region list" where
  "bn_live (BuddyNode a k u l r) =
     (if u then [(unat a, 2 ^ nat k)] else []) @
     (case l of None \<Rightarrow> [] | Some n \<Rightarrow> bn_live n) @ (case r of None \<Rightarrow> [] | Some n \<Rightarrow> bn_live n)"

text \<open>The orders of the free blocks.\<close>

fun bn_free :: "BuddyNode \<Rightarrow> int list" where
  "bn_free (BuddyNode a k u l r) =
     (if l = None \<and> r = None \<and> \<not> u then [k] else []) @
     (case l of None \<Rightarrow> [] | Some n \<Rightarrow> bn_free n) @ (case r of None \<Rightarrow> [] | Some n \<Rightarrow> bn_free n)"

section \<open>Arithmetic\<close>

lemma unat_push_bit_1: "n < 64 \<Longrightarrow> unat (push_bit n 1 :: u64) = 2 ^ n"
proof -
  assume "n < 64"
  then have "unat (push_bit n 1 :: u64) = take_bit 64 (push_bit n 1)"
    by (simp only: unsigned_push_bit_eq unsigned_1 len_bit0 len_num1) simp
  also have "\<dots> = 2 ^ n" using \<open>n < 64\<close> by (simp add: push_bit_eq_mult take_bit_nat_eq_self_iff)
  finally show ?thesis .
qed

lemma half_addr:
  fixes a :: u64
  assumes "1 \<le> k" and "unat a + 2 ^ nat k \<le> 2 ^ 64"
  shows "unat (a + push_bit (nat (k - 1)) 1) = unat a + 2 ^ nat (k - 1)"
    and "(2 :: nat) ^ nat k = 2 ^ nat (k - 1) + 2 ^ nat (k - 1)"
proof -
  have k: "nat k = Suc (nat (k - 1))" using assms(1) by simp
  then show two: "(2 :: nat) ^ nat k = 2 ^ nat (k - 1) + 2 ^ nat (k - 1)" by simp
  have "(2 :: nat) ^ nat k \<le> 2 ^ 64" using assms(2) by linarith
  then have "nat k \<le> 64" by (rule power_le_imp_le_exp [rotated]) simp
  then have "nat (k - 1) < 64" using k by simp
  then have p: "unat (push_bit (nat (k - 1)) 1 :: u64) = 2 ^ nat (k - 1)" by (rule unat_push_bit_1)
  have "(0 :: nat) < 2 ^ nat (k - 1)" by simp
  then have "unat a + 2 ^ nat (k - 1) < 2 ^ 64" using assms(2) unfolding two by linarith
  then show "unat (a + push_bit (nat (k - 1)) 1) = unat a + 2 ^ nat (k - 1)"
    using unat_add_lem [of a "push_bit (nat (k - 1)) 1"] unfolding p by simp
qed

lemma target_order_spec:
  assumes "0 \<le> k" and "k \<le> 63" and "unat sz \<le> 2 ^ 63"
  shows "\<exists>j. target_order k sz = Some j \<and> k \<le> j \<and> j \<le> 63 \<and> unat sz \<le> 2 ^ nat j \<and>
     (\<forall>i. k \<le> i \<and> i < j \<longrightarrow> 2 ^ nat i < unat sz)"
  using assms
proof (induction "nat (63 - k)" arbitrary: k rule: less_induct)
  case less
  have sh: "shift1 k = Some (push_bit (nat k) 1)" using less.prems(1) by (simp add: shift1_def)
  have un: "unat (push_bit (nat k) 1 :: u64) = 2 ^ nat k" using less.prems by (intro unat_push_bit_1) simp
  have lt: "push_bit (nat k) 1 < sz \<longleftrightarrow> 2 ^ nat k < unat sz" unfolding word_less_nat_alt un ..
  show ?case
  proof (cases "2 ^ nat k < unat sz")
    case True
    have "k \<noteq> 63" using True less.prems(3) by auto
    then have "\<exists>j. target_order (k + 1) sz = Some j \<and> k + 1 \<le> j \<and> j \<le> 63 \<and> unat sz \<le> 2 ^ nat j \<and>
        (\<forall>i. k + 1 \<le> i \<and> i < j \<longrightarrow> 2 ^ nat i < unat sz)"
      using less.prems by (intro less.hyps) auto
    then obtain j where j: "target_order (k + 1) sz = Some j" "k + 1 \<le> j" "j \<le> 63" "unat sz \<le> 2 ^ nat j"
      "\<forall>i. k + 1 \<le> i \<and> i < j \<longrightarrow> 2 ^ nat i < unat sz" by blast
    have "\<forall>i. k \<le> i \<and> i < j \<longrightarrow> 2 ^ nat i < unat sz"
      using j(5) True by (metis order_le_less zless_imp_add1_zle)
    moreover have "target_order k sz = target_order (k + 1) sz"
      using lt True by (subst target_order.simps) (simp only: sh option.case if_True)
    ultimately show ?thesis using j by auto
  next
    case False
    then have "target_order k sz = Some k"
      using lt by (subst target_order.simps) (simp only: sh option.case if_False)
    with False less.prems show ?thesis by auto
  qed
qed

text \<open>When the loop stops, the shift it stopped at covers the request.\<close>

lemma shift1_bound: "shift1 k = Some n \<Longrightarrow> unat n \<le> 2 ^ 63"
proof -
  assume "shift1 k = Some n"
  then have n: "n = push_bit (nat k) 1" by (simp add: shift1_def split: if_splits)
  show ?thesis
  proof (cases "nat k < 64")
    case True
    then have "(2 :: nat) ^ nat k \<le> 2 ^ 63" by (intro power_increasing) auto
    then show ?thesis unfolding n unat_push_bit_1 [OF True] .
  next
    case False
    then have "n = 0" unfolding n by (simp add: push_bit_eq_mult)
    then show ?thesis by simp
  qed
qed

lemma target_order_stops:
  assumes "target_order k sz = Some j"
  shows "unat sz \<le> 2 ^ 63"
proof (rule target_order.raw_induct [of "\<lambda>k sz j. unat sz \<le> 2 ^ 63", OF _ assms])
  fix f :: "int \<Rightarrow> u64 \<Rightarrow> int option" and k sz j
  assume IH: "\<And>k sz j. f k sz = Some j \<Longrightarrow> unat sz \<le> 2 ^ 63"
    and body: "(case shift1 k of None \<Rightarrow> None | Some n \<Rightarrow> if n < sz then f (k + 1) sz else Some k) = Some j"
  then obtain n where n: "shift1 k = Some n" by (cases "shift1 k") auto
  show "unat sz \<le> 2 ^ 63"
  proof (cases "n < sz")
    case True
    with body n have "f (k + 1) sz = Some j" by simp
    then show ?thesis by (rule IH)
  next
    case False
    then have "unat sz \<le> unat n" by (simp add: not_less word_le_nat_alt)
    with shift1_bound [OF n] show ?thesis by (rule order_trans [rotated])
  qed
qed

section \<open>The search\<close>

lemma split_ok:
  assumes "bn_ok (BuddyNode a k u (Some ln) (Some rn))"
  shows "\<not> u" "1 \<le> k" "bn_ok ln" "bn_ok rn" "bn_Addr ln = a" "bn_Order ln = k - 1" "bn_Order rn = k - 1"
    and "unat (bn_Addr rn) = unat a + 2 ^ nat (k - 1)"
    and "within (bn_span ln) (bn_span (BuddyNode a k u (Some ln) (Some rn)))"
    and "within (bn_span rn) (bn_span (BuddyNode a k u (Some ln) (Some rn)))"
    and "apart (bn_span ln) (bn_span rn)"
proof -
  show b: "\<not> u" "1 \<le> k" "bn_ok ln" "bn_ok rn" "bn_Addr ln = a" "bn_Order ln = k - 1" "bn_Order rn = k - 1"
    and r: "unat (bn_Addr rn) = unat a + 2 ^ nat (k - 1)"
    using assms half_addr(1) [of k a] by auto
  have "(2 :: nat) ^ nat k = 2 ^ nat (k - 1) + 2 ^ nat (k - 1)" using assms half_addr(2) [of k a] b by auto
  then show "within (bn_span ln) (bn_span (BuddyNode a k u (Some ln) (Some rn)))"
    "within (bn_span rn) (bn_span (BuddyNode a k u (Some ln) (Some rn)))" "apart (bn_span ln) (bn_span rn)"
    using b r by (simp_all add: within_def apart_def bn_span_def)
qed

lemma bn_live_within: "bn_ok n \<Longrightarrow> q \<in> set (bn_live n) \<Longrightarrow> within q (bn_span n)"
proof (induction n rule: bn_ok.induct)
  case (1 a k u l r)
  show ?case
  proof (cases l)
    case None
    with 1 show ?thesis by (auto simp: bn_span_def split: if_splits)
  next
    case (Some ln)
    with 1 obtain rn where r: "r = Some rn" by (cases r) auto
    from Some r 1(3) have ok: "bn_ok (BuddyNode a k u (Some ln) (Some rn))" by simp
    from 1(4) have "q \<in> set (bn_live ln) \<or> q \<in> set (bn_live rn)" using split_ok(1) [OF ok] Some r by auto
    then show ?thesis
      using 1(1) [OF Some split_ok(3) [OF ok]] 1(2) [OF Some r split_ok(4) [OF ok]] split_ok(9,10) [OF ok]
        within_trans Some r by blast
  qed
qed

lemma bn_free_le: "bn_ok n \<Longrightarrow> k \<in> set (bn_free n) \<Longrightarrow> k \<le> bn_Order n"
proof (induction n rule: bn_ok.induct)
  case (1 a k' u l r)
  show ?case
  proof (cases l)
    case None
    with 1 show ?thesis by (auto split: if_splits)
  next
    case (Some ln)
    with 1 obtain rn where r: "r = Some rn" by (cases r) auto
    from Some r 1(3) have ok: "bn_ok (BuddyNode a k' u (Some ln) (Some rn))" by simp
    from 1(4) have "k \<in> set (bn_free ln) \<or> k \<in> set (bn_free rn)" using Some r by auto
    then show ?thesis
      using 1(1) [OF Some split_ok(3) [OF ok]] 1(2) [OF Some r split_ok(4) [OF ok]] split_ok(6,7) [OF ok]
        Some r by fastforce
  qed
qed

text \<open>What the marking of a found node achieves, and what the search achieves.\<close>

definition marked :: "BuddyNode \<Rightarrow> int \<Rightarrow> BuddyNode \<Rightarrow> u64 \<Rightarrow> bool" where
  "marked n t m x \<longleftrightarrow> bn_ok m \<and> bn_Addr m = bn_Addr n \<and> bn_Order m = bn_Order n \<and>
     set (bn_live m) = insert (unat x, 2 ^ nat t) (set (bn_live n)) \<and>
     within (unat x, 2 ^ nat t) (bn_span n) \<and> (\<forall>q\<in>set (bn_live n). apart (unat x, 2 ^ nat t) q) \<and>
     2 ^ nat t dvd unat x - unat (bn_Addr n)"

definition found :: "BuddyNode \<Rightarrow> int \<Rightarrow> BuddyNode \<Rightarrow> bool list option \<Rightarrow> bool" where
  "found n t n' p \<longleftrightarrow> bn_ok n' \<and> bn_Addr n' = bn_Addr n \<and> bn_Order n' = bn_Order n \<and>
     bn_live n' = bn_live n \<and>
     (case p of
        None \<Rightarrow> n' = n \<and> (\<forall>k\<in>set (bn_free n). k < t)
      | Some p \<Rightarrow> (\<exists>k\<in>set (bn_free n). t \<le> k) \<and> (\<exists>m x. mark_node n' p = (m, x) \<and> marked n t m x))"

lemma marked_left:
  assumes "bn_ok (BuddyNode a k False (Some ln) (Some rn))" and "marked ln t m x"
  shows "marked (BuddyNode a k False (Some ln) (Some rn)) t (BuddyNode a k False (Some m) (Some rn)) x"
proof -
  note sp = split_ok [OF assms(1)]
  have w: "within (unat x, 2 ^ nat t) (bn_span ln)" using assms(2) by (simp add: marked_def)
  have "apart (unat x, 2 ^ nat t) q" if "q \<in> set (bn_live rn)" for q
    using apart_within [OF sp(11) w] bn_live_within [OF sp(4) that] by blast
  moreover have "within (unat x, 2 ^ nat t) (bn_span (BuddyNode a k False (Some ln) (Some rn)))"
    using w sp(9) within_trans by blast
  ultimately show ?thesis using assms sp by (auto simp: marked_def)
qed

lemma marked_right:
  assumes "bn_ok (BuddyNode a k False (Some ln) (Some rn))" and "marked rn t m x" and "0 \<le> t" and "t \<le> k - 1"
  shows "marked (BuddyNode a k False (Some ln) (Some rn)) t (BuddyNode a k False (Some ln) (Some m)) x"
proof -
  note sp = split_ok [OF assms(1)]
  have w: "within (unat x, 2 ^ nat t) (bn_span rn)" using assms(2) by (simp add: marked_def)
  have "apart (unat x, 2 ^ nat t) q" if "q \<in> set (bn_live ln)" for q
    using apart_within [of "bn_span rn" "bn_span ln", OF _ w] sp(11) bn_live_within [OF sp(3) that] apart_sym
    by blast
  moreover have "within (unat x, 2 ^ nat t) (bn_span (BuddyNode a k False (Some ln) (Some rn)))"
    using w sp(10) within_trans by blast
  moreover have "2 ^ nat t dvd unat x - unat a"
  proof -
    have "unat a + 2 ^ nat (k - 1) \<le> unat x" using w sp(8) by (simp add: within_def bn_span_def)
    then have "unat x - unat a = (unat x - unat (bn_Addr rn)) + 2 ^ nat (k - 1)" using sp(8) by simp
    moreover have "(2 :: nat) ^ nat t dvd 2 ^ nat (k - 1)" using assms(3,4) by (intro le_imp_power_dvd) simp
    ultimately show ?thesis using assms(2) by (simp add: marked_def)
  qed
  ultimately show ?thesis using assms sp by (auto simp: marked_def)
qed

lemma fresh_split:
  assumes "bn_ok (BuddyNode a k False None None)" and "1 \<le> k"
  shows "bn_ok (BuddyNode a k False (Some (BuddyNode a (k - 1) False None None))
     (Some (BuddyNode (a + push_bit (nat (k - 1)) 1) (k - 1) False None None)))"
  using assms half_addr [of k a] by auto

lemma found_left:
  assumes "bn_ok (BuddyNode a k False (Some ln) (Some rn))" and "found ln t ln' (Some p)"
    and "bn_live n = bn_live (BuddyNode a k False (Some ln) (Some rn))"
    and "bn_Addr n = a" and "bn_Order n = k" and "\<exists>j\<in>set (bn_free n). t \<le> j"
  shows "found n t (BuddyNode a k False (Some ln') (Some rn)) (Some (False # p))"
proof -
  from assms(2) obtain m x where m: "mark_node ln' p = (m, x)" "marked ln t m x" by (auto simp: found_def)
  from marked_left [OF assms(1) m(2)] m(1) assms split_ok [OF assms(1)] show ?thesis
    by (auto simp: found_def marked_def bn_span_def)
qed

lemma findAndSplit_found:
  assumes "bn_ok n" and "0 \<le> t"
  shows "\<exists>n' p. findAndSplit n t = Some (n', p) \<and> found n t n' p"
  using assms
proof (induction n t rule: findAndSplit.induct)
  case (1 a k u l r t)
  consider "u" | "\<not> u" "l = None" "k = t" | "\<not> u" "l = None" "t < k" | "\<not> u" "l = None" "k < t"
    | ln where "\<not> u" "l = Some ln" by fastforce
  then show ?case
  proof cases
    case 1
    with \<open>bn_ok (BuddyNode a k u l r)\<close> show ?thesis
      by (auto simp: findAndSplit.simps found_def split: option.splits)
  next
    case 2
    with 1(4) show ?thesis by (auto simp: findAndSplit.simps found_def marked_def bn_span_def)
  next
    case 3
    have r: "r = None" using 1(4) 3 by simp
    let ?l = "BuddyNode a (k - 1) False None None" and ?c = "push_bit (nat (k - 1)) 1"
    let ?r = "BuddyNode (a + ?c) (k - 1) False None None"
    have ok: "bn_ok (BuddyNode a k False (Some ?l) (Some ?r))"
      using fresh_split [of a k] 1(4) 3 r 1(5) by simp
    have sh: "shift1 (k - 1) = Some ?c" using 3 1(5) by (simp add: shift1_def)
    from 1(1) [OF 3(1) _ 3(2) r _ 3(3) sh refl refl split_ok(3) [OF ok] 1(5)] 3 obtain n' p where
      n': "findAndSplit ?l t = Some (n', p)" "found ?l t n' p" by auto
    then obtain p' where p: "p = Some p'" using 3(3) by (cases p) (auto simp: found_def)
    have "found (BuddyNode a k u l r) t (BuddyNode a k False (Some n') (Some ?r)) (Some (False # p'))"
      using 3 r by (intro found_left [OF ok n'(2) [unfolded p]]) auto
    moreover have "findAndSplit (BuddyNode a k u l r) t =
        Some (BuddyNode a k False (Some n') (Some ?r), Some (False # p'))"
      using 3 r sh n'(1) p by (simp add: findAndSplit.simps [of a k] Let_def)
    ultimately show ?thesis by blast
  next
    case 4
    with 1(4) show ?thesis by (auto simp: findAndSplit.simps found_def)
  next
    case (5 ln)
    then obtain rn where r: "r = Some rn" using 1(4) by (cases r) auto
    have ok: "bn_ok (BuddyNode a k False (Some ln) (Some rn))" using 1(4) 5 r by simp
    note sp = split_ok [OF ok]
    from 1(2) [OF 5(1) refl 5(2)] sp(3) 1(5) obtain ln' p where
      ln': "findAndSplit ln t = Some (ln', p)" "found ln t ln' p" by auto
    show ?thesis
    proof (cases p)
      case (Some p')
      have "found (BuddyNode a k u l r) t (BuddyNode a k False (Some ln') (Some rn)) (Some (False # p'))"
        using 5 r ln'(2) Some by (intro found_left [OF ok ln'(2) [unfolded Some]]) (auto simp: found_def)
      with 5 r ln' Some show ?thesis by (auto simp: findAndSplit.simps [of a k])
    next
      case None
      then have same: "ln' = ln" "\<forall>j\<in>set (bn_free ln). j < t" using ln'(2) by (auto simp: found_def)
      from 1(3) [OF 5(1) refl 5(2) ln'(1) refl None r sp(4) 1(5)] obtain rn' q where
        rn': "findAndSplit rn t = Some (rn', q)" "found rn t rn' q" by auto
      have eq: "findAndSplit (BuddyNode a k u l r) t =
          Some (BuddyNode a k False (Some ln) (Some rn'), map_option (Cons True) q)"
        using 5 r ln'(1) None rn'(1) same(1) by (simp add: findAndSplit.simps [of a k])
      have "found (BuddyNode a k u l r) t (BuddyNode a k False (Some ln) (Some rn')) (map_option (Cons True) q)"
      proof (cases q)
        case None
        with rn'(2) ok 5 r same(2) show ?thesis by (auto simp: found_def)
      next
        case (Some q')
        with rn'(2) obtain m x where m: "mark_node rn' q' = (m, x)" "marked rn t m x"
          "\<exists>j\<in>set (bn_free rn). t \<le> j" by (auto simp: found_def)
        have "t \<le> k - 1" using m(3) bn_free_le [OF sp(4)] sp(7) by fastforce
        from marked_right [OF ok m(2) 1(5) this] m Some rn'(2) ok 5 r show ?thesis
          by (auto simp: found_def)
      qed
      with eq show ?thesis by blast
    qed
  qed
qed

section \<open>The allocator as a heap\<close>

definition ba_inv :: "BuddyAllocator \<Rightarrow> bool" where
  "ba_inv ba \<longleftrightarrow> bn_ok (ba_Root ba) \<and> bn_Addr (ba_Root ba) = ba_BaseAddr ba \<and>
     bn_Order (ba_Root ba) = ba_MaxOrder ba \<and> 0 \<le> ba_MinOrder ba \<and> ba_MinOrder ba \<le> 63 \<and> 0 \<le> ba_MaxOrder ba"

definition ba_live :: "BuddyAllocator \<Rightarrow> region list" where
  "ba_live ba = bn_live (ba_Root ba)"

definition ba_span :: "BuddyAllocator \<Rightarrow> region" where
  "ba_span ba = bn_span (ba_Root ba)"

text \<open>The order that a request is rounded up to.\<close>

definition fit_order :: "BuddyAllocator \<Rightarrow> u64 \<Rightarrow> int \<Rightarrow> bool" where
  "fit_order ba sz t \<longleftrightarrow> ba_MinOrder ba \<le> t \<and> unat sz \<le> 2 ^ nat t \<and>
     (ba_MinOrder ba < t \<longrightarrow> 2 ^ nat (t - 1) < unat sz)"

lemma Allocate_effect:
  assumes "ba_inv ba" and "unat sz \<le> 2 ^ 63"
  shows "\<exists>ba' r t. Allocate ba sz = Some (ba', r) \<and> ba_inv ba' \<and> fit_order ba sz t \<and> ba_span ba' = ba_span ba \<and>
     (case r of
        Inl e \<Rightarrow> e = ErrOutOfMemory \<and> ba' = ba \<and> (\<forall>k\<in>set (bn_free (ba_Root ba)). k < t)
      | Inr a \<Rightarrow> (\<exists>k\<in>set (bn_free (ba_Root ba)). t \<le> k) \<and> marked (ba_Root ba) t (ba_Root ba') a)"
proof -
  have ok: "bn_ok (ba_Root ba)" "0 \<le> ba_MinOrder ba" "ba_MinOrder ba \<le> 63" "0 \<le> ba_MaxOrder ba"
    "bn_Order (ba_Root ba) = ba_MaxOrder ba" using assms(1) by (auto simp: ba_inv_def)
  obtain t where t: "target_order (ba_MinOrder ba) sz = Some t" "ba_MinOrder ba \<le> t" "unat sz \<le> 2 ^ nat t"
    "\<forall>i. ba_MinOrder ba \<le> i \<and> i < t \<longrightarrow> 2 ^ nat i < unat sz"
    using target_order_spec [OF ok(2,3) assms(2)] by blast
  then have fo: "fit_order ba sz t" by (auto simp: fit_order_def)
  show ?thesis
  proof (cases "ba_MaxOrder ba < t")
    case True
    then have "Allocate ba sz = Some (ba, Inl ErrOutOfMemory)"
      using t(1) ok(4) by (simp add: Allocate_def shift1_def)
    moreover have "\<forall>k\<in>set (bn_free (ba_Root ba)). k < t" using bn_free_le [OF ok(1)] ok(5) True by fastforce
    ultimately show ?thesis using assms(1) fo by auto
  next
    case False
    from findAndSplit_found [OF ok(1), of t] ok(2) t(2) obtain n p where
      n: "findAndSplit (ba_Root ba) t = Some (n, p)" "found (ba_Root ba) t n p" by auto
    show ?thesis
    proof (cases p)
      case None
      then have "n = ba_Root ba" "\<forall>k\<in>set (bn_free (ba_Root ba)). k < t" using n(2) by (auto simp: found_def)
      with n(1) None t(1) False assms(1) fo show ?thesis by (auto simp: Allocate_def)
    next
      case (Some q)
      with n(2) obtain m x where m: "mark_node n q = (m, x)" "marked (ba_Root ba) t m x"
        "\<exists>k\<in>set (bn_free (ba_Root ba)). t \<le> k" by (auto simp: found_def)
      let ?ba = "ba\<lparr>ba_Root := m\<rparr>"
      have "Allocate ba sz = Some (?ba, Inr x)" using n(1) Some t(1) False m(1) by (simp add: Allocate_def)
      moreover have "ba_inv ?ba" "ba_span ?ba = ba_span ba"
        using assms(1) m(2) by (auto simp: ba_inv_def marked_def ba_span_def bn_span_def)
      ultimately show ?thesis using fo m(2,3) by fastforce
    qed
  qed
qed

lemma Allocate_heap_law:
  assumes "ba_inv ba" and "unat sz \<le> 2 ^ 63"
  shows "\<exists>ba' r. Allocate ba sz = Some (ba', r) \<and> ba_inv ba' \<and> ba_span ba' = ba_span ba \<and>
     (case r of
        Inl _ \<Rightarrow> set (ba_live ba') = set (ba_live ba)
      | Inr a \<Rightarrow> \<exists>m \<ge> unat sz. set (ba_live ba') = insert (unat a, m) (set (ba_live ba)) \<and>
          within (unat a, m) (ba_span ba) \<and> (\<forall>q\<in>set (ba_live ba). apart (unat a, m) q))"
proof -
  from Allocate_effect [OF assms] obtain ba' r t where
    a: "Allocate ba sz = Some (ba', r)" "ba_inv ba'" "fit_order ba sz t" "ba_span ba' = ba_span ba" and
    r: "case r of
        Inl e \<Rightarrow> e = ErrOutOfMemory \<and> ba' = ba \<and> (\<forall>k\<in>set (bn_free (ba_Root ba)). k < t)
      | Inr a \<Rightarrow> (\<exists>k\<in>set (bn_free (ba_Root ba)). t \<le> k) \<and> marked (ba_Root ba) t (ba_Root ba') a" by blast
  show ?thesis
  proof (cases r)
    case (Inl e)
    with a r show ?thesis by auto
  next
    case (Inr x)
    with r have "marked (ba_Root ba) t (ba_Root ba') x" by simp
    moreover have "unat sz \<le> 2 ^ nat t" using a(3) by (simp add: fit_order_def)
    ultimately show ?thesis using a Inr
      by (auto simp: marked_def ba_live_def ba_span_def intro!: exI [of _ "2 ^ nat t"])
  qed
qed

interpretation buddy: heap_allocator ba_inv Allocate "\<lambda>sz. unat sz \<le> 2 ^ 63" ba_live ba_span
  by unfold_locales (rule Allocate_heap_law)

lemma NewBuddyAllocator_inv:
  assumes "0 \<le> minO" and "minO \<le> 63" and "0 \<le> maxO" and "unat base + 2 ^ nat maxO \<le> 2 ^ 64"
  shows "ba_inv (NewBuddyAllocator base minO maxO)"
    and "ba_live (NewBuddyAllocator base minO maxO) = []"
    and "ba_span (NewBuddyAllocator base minO maxO) = (unat base, 2 ^ nat maxO)"
  using assms by (simp_all add: NewBuddyAllocator_def ba_inv_def ba_live_def ba_span_def bn_span_def)

section \<open>Correctness\<close>

text \<open>
  buddy blocks never overlap. From a new allocator, any sequence of requests of at most
  \<open>2 ^ 63\<close> bytes is served without a panic or an endless loop, and the regions obtained lie in the
  managed range and are pairwise disjoint.
\<close>

theorem Buddy_disjoint:
  assumes "0 \<le> minO" and "minO \<le> 63" and "0 \<le> maxO" and "unat base + 2 ^ nat maxO \<le> 2 ^ 64"
    and "\<forall>sz\<in>set szs. unat sz \<le> 2 ^ 63"
  shows "\<exists>ba rs. alloc_all Allocate (NewBuddyAllocator base minO maxO) szs = Some (ba, rs) \<and> ba_inv ba \<and>
     sorted_wrt apart rs \<and>
     (\<forall>r\<in>set rs. within r (unat base, 2 ^ nat maxO) \<and> (\<exists>q\<in>set (ba_live ba). within r q))"
  using buddy.alloc_all_disjoint [OF NewBuddyAllocator_inv(1) [OF assms(1-4)] assms(5)]
    NewBuddyAllocator_inv(3) [OF assms(1-4)] by auto

theorem Buddy_disjoint_witness:
  "\<exists>ba rs. alloc_all Allocate (NewBuddyAllocator 0x1000 4 10) [100, 20, 5000] = Some (ba, rs) \<and> ba_inv ba \<and>
     sorted_wrt apart rs \<and>
     (\<forall>r\<in>set rs. within r (0x1000, 0x400) \<and> (\<exists>q\<in>set (ba_live ba). within r q))"
  using Buddy_disjoint [of 4 10 "0x1000" "[100, 20, 5000]"] by simp

text \<open>
  C21: the block of a request. A request is rounded up to the least power of two that covers it
  and is at least the minimal block; it fails, without a change, exactly when no free block has
  that order or a larger one; otherwise the block obtained has exactly that size, is aligned to
  it relative to the base, and is disjoint from every block in use.
\<close>

theorem Allocate_least_order:
  assumes "ba_inv ba" and "unat sz \<le> 2 ^ 63"
  shows "\<exists>ba' r t. Allocate ba sz = Some (ba', r) \<and> ba_inv ba' \<and> fit_order ba sz t \<and>
     (case r of
        Inl e \<Rightarrow> e = ErrOutOfMemory \<and> ba' = ba \<and> (\<forall>k\<in>set (bn_free (ba_Root ba)). k < t)
      | Inr a \<Rightarrow> (\<exists>k\<in>set (bn_free (ba_Root ba)). t \<le> k) \<and>
          set (ba_live ba') = insert (unat a, 2 ^ nat t) (set (ba_live ba)) \<and>
          (\<forall>q\<in>set (ba_live ba). apart (unat a, 2 ^ nat t) q) \<and>
          2 ^ nat t dvd unat a - unat (ba_BaseAddr ba))"
proof -
  from Allocate_effect [OF assms] obtain ba' r t where
    a: "Allocate ba sz = Some (ba', r)" "ba_inv ba'" "fit_order ba sz t" and
    r: "case r of
        Inl e \<Rightarrow> e = ErrOutOfMemory \<and> ba' = ba \<and> (\<forall>k\<in>set (bn_free (ba_Root ba)). k < t)
      | Inr a \<Rightarrow> (\<exists>k\<in>set (bn_free (ba_Root ba)). t \<le> k) \<and> marked (ba_Root ba) t (ba_Root ba') a" by blast
  have "bn_Addr (ba_Root ba) = ba_BaseAddr ba" using assms(1) by (simp add: ba_inv_def)
  with r have "case r of
        Inl e \<Rightarrow> e = ErrOutOfMemory \<and> ba' = ba \<and> (\<forall>k\<in>set (bn_free (ba_Root ba)). k < t)
      | Inr a \<Rightarrow> (\<exists>k\<in>set (bn_free (ba_Root ba)). t \<le> k) \<and>
          set (ba_live ba') = insert (unat a, 2 ^ nat t) (set (ba_live ba)) \<and>
          (\<forall>q\<in>set (ba_live ba). apart (unat a, 2 ^ nat t) q) \<and>
          2 ^ nat t dvd unat a - unat (ba_BaseAddr ba)"
    by (cases r) (simp_all add: marked_def ba_live_def)
  with a show ?thesis by blast
qed

theorem Allocate_least_order_witness:
  "\<exists>ba' r t. Allocate (NewBuddyAllocator 0x1000 4 10) 100 = Some (ba', r) \<and> ba_inv ba' \<and>
     fit_order (NewBuddyAllocator 0x1000 4 10) 100 t \<and>
     (case r of Inl e \<Rightarrow> True | Inr a \<Rightarrow> set (ba_live ba') = {(unat a, 2 ^ nat t)} \<and> 2 ^ nat t dvd unat a - 0x1000)"
proof -
  let ?b = "NewBuddyAllocator 0x1000 4 10"
  have n: "ba_inv ?b" "ba_live ?b = []" by (rule NewBuddyAllocator_inv; simp)+
  have "ba_BaseAddr ?b = 0x1000" by (simp add: NewBuddyAllocator_def)
  with Allocate_least_order [OF n(1), of 100] n(2) show ?thesis
    by (simp split: sum.splits) blast
qed

text \<open>
  the loop that computes the order of a request does not end for a request of more than
  \<open>2 ^ 63\<close> bytes: the shift overflows to 0 and the error for a request beyond the capacity is
  never reached.
\<close>

theorem Allocate_huge_diverges:
  assumes "2 ^ 63 < unat sz"
  shows "Allocate ba sz = None"
  using assms target_order_stops [of "ba_MinOrder ba" sz]
  by (cases "target_order (ba_MinOrder ba) sz") (auto simp: Allocate_def)

theorem Allocate_huge_diverges_witness:
  "Allocate (NewBuddyAllocator 0 4 20) 0x8000000000000001 = None"
  by (rule Allocate_huge_diverges) simp

end
