(* ===== verification/Bankers.thy ===== *)
theory Bankers
  imports Go_Prelude
begin

text \<open>
  The banker's algorithm of \<open>pkg/concurrency/deadlock_banker.go\<close>. Vectors and matrices are lists
  with Go's index panics (\<^const>\<open>None\<close>); the loops over the columns and the rows are recursions on the
  list of their indices. The lines of the explanation are values with the data that the code
  prints. The theorems relate the safety check to the existence of a safe order, and requests to
  the safety check.
\<close>

section \<open>State\<close>

record BankersState =
  bs_NumProcesses :: int
  bs_NumResources :: int
  bs_ResourceNames :: "string list"
  bs_Available :: "int list"
  bs_Max :: "int list list"
  bs_Allocation :: "int list list"
  bs_Need :: "int list list"

text \<open>The built-in \<open>copy\<close> on a slice of zeros.\<close>

definition copy_into :: "int list \<Rightarrow> int list \<Rightarrow> int list" where
  "copy_into dst src = take (length dst) src @ drop (length src) dst"

definition NewBankersState :: "int \<Rightarrow> string list \<Rightarrow> int list \<Rightarrow> BankersState option" where
  "NewBankersState procCount resNames totalResources =
     (if procCount < 0 then None
      else
        let m = length resNames; zeros = replicate (nat procCount) (replicate m 0)
        in Some \<lparr>bs_NumProcesses = procCount, bs_NumResources = int m, bs_ResourceNames = resNames,
                 bs_Available = copy_into (replicate m 0) totalResources,
                 bs_Max = zeros, bs_Allocation = zeros, bs_Need = zeros\<rparr>)"

text \<open>Reading and writing a cell of a matrix.\<close>

definition cell :: "int list list \<Rightarrow> int \<Rightarrow> int \<Rightarrow> int option" where
  "cell M i j = Option.bind (go_index M i) (\<lambda>r. go_index r j)"

definition set_cell :: "int list list \<Rightarrow> int \<Rightarrow> int \<Rightarrow> int \<Rightarrow> int list list option" where
  "set_cell M i j v = Option.bind (go_index M i) (\<lambda>r. Option.bind (go_update r j v) (\<lambda>r'. go_update M i r'))"

section \<open>Claims\<close>

definition claim_column :: "int \<Rightarrow> int list \<Rightarrow> int list \<Rightarrow> int \<Rightarrow> BankersState \<Rightarrow> BankersState option" where
  "claim_column procIdx maxClaim currentAlloc j b = do {
     c \<leftarrow> go_index maxClaim j;
     mx \<leftarrow> set_cell (bs_Max b) procIdx j c;
     a \<leftarrow> go_index currentAlloc j;
     al \<leftarrow> set_cell (bs_Allocation b) procIdx j a;
     nd \<leftarrow> set_cell (bs_Need b) procIdx j (go_int (c - a));
     v \<leftarrow> go_index (bs_Available b) j;
     av \<leftarrow> go_update (bs_Available b) j (go_int (v - a));
     Some (b\<lparr>bs_Max := mx, bs_Allocation := al, bs_Need := nd, bs_Available := av\<rparr>)
   }"

fun claim_loop :: "int \<Rightarrow> int list \<Rightarrow> int list \<Rightarrow> nat list \<Rightarrow> BankersState \<Rightarrow> BankersState option" where
  "claim_loop p mc ca [] b = Some b"
| "claim_loop p mc ca (j # js) b = Option.bind (claim_column p mc ca (int j) b) (claim_loop p mc ca js)"

definition SetProcessClaim :: "BankersState \<Rightarrow> int \<Rightarrow> int list \<Rightarrow> int list \<Rightarrow> BankersState option" where
  "SetProcessClaim b procIdx maxClaim currentAlloc =
     claim_loop procIdx maxClaim currentAlloc [0..<nat (bs_NumResources b)] b"

section \<open>The safety check\<close>

datatype bank_line =
    LineInitial "int list"
  | LineExecutes nat "int list" "int list"
  | LineRisk
  | LineSafe "nat list"

fun can_execute :: "int list \<Rightarrow> int list \<Rightarrow> nat list \<Rightarrow> bool option" where
  "can_execute need work [] = Some True"
| "can_execute need work (j # js) = do {
     n \<leftarrow> go_index need (int j);
     w \<leftarrow> go_index work (int j);
     if w < n then Some False else can_execute need work js
   }"

fun release_loop :: "int list \<Rightarrow> int list \<Rightarrow> nat list \<Rightarrow> int list option" where
  "release_loop alloc work [] = Some work"
| "release_loop alloc work (j # js) = do {
     w \<leftarrow> go_index work (int j);
     a \<leftarrow> go_index alloc (int j);
     work' \<leftarrow> go_update work (int j) (go_int (w + a));
     release_loop alloc work' js
   }"

text \<open>The scan for a process that can finish: its index and the resources it leaves.\<close>

fun scan_loop :: "BankersState \<Rightarrow> int list \<Rightarrow> bool list \<Rightarrow> nat list \<Rightarrow> (nat \<times> int list) option option" where
  "scan_loop b work finish [] = Some None"
| "scan_loop b work finish (i # is) = do {
     f \<leftarrow> go_index finish (int i);
     if f then scan_loop b work finish is
     else do {
       need \<leftarrow> (if 0 < bs_NumResources b then go_index (bs_Need b) (int i) else Some []);
       ok \<leftarrow> can_execute need work [0..<nat (bs_NumResources b)];
       if ok then do {
         alloc \<leftarrow> (if 0 < bs_NumResources b then go_index (bs_Allocation b) (int i) else Some []);
         work' \<leftarrow> release_loop alloc work [0..<nat (bs_NumResources b)];
         Some (Some (i, work'))
       } else scan_loop b work finish is
     }
   }"

function safe_loop ::
  "BankersState \<Rightarrow> int list \<Rightarrow> bool list \<Rightarrow> nat list \<Rightarrow> bank_line list \<Rightarrow> (bool \<times> nat list \<times> bank_line list) option" where
  "safe_loop b work finish safeSeq log =
     (if \<not> int (length safeSeq) < bs_NumProcesses b then Some (True, safeSeq, log @ [LineSafe safeSeq])
      else
        case scan_loop b work finish [0..<nat (bs_NumProcesses b)] of
          None \<Rightarrow> None
        | Some None \<Rightarrow> Some (False, [], log @ [LineRisk])
        | Some (Some (i, work')) \<Rightarrow>
            (case go_index (bs_Need b) (int i) of
               None \<Rightarrow> None
             | Some need \<Rightarrow>
                 safe_loop b work' (finish[i := True]) (safeSeq @ [i]) (log @ [LineExecutes i need work'])))"
  by pat_completeness auto
termination
  by (relation "measure (\<lambda>(b, work, finish, safeSeq, log). nat (bs_NumProcesses b) - length safeSeq)") auto

declare safe_loop.simps [simp del]

definition CheckSafeState :: "BankersState \<Rightarrow> (bool \<times> nat list \<times> bank_line list) option" where
  "CheckSafeState b =
     (if bs_NumResources b < 0 \<or> bs_NumProcesses b < 0 then None
      else
        let work = copy_into (replicate (nat (bs_NumResources b)) 0) (bs_Available b);
            finish = replicate (nat (bs_NumProcesses b)) False
        in safe_loop b work finish [] [LineInitial work])"

section \<open>Requests\<close>

datatype bank_answer =
    TooMuch | MustWait | Unsafe "bank_line list" | Granted "nat list" "bank_line list"

text \<open>The comparison loops of a request: whether some component exceeds its bound.\<close>

fun exceeds :: "int list \<Rightarrow> (int \<Rightarrow> int option) \<Rightarrow> nat list \<Rightarrow> bool option" where
  "exceeds request bound [] = Some False"
| "exceeds request bound (j # js) = do {
     r \<leftarrow> go_index request (int j);
     n \<leftarrow> bound (int j);
     if n < r then Some True else exceeds request bound js
   }"

text \<open>One column of the hypothetical allocation; the rollback is the same with the sign changed.\<close>

definition grant_column :: "int \<Rightarrow> int \<Rightarrow> int list \<Rightarrow> int \<Rightarrow> BankersState \<Rightarrow> BankersState option" where
  "grant_column sign procIdx request j b = do {
     r \<leftarrow> go_index request j;
     v \<leftarrow> go_index (bs_Available b) j;
     av \<leftarrow> go_update (bs_Available b) j (go_int (v - sign * r));
     a \<leftarrow> cell (bs_Allocation b) procIdx j;
     al \<leftarrow> set_cell (bs_Allocation b) procIdx j (go_int (a + sign * r));
     n \<leftarrow> cell (bs_Need b) procIdx j;
     nd \<leftarrow> set_cell (bs_Need b) procIdx j (go_int (n - sign * r));
     Some (b\<lparr>bs_Available := av, bs_Allocation := al, bs_Need := nd\<rparr>)
   }"

fun grant_loop :: "int \<Rightarrow> int \<Rightarrow> int list \<Rightarrow> nat list \<Rightarrow> BankersState \<Rightarrow> BankersState option" where
  "grant_loop sign p req [] b = Some b"
| "grant_loop sign p req (j # js) b = Option.bind (grant_column sign p req (int j) b) (grant_loop sign p req js)"

definition RequestResources :: "BankersState \<Rightarrow> int \<Rightarrow> int list \<Rightarrow> (BankersState \<times> bool \<times> bank_answer) option" where
  "RequestResources b procIdx request = do {
     let js = [0..<nat (bs_NumResources b)];
     much \<leftarrow> exceeds request (cell (bs_Need b) procIdx) js;
     if much then Some (b, False, TooMuch)
     else do {
       wait \<leftarrow> exceeds request (go_index (bs_Available b)) js;
       if wait then Some (b, False, MustWait)
       else do {
         b1 \<leftarrow> grant_loop 1 procIdx request js b;
         (isSafe, seq, log) \<leftarrow> CheckSafeState b1;
         if isSafe then Some (b1, True, Granted seq log)
         else do {
           b2 \<leftarrow> grant_loop (-1) procIdx request js b1;
           Some (b2, False, Unsafe log)
         }
       }
     }
   }"

section \<open>Specification\<close>

definition vle :: "int list \<Rightarrow> int list \<Rightarrow> bool" where
  "vle xs ys \<longleftrightarrow> list_all2 (\<le>) xs ys"

definition vadd :: "int list \<Rightarrow> int list \<Rightarrow> int list" where
  "vadd xs ys = map2 (+) xs ys"

definition shape_ok :: "BankersState \<Rightarrow> bool" where
  "shape_ok b \<longleftrightarrow> bs_NumProcesses b = int (length (bs_Need b)) \<and> length (bs_Allocation b) = length (bs_Need b) \<and>
     bs_NumResources b = int (length (bs_Available b)) \<and>
     (\<forall>r\<in>set (bs_Need b) \<union> set (bs_Allocation b). length r = length (bs_Available b))"

text \<open>The units of a resource in the system: what is available and what is allocated.\<close>

definition resources :: "BankersState \<Rightarrow> nat \<Rightarrow> int" where
  "resources b j = bs_Available b ! j + sum_list (map (\<lambda>r. r ! j) (bs_Allocation b))"

text \<open>A well-formed state: the shape of the tables, numbers of 64 bits, and for each resource a number of units in the
  whole system that is a number of 64 bits.\<close>

definition bank_ok :: "BankersState \<Rightarrow> bool" where
  "bank_ok b \<longleftrightarrow> shape_ok b \<and> (\<forall>j < length (bs_Available b). - (2 ^ 63) \<le> bs_Available b ! j \<and> resources b j < 2 ^ 63) \<and>
     (\<forall>r\<in>set (bs_Need b). \<forall>x\<in>set r. int64 x)"

definition alloc_nonneg :: "BankersState \<Rightarrow> bool" where
  "alloc_nonneg b \<longleftrightarrow> (\<forall>r\<in>set (bs_Allocation b). \<forall>x\<in>set r. 0 \<le> x)"

text \<open>The processes of a list can run to completion one after the other.\<close>

fun runs :: "BankersState \<Rightarrow> int list \<Rightarrow> nat list \<Rightarrow> bool" where
  "runs b work [] \<longleftrightarrow> True"
| "runs b work (i # is) \<longleftrightarrow> vle (bs_Need b ! i) work \<and> runs b (vadd work (bs_Allocation b ! i)) is"

definition safe_order :: "BankersState \<Rightarrow> nat list \<Rightarrow> bool" where
  "safe_order b s \<longleftrightarrow> distinct s \<and> set s = {..<length (bs_Need b)} \<and> runs b (bs_Available b) s"

text \<open>The state after a grant, as vectors.\<close>

definition granted :: "BankersState \<Rightarrow> nat \<Rightarrow> int list \<Rightarrow> BankersState" where
  "granted b i req = b\<lparr>bs_Available := map2 (-) (bs_Available b) req,
     bs_Allocation := (bs_Allocation b)[i := vadd (bs_Allocation b ! i) req],
     bs_Need := (bs_Need b)[i := map2 (-) (bs_Need b ! i) req]\<rparr>"

section \<open>The loops on well-formed states\<close>

lemma vle_iff: "vle xs ys \<longleftrightarrow> length xs = length ys \<and> (\<forall>j < length xs. xs ! j \<le> ys ! j)"
  by (simp add: vle_def list_all2_conv_all_nth)

lemma length_vadd [simp]: "length (vadd xs ys) = min (length xs) (length ys)"
  by (simp add: vadd_def)

lemma go_index_nat: "go_index xs (int j) = (if j < length xs then Some (xs ! j) else None)"
  by (simp add: go_index_def)

lemma go_update_nat: "go_update xs (int j) v = (if j < length xs then Some (xs[j := v]) else None)"
  by (simp add: go_update_def)

lemma can_execute_all:
  "\<forall>j\<in>set js. j < length need \<and> j < length work \<Longrightarrow>
     can_execute need work js = Some (\<forall>j\<in>set js. need ! j \<le> work ! j)"
  by (induction js) (auto simp: go_index_nat)

lemma can_execute_vle:
  "length need = length work \<Longrightarrow> can_execute need work [0..<length work] = Some (vle need work)"
  by (subst can_execute_all) (auto simp: vle_iff)

text \<open>The effect of a loop that updates each component once.\<close>

definition upd_cols :: "(nat \<Rightarrow> int \<Rightarrow> int) \<Rightarrow> nat list \<Rightarrow> int list \<Rightarrow> int list" where
  "upd_cols f js xs = map (\<lambda>k. if k \<in> set js then f k (xs ! k) else xs ! k) [0..<length xs]"

lemma upd_cols_Nil [simp]: "upd_cols f [] xs = xs"
  by (simp add: upd_cols_def map_nth)

lemma length_upd_cols [simp]: "length (upd_cols f js xs) = length xs"
  by (simp add: upd_cols_def)

lemma upd_cols_Cons:
  "j \<notin> set js \<Longrightarrow> j < length xs \<Longrightarrow> upd_cols f js (xs[j := f j (xs ! j)]) = upd_cols f (j # js) xs"
  by (auto simp: upd_cols_def nth_list_update)

lemma upd_cols_all:
  "length ys = length xs \<Longrightarrow> upd_cols (\<lambda>k x. g x (ys ! k)) [0..<length xs] xs = map2 g xs ys"
  by (intro nth_equalityI) (simp_all add: upd_cols_def)

lemma release_loop_upd:
  "distinct js \<Longrightarrow> \<forall>j\<in>set js. j < length work \<Longrightarrow> length alloc = length work \<Longrightarrow>
     release_loop alloc work js = Some (upd_cols (\<lambda>k x. go_int (x + alloc ! k)) js work)"
  by (induction js arbitrary: work) (auto simp: go_index_nat go_update_nat upd_cols_Cons [symmetric])

lemma release_loop_vadd:
  assumes "length alloc = length work" and "\<forall>j < length work. int64 (work ! j + alloc ! j)"
  shows "release_loop alloc work [0..<length work] = Some (vadd work alloc)"
proof -
  have "map2 (\<lambda>x y. go_int (x + y)) work alloc = vadd work alloc"
    using assms by (intro nth_equalityI) (simp_all add: vadd_def go_int_exact)
  then show ?thesis using assms(1) by (simp add: release_loop_upd upd_cols_all [where g = "\<lambda>x y. go_int (x + y)"])
qed

lemma bank_ok_rows:
  assumes "shape_ok b" and "i < length (bs_Need b)"
  shows "length (bs_Need b ! i) = length (bs_Available b)" "length (bs_Allocation b ! i) = length (bs_Available b)"
  using assms nth_mem [of i "bs_Need b"] nth_mem [of i "bs_Allocation b"] by (auto simp: shape_ok_def)

lemma scan_loop_spec:
  assumes "shape_ok b" and "length work = length (bs_Available b)" and "length finish = length (bs_Need b)"
    and "\<forall>i\<in>set is. i < length (bs_Need b)"
    and fit: "\<forall>i < length (bs_Need b). \<not> finish ! i \<longrightarrow> (\<forall>j < length work. int64 (work ! j + bs_Allocation b ! i ! j))"
  shows "\<exists>r. scan_loop b work finish is = Some r \<and>
     (case r of
        None \<Rightarrow> \<forall>i\<in>set is. finish ! i \<or> \<not> vle (bs_Need b ! i) work
      | Some (i, w) \<Rightarrow> i \<in> set is \<and> \<not> finish ! i \<and> vle (bs_Need b ! i) work \<and> w = vadd work (bs_Allocation b ! i))"
  using assms(4)
proof (induction "is")
  case (Cons i "is")
  have i: "i < length (bs_Need b)" using Cons.prems by simp
  have m: "nat (bs_NumResources b) = length work" and la: "length (bs_Allocation b) = length (bs_Need b)"
    using assms(1,2) by (simp_all add: shape_ok_def)
  have rows: "length (bs_Need b ! i) = length work" "length (bs_Allocation b ! i) = length work"
    using bank_ok_rows [OF assms(1) i] assms(2) by simp_all
  have nr: "0 < bs_NumResources b \<longleftrightarrow> work \<noteq> []" using m by (cases work) auto
  let ?need = "if 0 < bs_NumResources b then bs_Need b ! i else []"
  let ?alloc = "if 0 < bs_NumResources b then bs_Allocation b ! i else []"
  have same: "?need = bs_Need b ! i" "?alloc = bs_Allocation b ! i" using rows nr by auto
  have eq: "scan_loop b work finish (i # is) =
      (if finish ! i \<or> \<not> vle (bs_Need b ! i) work then scan_loop b work finish is
       else Some (Some (i, vadd work (bs_Allocation b ! i))))"
    using i la assms(3) can_execute_vle [OF rows(1)] release_loop_vadd [OF rows(2)] fit same
    by (auto simp: go_index_nat m split: if_splits)
  show ?case
  proof (cases "finish ! i \<or> \<not> vle (bs_Need b ! i) work")
    case True
    from Cons obtain r where "scan_loop b work finish is = Some r"
      "case r of None \<Rightarrow> \<forall>i\<in>set is. finish ! i \<or> \<not> vle (bs_Need b ! i) work
        | Some (i, w) \<Rightarrow> i \<in> set is \<and> \<not> finish ! i \<and> vle (bs_Need b ! i) work \<and> w = vadd work (bs_Allocation b ! i)"
      by auto
    with True eq show ?thesis by (auto split: option.splits)
  next
    case False
    with eq show ?thesis by simp
  qed
qed simp

section \<open>Safe orders\<close>

lemma vle_trans: "vle xs ys \<Longrightarrow> vle ys zs \<Longrightarrow> vle xs zs"
  unfolding vle_iff by (metis order_trans)

lemma vle_vadd: "length xs = length w \<Longrightarrow> \<forall>x\<in>set xs. 0 \<le> x \<Longrightarrow> vle w (vadd w xs)"
  by (auto simp: vle_iff vadd_def)

lemma vadd_commute:
  "length xs = length w \<Longrightarrow> length ys = length w \<Longrightarrow> vadd (vadd w xs) ys = vadd (vadd w ys) xs"
  by (intro nth_equalityI) (auto simp: vadd_def)

text \<open>A process that can run now can be run first.\<close>

lemma runs_first:
  assumes "runs b w s" and "i \<in> set s" and "\<forall>k\<in>set s. length (bs_Allocation b ! k) = length w"
    and "\<forall>x\<in>set (bs_Allocation b ! i). 0 \<le> x"
  shows "runs b (vadd w (bs_Allocation b ! i)) (remove1 i s)"
  using assms
proof (induction s arbitrary: w)
  case (Cons k s)
  show ?case
  proof (cases "k = i")
    case True
    with Cons.prems(1) show ?thesis by simp
  next
    case False
    let ?a = "bs_Allocation b ! i" and ?c = "bs_Allocation b ! k"
    have l: "length ?a = length w" "length ?c = length w" using Cons.prems(2,3) by auto
    have "vle (bs_Need b ! k) (vadd w ?a)"
      using Cons.prems(1) vle_vadd [OF l(1) Cons.prems(4)] vle_trans by auto
    moreover have "runs b (vadd (vadd w ?c) ?a) (remove1 i s)"
      using Cons.prems False l by (intro Cons.IH) auto
    ultimately show ?thesis using False vadd_commute [OF l(2,1)] by simp
  qed
qed simp

definition safe_from :: "BankersState \<Rightarrow> int list \<Rightarrow> nat list \<Rightarrow> nat list \<Rightarrow> bool" where
  "safe_from b w seq t \<longleftrightarrow> distinct t \<and> set t = {..<length (bs_Need b)} - set seq \<and> runs b w t"

text \<open>A process that can run now starts some safe order exactly when a safe order exists.\<close>

lemma safe_from_step:
  assumes "shape_ok b" and "length work = length (bs_Available b)" and "i < length (bs_Need b)"
    and "i \<notin> set seq" and "vle (bs_Need b ! i) work"
  shows "safe_from b (vadd work (bs_Allocation b ! i)) (seq @ [i]) t \<Longrightarrow> safe_from b work seq (i # t)"
    and "safe_from b work seq t \<Longrightarrow> alloc_nonneg b \<Longrightarrow>
      safe_from b (vadd work (bs_Allocation b ! i)) (seq @ [i]) (remove1 i t)"
proof -
  show "safe_from b work seq (i # t)" if "safe_from b (vadd work (bs_Allocation b ! i)) (seq @ [i]) t"
    using that assms by (auto simp: safe_from_def)
  show "safe_from b (vadd work (bs_Allocation b ! i)) (seq @ [i]) (remove1 i t)"
    if t: "safe_from b work seq t" "alloc_nonneg b"
  proof -
    have "i \<in> set t" using t(1) assms by (auto simp: safe_from_def)
    moreover have "bs_Allocation b ! i \<in> set (bs_Allocation b)" using assms(1,3) by (auto simp: shape_ok_def)
    ultimately have "runs b (vadd work (bs_Allocation b ! i)) (remove1 i t)"
      using t bank_ok_rows(2) [OF assms(1)] assms(2)
      by (intro runs_first) (auto simp: safe_from_def alloc_nonneg_def)
    with t show ?thesis by (auto simp: safe_from_def)
  qed
qed

text \<open>When no unfinished process can run, there is no safe order.\<close>

lemma safe_from_stuck:
  assumes "distinct seq" and "length seq < length (bs_Need b)" and "safe_from b work seq t"
  shows "\<exists>i < length (bs_Need b). i \<notin> set seq \<and> vle (bs_Need b ! i) work"
proof -
  have "card (set seq) < length (bs_Need b)" using assms(1,2) by (simp add: distinct_card)
  then have "{..<length (bs_Need b)} - set seq \<noteq> {}"
    using card_mono [of "set seq" "{..<length (bs_Need b)}"] by auto
  then obtain i t' where "t = i # t'" using assms(3) by (cases t) (auto simp: safe_from_def)
  with assms(3) show ?thesis by (intro exI [of _ i]) (auto simp: safe_from_def)
qed

text \<open>The work vector and what the unfinished processes will still release fit into 64 bits.\<close>

definition work_fits :: "BankersState \<Rightarrow> int list \<Rightarrow> bool list \<Rightarrow> bool" where
  "work_fits b work finish \<longleftrightarrow> (\<forall>j < length work. - (2 ^ 63) \<le> work ! j \<and>
     work ! j + (\<Sum>i < length (bs_Need b). if finish ! i then 0 else bs_Allocation b ! i ! j) < 2 ^ 63)"

lemma alloc_entry_nonneg:
  assumes "shape_ok b" and "alloc_nonneg b" and "i < length (bs_Need b)" and "j < length (bs_Available b)"
  shows "0 \<le> bs_Allocation b ! i ! j"
proof -
  have "bs_Allocation b ! i \<in> set (bs_Allocation b)" using assms(1,3) by (simp add: shape_ok_def)
  moreover have "bs_Allocation b ! i ! j \<in> set (bs_Allocation b ! i)" using bank_ok_rows(2) [OF assms(1,3)] assms(4) by simp
  ultimately show ?thesis using assms(2) by (auto simp: alloc_nonneg_def)
qed

lemma work_fits_step:
  assumes "shape_ok b" and "alloc_nonneg b" and "length work = length (bs_Available b)" and "length finish = length (bs_Need b)"
    and "work_fits b work finish" and "i < length (bs_Need b)" and "\<not> finish ! i"
  shows "\<forall>j < length work. int64 (work ! j + bs_Allocation b ! i ! j)"
    and "work_fits b (vadd work (bs_Allocation b ! i)) (finish[i := True])"
proof -
  let ?n = "length (bs_Need b)" and ?a = "\<lambda>k j. bs_Allocation b ! k ! j"
  have nn: "0 \<le> ?a k j" if "k < ?n" "j < length work" for k j
    using alloc_entry_nonneg [OF assms(1,2)] that assms(3) by simp
  have split: "(\<Sum>k < ?n. if finish ! k then 0 else ?a k j) =
      ?a i j + (\<Sum>k < ?n. if finish[i := True] ! k then 0 else ?a k j)" for j
  proof -
    have i: "i \<in> {..<?n}" using assms(6) by simp
    have "(\<Sum>k\<in>{..<?n} - {i}. if finish ! k then 0 else ?a k j) = (\<Sum>k\<in>{..<?n} - {i}. if finish[i := True] ! k then 0 else ?a k j)"
      using assms(4) by (intro sum.cong) (auto simp: nth_list_update)
    then show ?thesis using assms(4,6,7) by (simp add: sum.remove [OF finite_lessThan i])
  qed
  have rest: "0 \<le> (\<Sum>k < ?n. if finish[i := True] ! k then 0 else ?a k j)" if "j < length work" for j
    using nn that by (intro sum_nonneg) auto
  show "\<forall>j < length work. int64 (work ! j + ?a i j)"
  proof (intro allI impI)
    fix j assume j: "j < length work"
    then have "- (2 ^ 63) \<le> work ! j" "work ! j + (\<Sum>k < ?n. if finish ! k then 0 else ?a k j) < 2 ^ 63"
      using assms(5) by (simp_all add: work_fits_def)
    with split [of j] rest [OF j] nn [OF assms(6) j] show "int64 (work ! j + ?a i j)" by (simp add: int64_def)
  qed
  show "work_fits b (vadd work (bs_Allocation b ! i)) (finish[i := True])"
    unfolding work_fits_def
  proof (intro allI impI)
    fix j assume "j < length (vadd work (bs_Allocation b ! i))"
    then have j: "j < length work" "j < length (bs_Allocation b ! i)" by simp_all
    then have "- (2 ^ 63) \<le> work ! j" "work ! j + (\<Sum>k < ?n. if finish ! k then 0 else ?a k j) < 2 ^ 63"
      using assms(5) by (simp_all add: work_fits_def)
    with split [of j] nn [OF assms(6) j(1)] j
    show "- (2 ^ 63) \<le> vadd work (bs_Allocation b ! i) ! j \<and>
        vadd work (bs_Allocation b ! i) ! j + (\<Sum>k < ?n. if finish[i := True] ! k then 0 else ?a k j) < 2 ^ 63"
      by (simp add: vadd_def)
  qed
qed

lemma safe_loop_spec:
  assumes "shape_ok b" and "length work = length (bs_Available b)" and "length finish = length (bs_Need b)"
    and "distinct seq" and "set seq \<subseteq> {..<length (bs_Need b)}"
    and "\<forall>i < length (bs_Need b). finish ! i \<longleftrightarrow> i \<in> set seq" and "alloc_nonneg b" and "work_fits b work finish"
  shows "\<exists>ok s l. safe_loop b work finish seq log = Some (ok, s, l) \<and>
     (if ok then \<exists>t. s = seq @ t \<and> safe_from b work seq t else s = [] \<and> (\<nexists>t. safe_from b work seq t))"
  using assms
proof (induction b work finish seq log rule: safe_loop.induct)
  case (1 b work finish seq log)
  let ?n = "length (bs_Need b)"
  have n: "bs_NumProcesses b = int ?n" using 1(2) by (simp add: shape_ok_def)
  note fit = work_fits_step [OF 1(2,8,3,4,9)]
  show ?case
  proof (cases "length seq < ?n")
    case False
    have "card (set seq) = length seq" using 1(5) by (rule distinct_card)
    moreover have "card (set seq) \<le> ?n" using card_mono [OF _ 1(6)] by simp
    ultimately have "set seq = {..<?n}" using False 1(6) by (intro card_subset_eq) simp_all
    then have "safe_from b work seq []" by (simp add: safe_from_def)
    with False n show ?thesis by (subst safe_loop.simps) auto
  next
    case True
    from scan_loop_spec [OF 1(2-4), of "[0..<?n]"] fit(1) obtain r where
      r: "scan_loop b work finish [0..<?n] = Some r" and
      sp: "case r of None \<Rightarrow> \<forall>i\<in>set [0..<?n]. finish ! i \<or> \<not> vle (bs_Need b ! i) work
        | Some (i, w) \<Rightarrow> i \<in> set [0..<?n] \<and> \<not> finish ! i \<and> vle (bs_Need b ! i) work \<and> w = vadd work (bs_Allocation b ! i)"
      by auto
    show ?thesis
    proof (cases r)
      case None
      then have "\<nexists>t. safe_from b work seq t" using safe_from_stuck [OF 1(5) True] sp 1(7) by fastforce
      moreover have "safe_loop b work finish seq log = Some (False, [], log @ [LineRisk])"
        using True n r None by (subst safe_loop.simps) simp
      ultimately show ?thesis by auto
    next
      case (Some iw)
      obtain i w where iw: "iw = (i, w)" by (cases iw)
      with sp Some have i: "i < ?n" "\<not> finish ! i" "vle (bs_Need b ! i) work" "w = vadd work (bs_Allocation b ! i)"
        by auto
      let ?log = "log @ [LineExecutes i (bs_Need b ! i) w]"
      have step: "safe_loop b work finish seq log = safe_loop b w (finish[i := True]) (seq @ [i]) ?log"
        using True n r Some iw i(1) by (subst safe_loop.simps) (simp add: go_index_nat)
      have ns: "i \<notin> set seq" using i(1,2) 1(7) by simp
      have "\<exists>ok s l. safe_loop b w (finish[i := True]) (seq @ [i]) ?log = Some (ok, s, l) \<and>
         (if ok then \<exists>t. s = (seq @ [i]) @ t \<and> safe_from b w (seq @ [i]) t
          else s = [] \<and> (\<nexists>t. safe_from b w (seq @ [i]) t))"
        using 1(2-8) True n r Some iw i ns bank_ok_rows(2) [OF 1(2) i(1)] fit(2) [OF i(1,2)]
        by (intro 1(1)) (auto simp: nth_list_update go_index_nat)
      then obtain ok s l where
        ih: "safe_loop b w (finish[i := True]) (seq @ [i]) ?log = Some (ok, s, l)"
        and c: "if ok then \<exists>t. s = (seq @ [i]) @ t \<and> safe_from b w (seq @ [i]) t
          else s = [] \<and> (\<nexists>t. safe_from b w (seq @ [i]) t)" by blast
      have "if ok then \<exists>t. s = seq @ t \<and> safe_from b work seq t
          else s = [] \<and> (\<nexists>t. safe_from b work seq t)"
        using c safe_from_step [OF 1(2,3) i(1) ns i(3)] 1(8) unfolding i(4) by (cases ok) auto
      with step ih show ?thesis by metis
    qed
  qed
qed

section \<open>Correctness\<close>

lemma CheckSafeState_spec:
  assumes "bank_ok b" and "alloc_nonneg b"
  shows "\<exists>ok s l. CheckSafeState b = Some (ok, s, l) \<and>
     (if ok then safe_order b s else s = [] \<and> (\<nexists>t. safe_order b t))"
proof -
  let ?av = "bs_Available b" and ?n = "length (bs_Need b)"
  have eq: "CheckSafeState b = safe_loop b ?av (replicate ?n False) [] [LineInitial ?av]"
    using assms(1) by (simp add: CheckSafeState_def bank_ok_def shape_ok_def copy_into_def Let_def)
  have la: "length (bs_Allocation b) = ?n" using assms(1) by (simp add: bank_ok_def shape_ok_def)
  have "sum_list (map (\<lambda>r. r ! j) (bs_Allocation b)) = (\<Sum>i < ?n. bs_Allocation b ! i ! j)" for j
    by (simp add: sum_list_sum_nth la atLeast0LessThan)
  then have fits: "work_fits b ?av (replicate ?n False)"
    using assms(1) by (simp add: work_fits_def bank_ok_def resources_def)
  have so: "safe_order b t \<longleftrightarrow> safe_from b ?av [] t" for t by (auto simp: safe_order_def safe_from_def)
  from safe_loop_spec [of b ?av "replicate ?n False" "[]" "[LineInitial ?av]"] assms fits obtain ok s l where
    "CheckSafeState b = Some (ok, s, l)"
    "if ok then safe_from b ?av [] s else s = [] \<and> (\<nexists>t. safe_from b ?av [] t)"
    unfolding eq by (auto simp: bank_ok_def split: if_splits)
  then show ?thesis unfolding so by blast
qed


definition bank_example :: BankersState where
  "bank_example = \<lparr>bs_NumProcesses = 3, bs_NumResources = 2, bs_ResourceNames = [''A'', ''B''],
     bs_Available = [4, 3], bs_Max = [[7, 4], [3, 2], [9, 0]], bs_Allocation = [[0, 1], [2, 0], [3, 0]],
     bs_Need = [[7, 3], [1, 2], [6, 0]]\<rparr>"

lemma bank_example_ok: "bank_ok bank_example" "alloc_nonneg bank_example"
  by (simp_all add: bank_ok_def shape_ok_def alloc_nonneg_def bank_example_def int64_def resources_def All_less_Suc2 numeral_2_eq_2)


section \<open>Requests\<close>

lemma exceeds_any:
  "\<forall>j\<in>set js. j < length req \<and> bound (int j) = Some (f j) \<Longrightarrow>
     exceeds req bound js = Some (\<exists>j\<in>set js. f j < req ! j)"
  by (induction js) (auto simp: go_index_nat)

text \<open>The row that a loop over the columns leaves behind, and the whole loop.\<close>

definition cols_state :: "int \<Rightarrow> nat \<Rightarrow> int list \<Rightarrow> nat list \<Rightarrow> BankersState \<Rightarrow> BankersState" where
  "cols_state sign i req js b = b\<lparr>
     bs_Available := upd_cols (\<lambda>k x. go_int (x - sign * req ! k)) js (bs_Available b),
     bs_Allocation := (bs_Allocation b)[i := upd_cols (\<lambda>k x. go_int (x + sign * req ! k)) js (bs_Allocation b ! i)],
     bs_Need := (bs_Need b)[i := upd_cols (\<lambda>k x. go_int (x - sign * req ! k)) js (bs_Need b ! i)]\<rparr>"

lemma grant_loop_cols:
  assumes "distinct js" and "\<forall>j\<in>set js. j < length req \<and> j < length (bs_Available b) \<and>
      j < length (bs_Allocation b ! i) \<and> j < length (bs_Need b ! i)"
    and "i < length (bs_Allocation b)" and "i < length (bs_Need b)"
  shows "grant_loop sign (int i) req js b = Some (cols_state sign i req js b)"
  using assms
proof (induction js arbitrary: b)
  case Nil
  then show ?case by (simp add: cols_state_def)
next
  case (Cons j js)
  let ?b = "b\<lparr>bs_Available := (bs_Available b)[j := go_int (bs_Available b ! j - sign * req ! j)],
     bs_Allocation := (bs_Allocation b)[i := (bs_Allocation b ! i)[j := go_int (bs_Allocation b ! i ! j + sign * req ! j)]],
     bs_Need := (bs_Need b)[i := (bs_Need b ! i)[j := go_int (bs_Need b ! i ! j - sign * req ! j)]]\<rparr>"
  have "grant_column sign (int i) req (int j) b = Some ?b"
    using Cons.prems by (simp add: grant_column_def cell_def set_cell_def go_index_nat go_update_nat)
  moreover have "grant_loop sign (int i) req js ?b = Some (cols_state sign i req js ?b)"
    using Cons.prems by (intro Cons.IH) auto
  moreover have "cols_state sign i req js ?b = cols_state sign i req (j # js) b"
    using Cons.prems by (simp add: cols_state_def upd_cols_Cons [symmetric])
  ultimately show ?case by simp
qed

text \<open>A request that a process may make: no component is negative, and all are within the need and what is available. Then no
  operation of the grant or of its rollback wraps.\<close>

definition grantable :: "BankersState \<Rightarrow> nat \<Rightarrow> int list \<Rightarrow> bool" where
  "grantable b i req \<longleftrightarrow> i < length (bs_Need b) \<and> length req = length (bs_Available b) \<and> (\<forall>x\<in>set req. 0 \<le> x) \<and>
     vle req (bs_Need b ! i) \<and> vle req (bs_Available b)"

lemma resources_split:
  assumes "shape_ok b" and "i < length (bs_Need b)" and "alloc_nonneg b" and "j < length (bs_Available b)"
  shows "bs_Available b ! j + bs_Allocation b ! i ! j \<le> resources b j"
proof -
  have i: "i < length (bs_Allocation b)" using assms(1,2) by (simp add: shape_ok_def)
  have "\<forall>r\<in>set (bs_Allocation b). 0 \<le> r ! j" using assms(1,3,4) by (auto simp: alloc_nonneg_def shape_ok_def)
  then have "bs_Allocation b ! i ! j \<le> sum_list (map (\<lambda>r. r ! j) (bs_Allocation b))"
    using i member_le_sum_list_int [of "bs_Allocation b ! i ! j" "map (\<lambda>r. r ! j) (bs_Allocation b)"] by auto
  then show ?thesis by (simp add: resources_def)
qed

lemma grantable_bounds:
  assumes "bank_ok b" and "alloc_nonneg b" and "grantable b i req" and "j < length (bs_Available b)"
  shows "0 \<le> req ! j" "req ! j \<le> bs_Available b ! j" "req ! j \<le> bs_Need b ! i ! j" "0 \<le> bs_Allocation b ! i ! j"
    "bs_Available b ! j + bs_Allocation b ! i ! j < 2 ^ 63" "int64 (bs_Need b ! i ! j)" "int64 (bs_Available b ! j)"
proof -
  have sh: "shape_ok b" and i: "i < length (bs_Need b)" and l: "length req = length (bs_Available b)"
    using assms(1,3) by (simp_all add: bank_ok_def grantable_def)
  note rows = bank_ok_rows [OF sh i]
  show "0 \<le> req ! j" "req ! j \<le> bs_Available b ! j" "req ! j \<le> bs_Need b ! i ! j"
    using assms(3,4) l by (auto simp: grantable_def vle_iff)
  show a: "0 \<le> bs_Allocation b ! i ! j" by (rule alloc_entry_nonneg [OF sh assms(2) i assms(4)])
  have t: "resources b j < 2 ^ 63" "- (2 ^ 63) \<le> bs_Available b ! j" using assms(1,4) by (simp_all add: bank_ok_def)
  then show s: "bs_Available b ! j + bs_Allocation b ! i ! j < 2 ^ 63"
    using resources_split [OF sh i assms(2,4)] by simp
  show "int64 (bs_Available b ! j)" using t s a by (simp add: int64_def)
  have "bs_Need b ! i ! j \<in> set (bs_Need b ! i)" "bs_Need b ! i \<in> set (bs_Need b)" using rows(1) assms(4) i by simp_all
  then show "int64 (bs_Need b ! i ! j)" using assms(1) unfolding bank_ok_def by blast
qed

lemma grantable_int64:
  assumes "bank_ok b" and "alloc_nonneg b" and "grantable b i req" and "j < length (bs_Available b)"
  shows "int64 (bs_Available b ! j - req ! j)" "int64 (bs_Allocation b ! i ! j + req ! j)" "int64 (bs_Need b ! i ! j - req ! j)"
    "int64 (bs_Allocation b ! i ! j)"
  using grantable_bounds [OF assms] by (simp_all add: int64_def)

lemma grant_loop_granted:
  assumes ok: "bank_ok b" "alloc_nonneg b" "grantable b i req"
  shows "grant_loop 1 (int i) req [0..<length (bs_Available b)] b = Some (granted b i req)"
proof -
  have sh: "shape_ok b" and i: "i < length (bs_Need b)" and l: "length req = length (bs_Available b)"
    using ok by (simp_all add: bank_ok_def grantable_def)
  have la: "i < length (bs_Allocation b)" using sh i by (simp add: shape_ok_def)
  note rows = bank_ok_rows [OF sh i] and g = grantable_int64 [OF ok]
  have "upd_cols (\<lambda>k x. go_int (x - 1 * req ! k)) [0..<length (bs_Available b)] (bs_Available b) = map2 (-) (bs_Available b) req"
    "upd_cols (\<lambda>k x. go_int (x + 1 * req ! k)) [0..<length (bs_Available b)] (bs_Allocation b ! i) = vadd (bs_Allocation b ! i) req"
    "upd_cols (\<lambda>k x. go_int (x - 1 * req ! k)) [0..<length (bs_Available b)] (bs_Need b ! i) = map2 (-) (bs_Need b ! i) req"
    using rows l g by (auto intro!: nth_equalityI simp: upd_cols_def vadd_def go_int_exact)
  then have "cols_state 1 i req [0..<length (bs_Available b)] b = granted b i req"
    by (simp add: cols_state_def granted_def)
  with rows la i l show ?thesis by (subst grant_loop_cols) auto
qed

lemma granted_resources:
  assumes "shape_ok b" and "i < length (bs_Need b)" and "length req = length (bs_Available b)" and "j < length (bs_Available b)"
  shows "resources (granted b i req) j = resources b j"
proof -
  have i: "i < length (bs_Allocation b)" using assms(1,2) by (simp add: shape_ok_def)
  have "sum_list (map (\<lambda>r. r ! j) ((bs_Allocation b)[i := vadd (bs_Allocation b ! i) req])) =
      sum_list (map (\<lambda>r. r ! j) (bs_Allocation b)) + req ! j"
    using sum_list_update_int [OF i, of "\<lambda>r. r ! j"] bank_ok_rows(2) [OF assms(1,2)] assms(3,4) by (simp add: vadd_def)
  with assms(3,4) show ?thesis by (simp add: resources_def granted_def)
qed

lemma granted_nonneg:
  assumes "shape_ok b" and "alloc_nonneg b" and "i < length (bs_Need b)" and "\<forall>x\<in>set req. 0 \<le> x"
  shows "alloc_nonneg (granted b i req)"
proof -
  have "bs_Allocation b ! i \<in> set (bs_Allocation b)" using assms(1,3) by (simp add: shape_ok_def)
  then have "\<forall>x\<in>set (bs_Allocation b ! i). 0 \<le> x" using assms(2) unfolding alloc_nonneg_def by blast
  then have "\<forall>x\<in>set (vadd (bs_Allocation b ! i) req). 0 \<le> x"
    using assms(4) unfolding vadd_def by (auto simp: set_zip)
  with assms(2) show ?thesis
    by (auto simp: alloc_nonneg_def granted_def dest!: set_update_subset_insert [THEN subsetD])
qed

lemma granted_shape:
  assumes "shape_ok b" and "i < length (bs_Need b)" and "length req = length (bs_Available b)"
  shows "shape_ok (granted b i req)" "length (bs_Available (granted b i req)) = length (bs_Available b)"
    "length (bs_Need (granted b i req)) = length (bs_Need b)"
  using assms bank_ok_rows [OF assms(1,2)]
  by (auto simp: shape_ok_def granted_def dest!: set_update_subset_insert [THEN subsetD])

lemma granted_ok:
  assumes ok: "bank_ok b" "alloc_nonneg b" "grantable b i req"
  shows "bank_ok (granted b i req)" "alloc_nonneg (granted b i req)"
proof -
  have sh: "shape_ok b" and i: "i < length (bs_Need b)" and l: "length req = length (bs_Available b)" and nn: "\<forall>x\<in>set req. 0 \<le> x"
    using ok by (simp_all add: bank_ok_def grantable_def)
  note g = grantable_int64 [OF ok] and gs = granted_shape [OF sh i l]
  have "int64 x" if "r \<in> set (bs_Need (granted b i req))" "x \<in> set r" for r x
  proof (cases "r \<in> set (bs_Need b)")
    case True
    with that(2) ok(1) show ?thesis unfolding bank_ok_def by blast
  next
    case False
    with that(1) have "r = map2 (-) (bs_Need b ! i) req"
      by (auto simp: granted_def dest!: set_update_subset_insert [THEN subsetD])
    with that(2) bank_ok_rows(1) [OF sh i] l g(3) show ?thesis by (auto simp: set_zip)
  qed
  moreover have "- (2 ^ 63) \<le> bs_Available (granted b i req) ! j \<and> resources (granted b i req) j < 2 ^ 63"
    if "j < length (bs_Available b)" for j
    using g(1) [OF that] granted_resources [OF sh i l that] ok(1) that l by (auto simp: bank_ok_def granted_def int64_def)
  ultimately show "bank_ok (granted b i req)" using gs by (simp add: bank_ok_def)
  show "alloc_nonneg (granted b i req)" by (rule granted_nonneg [OF sh ok(2) i nn])
qed

lemma rollback:
  assumes ok: "bank_ok b" "alloc_nonneg b" "grantable b i req"
  shows "grant_loop (-1) (int i) req [0..<length (bs_Available b)] (granted b i req) = Some b"
proof -
  have sh: "shape_ok b" and i: "i < length (bs_Need b)" and l: "length req = length (bs_Available b)"
    using ok by (simp_all add: bank_ok_def grantable_def)
  note gs = granted_shape [OF sh i l] and rows = bank_ok_rows [OF sh i]
  have la: "i < length (bs_Allocation b)" using sh i by (simp add: shape_ok_def)
  let ?g = "granted b i req" and ?js = "[0..<length (bs_Available b)]"
  have row: "bs_Allocation ?g ! i = vadd (bs_Allocation b ! i) req" "bs_Need ?g ! i = map2 (-) (bs_Need b ! i) req"
    using la i by (simp_all add: granted_def)
  have "upd_cols (\<lambda>k x. go_int (x - - 1 * req ! k)) ?js (map2 (-) (bs_Available b) req) = bs_Available b"
    "upd_cols (\<lambda>k x. go_int (x + - 1 * req ! k)) ?js (vadd (bs_Allocation b ! i) req) = bs_Allocation b ! i"
    "upd_cols (\<lambda>k x. go_int (x - - 1 * req ! k)) ?js (map2 (-) (bs_Need b ! i) req) = bs_Need b ! i"
    using rows l grantable_bounds(6,7) [OF ok] grantable_int64(4) [OF ok]
    by (auto intro!: nth_equalityI simp: upd_cols_def vadd_def go_int_exact)
  then have "cols_state (-1) i req ?js ?g = b"
    using la i by (simp add: cols_state_def row) (simp add: granted_def)
  with rows la i l row gs show ?thesis
    by (subst grant_loop_cols) (auto simp: granted_def)
qed

lemma RequestResources_spec:
  assumes ok: "bank_ok b" "alloc_nonneg b" and i: "i < length (bs_Need b)"
    and l: "length req = length (bs_Available b)" and nn: "\<forall>x\<in>set req. 0 \<le> x"
  shows "\<exists>b' yes ans. RequestResources b (int i) req = Some (b', yes, ans) \<and> bank_ok b' \<and>
     (if yes then vle req (bs_Need b ! i) \<and> vle req (bs_Available b) \<and> b' = granted b i req \<and> (\<exists>s. safe_order b' s)
      else b' = b \<and> (vle req (bs_Need b ! i) \<and> vle req (bs_Available b) \<longrightarrow> (\<nexists>s. safe_order (granted b i req) s)))"
proof -
  have sh: "shape_ok b" using ok by (simp add: bank_ok_def)
  note rows = bank_ok_rows [OF sh i]
  let ?js = "[0..<length (bs_Available b)]" and ?g = "granted b i req"
  have m: "nat (bs_NumResources b) = length (bs_Available b)" using sh by (simp add: shape_ok_def)
  have e1: "exceeds req (cell (bs_Need b) (int i)) ?js = Some (\<not> vle req (bs_Need b ! i))"
    using rows i l by (subst exceeds_any [where f = "\<lambda>j. bs_Need b ! i ! j"])
      (auto simp: cell_def go_index_nat vle_iff not_le)
  have e2: "exceeds req (go_index (bs_Available b)) ?js = Some (\<not> vle req (bs_Available b))"
    using l by (subst exceeds_any [where f = "\<lambda>j. bs_Available b ! j"]) (auto simp: go_index_nat vle_iff not_le)
  show ?thesis
  proof (cases "vle req (bs_Need b ! i) \<and> vle req (bs_Available b)")
    case True
    then have g: "grantable b i req" using i l nn by (simp add: grantable_def)
    note gok = granted_ok [OF ok g]
    from CheckSafeState_spec [OF gok] obtain yes s ln where
      c: "CheckSafeState ?g = Some (yes, s, ln)" "if yes then safe_order ?g s else s = [] \<and> (\<nexists>t. safe_order ?g t)" by blast
    have "RequestResources b (int i) req =
        (if yes then Some (?g, True, Granted s ln) else Some (b, False, Unsafe ln))"
      using True e1 e2 c(1) grant_loop_granted [OF ok g] rollback [OF ok g]
      by (simp add: RequestResources_def m Let_def)
    with True c(2) gok(1) ok(1) show ?thesis by (cases yes) auto
  next
    case False
    then show ?thesis using e1 e2 ok(1) by (auto simp: RequestResources_def m Let_def)
  qed
qed

text \<open>A run of requests.\<close>

fun request_all :: "BankersState \<Rightarrow> (nat \<times> int list) list \<Rightarrow> BankersState option" where
  "request_all b [] = Some b"
| "request_all b ((i, req) # rs) =
     (case RequestResources b (int i) req of None \<Rightarrow> None | Some (b', _, _) \<Rightarrow> request_all b' rs)"

definition valid_request :: "nat \<Rightarrow> nat \<Rightarrow> nat \<times> int list \<Rightarrow> bool" where
  "valid_request n m r \<longleftrightarrow> fst r < n \<and> length (snd r) = m \<and> (\<forall>x\<in>set (snd r). 0 \<le> x)"

text \<open>
  C2: deadlock avoidance. From a safe state, any sequence of requests with non-negative
  components is answered without a panic and leaves a safe state; no unit of any resource appears
  or disappears.
\<close>

theorem requests_stay_safe:
  assumes "bank_ok b" and "alloc_nonneg b" and "\<exists>s. safe_order b s"
    and "\<forall>r\<in>set rs. valid_request (length (bs_Need b)) (length (bs_Available b)) r"
  shows "\<exists>b'. request_all b rs = Some b' \<and> bank_ok b' \<and> (\<exists>s. safe_order b' s) \<and>
     (\<forall>j < length (bs_Available b). resources b' j = resources b j)"
  using assms
proof (induction rs arbitrary: b)
  case (Cons r rs)
  obtain i req where r: "r = (i, req)" by (cases r)
  with Cons.prems(4) have v: "i < length (bs_Need b)" "length req = length (bs_Available b)" "\<forall>x\<in>set req. 0 \<le> x"
    by (auto simp: valid_request_def)
  have sh: "shape_ok b" using Cons.prems(1) by (simp add: bank_ok_def)
  from RequestResources_spec [OF Cons.prems(1,2) v] obtain b1 ok ans where
    q: "RequestResources b (int i) req = Some (b1, ok, ans)" "bank_ok b1"
      "b1 = granted b i req \<and> (\<exists>s. safe_order b1 s) \<or> b1 = b" by (auto split: if_splits)
  have b1: "alloc_nonneg b1" "\<exists>s. safe_order b1 s" "length (bs_Need b1) = length (bs_Need b)"
    "length (bs_Available b1) = length (bs_Available b)"
    "\<forall>j < length (bs_Available b). resources b1 j = resources b j"
    using q(3) Cons.prems(2,3) granted_nonneg [OF sh Cons.prems(2) v(1,3)] granted_shape(2,3) [OF sh v(1,2)]
      granted_resources [OF sh v(1,2)] by auto
  have "\<exists>b'. request_all b1 rs = Some b' \<and> bank_ok b' \<and> (\<exists>s. safe_order b' s) \<and>
     (\<forall>j < length (bs_Available b1). resources b' j = resources b1 j)"
    using q(2) b1 Cons.prems(4) by (intro Cons.IH) auto
  with q(1) r b1 show ?case by auto
qed auto

theorem requests_stay_safe_witness:
  "\<exists>b'. request_all bank_example [(1, [1, 0]), (0, [3, 3])] = Some b' \<and> bank_ok b' \<and> (\<exists>s. safe_order b' s) \<and>
     (\<forall>j < length (bs_Available bank_example). resources b' j = resources bank_example j)"
proof -
  have "safe_order bank_example [1, 2, 0]"
    by (auto simp: safe_order_def bank_example_def vle_def vadd_def)
  then show ?thesis
    using requests_stay_safe [OF bank_example_ok, of "[(1, [1, 0]), (0, [3, 3])]"]
    by (auto simp: bank_example_def valid_request_def)
qed

text \<open>With a negative allocation, or with more units than 64 bits hold, the check may miss an order that exists.\<close>

lemma negative_allocation_misses:
  "\<exists>b l. CheckSafeState b = Some (False, [], l) \<and> safe_order b [1, 0] \<and> bank_ok b"
proof -
  let ?b = "\<lparr>bs_NumProcesses = 2, bs_NumResources = 1, bs_ResourceNames = [''A''], bs_Available = [1],
     bs_Max = [[0], [1]], bs_Allocation = [[-1], [0]], bs_Need = [[1], [1]]\<rparr>"
  have "map_option (\<lambda>(ok, s, l). (ok, s)) (CheckSafeState ?b) = Some (False, [])" by code_simp
  then have "\<exists>l. CheckSafeState ?b = Some (False, [], l)" by auto
  moreover have "safe_order ?b [1, 0]" by (auto simp: safe_order_def vle_def vadd_def)
  moreover have "bank_ok ?b" by (simp add: bank_ok_def shape_ok_def int64_def resources_def)
  ultimately show ?thesis by blast
qed

lemma overflow_misses:
  "\<exists>b l. CheckSafeState b = Some (False, [], l) \<and> safe_order b [0, 1] \<and> alloc_nonneg b"
proof -
  let ?b = "\<lparr>bs_NumProcesses = 2, bs_NumResources = 1, bs_ResourceNames = [''A''], bs_Available = [2 ^ 62],
     bs_Max = [[2 ^ 62], [2 ^ 62 + 1]], bs_Allocation = [[2 ^ 62], [0]], bs_Need = [[0], [2 ^ 62 + 1]]\<rparr>"
  have "map_option (\<lambda>(ok, s, l). (ok, s)) (CheckSafeState ?b) = Some (False, [])" by code_simp
  then have "\<exists>l. CheckSafeState ?b = Some (False, [], l)" by auto
  moreover have "safe_order ?b [0, 1]" by (auto simp: safe_order_def vle_def vadd_def)
  moreover have "alloc_nonneg ?b" by (simp add: alloc_nonneg_def)
  ultimately show ?thesis by blast
qed

text \<open>
  a request with a negative component is granted: it passes both comparisons and moves more
  units back to the system than the process holds.
\<close>

theorem negative_request_granted:
  "\<exists>b ans. RequestResources bank_example 0 [-100, 0] = Some (b, True, ans) \<and>
     bs_Available b = [104, 3] \<and> bs_Allocation b = [[-100, 1], [2, 0], [3, 0]]"
proof -
  have "case RequestResources bank_example 0 [-100, 0] of
      None \<Rightarrow> False
    | Some (b, ok, ans) \<Rightarrow> ok \<and> bs_Available b = [104, 3] \<and> bs_Allocation b = [[-100, 1], [2, 0], [3, 0]]"
    by code_simp
  then show ?thesis by (auto split: option.splits)
qed

end
