(* ===== verification/Dining.thy ===== *)
theory Dining
  imports Go_Prelude
begin

text \<open>
  The dining philosophers of \<open>pkg/concurrency/dining_philosophers.go\<close>. Each philosopher is a
  goroutine; the state holds the owner of each fork mutex, the position of each goroutine in its
  body and the meals eaten, and a step is one goroutine passing one lock, unlock or meal. A
  blocked \<open>Lock\<close> has no step. The two scenarios of the code differ in the order in which the forks
  are taken and in the number of meals; sleeps and the timeout of the first scenario do not
  restrict the interleavings and are not part of the state.
\<close>

section \<open>State and steps\<close>

datatype phil_pc = Idle | HasFirst | HasBoth | Eaten | PutSecond

record dining =
  d_Forks :: "nat option list"
  d_MealsEaten :: "nat list"
  d_pc :: "phil_pc list"

definition NewDiningPhilosophers :: "int \<Rightarrow> dining" where
  "NewDiningPhilosophers n =
     (let n = nat (if n \<le> 0 then 5 else n) in
      \<lparr>d_Forks = replicate n None, d_MealsEaten = replicate n 0, d_pc = replicate n Idle\<rparr>)"

text \<open>The forks of philosopher \<open>i\<close> in the order in which each scenario locks them.\<close>

definition naive_forks :: "nat \<Rightarrow> nat \<Rightarrow> nat \<times> nat" where
  "naive_forks n i = (i, (i + 1) mod n)"

definition ordered_forks :: "nat \<Rightarrow> nat \<Rightarrow> nat \<times> nat" where
  "ordered_forks n i =
     (let leftFork = i; rightFork = (i + 1) mod n
      in if leftFork > rightFork then (rightFork, leftFork) else (leftFork, rightFork))"

text \<open>
  The next operation of goroutine \<open>i\<close> with the forks \<open>fk i\<close> and \<open>goal\<close> meals; \<^const>\<open>None\<close> when it is
  blocked or has returned.
\<close>

definition phil_step :: "(nat \<Rightarrow> nat \<times> nat) \<Rightarrow> nat \<Rightarrow> nat \<Rightarrow> dining \<Rightarrow> dining option" where
  "phil_step fk goal i s =
     (case d_pc s ! i of
        Idle \<Rightarrow>
          if d_MealsEaten s ! i < goal \<and> d_Forks s ! fst (fk i) = None
          then Some (s\<lparr>d_Forks := (d_Forks s)[fst (fk i) := Some i], d_pc := (d_pc s)[i := HasFirst]\<rparr>)
          else None
      | HasFirst \<Rightarrow>
          if d_Forks s ! snd (fk i) = None
          then Some (s\<lparr>d_Forks := (d_Forks s)[snd (fk i) := Some i], d_pc := (d_pc s)[i := HasBoth]\<rparr>)
          else None
      | HasBoth \<Rightarrow>
          Some (s\<lparr>d_MealsEaten := (d_MealsEaten s)[i := d_MealsEaten s ! i + 1], d_pc := (d_pc s)[i := Eaten]\<rparr>)
      | Eaten \<Rightarrow>
          Some (s\<lparr>d_Forks := (d_Forks s)[snd (fk i) := None], d_pc := (d_pc s)[i := PutSecond]\<rparr>)
      | PutSecond \<Rightarrow>
          Some (s\<lparr>d_Forks := (d_Forks s)[fst (fk i) := None], d_pc := (d_pc s)[i := Idle]\<rparr>))"

inductive dining_step :: "nat \<Rightarrow> (nat \<Rightarrow> nat \<times> nat) \<Rightarrow> nat \<Rightarrow> dining \<Rightarrow> dining \<Rightarrow> bool"
  for n fk goal where
  phil_moves: "i < n \<Longrightarrow> phil_step fk goal i s = Some s' \<Longrightarrow> dining_step n fk goal s s'"

inductive dining_reach :: "nat \<Rightarrow> (nat \<Rightarrow> nat \<times> nat) \<Rightarrow> nat \<Rightarrow> dining \<Rightarrow> bool"
  for n fk goal where
  reach_init: "dining_reach n fk goal (NewDiningPhilosophers (int n))"
| reach_step: "dining_reach n fk goal s \<Longrightarrow> dining_step n fk goal s s' \<Longrightarrow> dining_reach n fk goal s'"

inductive_simps dining_step_iff: "dining_step n fk goal s s'"

text \<open>
  The scenarios of the code: everybody takes the left fork first and eats once, and everybody
  takes the fork with the lower number first and eats \<open>mealsGoal\<close> times.
\<close>

definition RunDeadlockScenario :: "nat \<Rightarrow> dining \<Rightarrow> dining \<Rightarrow> bool" where
  "RunDeadlockScenario n = dining_step n (naive_forks n) 1"

definition RunSafeResourceHierarchy :: "nat \<Rightarrow> nat \<Rightarrow> dining \<Rightarrow> dining \<Rightarrow> bool" where
  "RunSafeResourceHierarchy n mealsGoal = dining_step n (ordered_forks n) mealsGoal"

text \<open>Every goroutine has returned.\<close>

definition all_done :: "nat \<Rightarrow> nat \<Rightarrow> dining \<Rightarrow> bool" where
  "all_done n goal s \<longleftrightarrow> (\<forall>i < n. d_pc s ! i = Idle \<and> d_MealsEaten s ! i = goal)"

section \<open>Mutual exclusion\<close>

text \<open>Philosopher \<open>i\<close> holds fork \<open>f\<close>.\<close>

definition holds :: "(nat \<Rightarrow> nat \<times> nat) \<Rightarrow> dining \<Rightarrow> nat \<Rightarrow> nat \<Rightarrow> bool" where
  "holds fk s i f \<longleftrightarrow> (f = fst (fk i) \<and> d_pc s ! i \<noteq> Idle) \<or>
     (f = snd (fk i) \<and> (d_pc s ! i = HasBoth \<or> d_pc s ! i = Eaten))"

text \<open>The mutexes agree with the positions of the goroutines.\<close>

definition owners :: "nat \<Rightarrow> nat option list \<Rightarrow> (nat \<Rightarrow> nat \<Rightarrow> bool) \<Rightarrow> bool" where
  "owners n F H \<longleftrightarrow> (\<forall>f < n. \<forall>i. F ! f = Some i \<longleftrightarrow> i < n \<and> H i f)"

definition dining_inv :: "nat \<Rightarrow> (nat \<Rightarrow> nat \<times> nat) \<Rightarrow> nat \<Rightarrow> dining \<Rightarrow> bool" where
  "dining_inv n fk goal s \<longleftrightarrow> length (d_Forks s) = n \<and> length (d_MealsEaten s) = n \<and> length (d_pc s) = n \<and>
     owners n (d_Forks s) (holds fk s) \<and>
     (\<forall>i < n. d_MealsEaten s ! i \<le> goal \<and>
        (d_pc s ! i = HasFirst \<or> d_pc s ! i = HasBoth \<longrightarrow> d_MealsEaten s ! i < goal))"

lemma owners_lock:
  assumes "owners n F H" and "h < n" and "length F = n" and "i < n" and "F ! h = None"
    and "\<And>k g. k < n \<Longrightarrow> H' k g \<longleftrightarrow> k = i \<and> g = h \<or> H k g"
  shows "owners n (F[h := Some i]) H'"
  unfolding owners_def
proof (intro allI impI)
  fix g k assume g: "g < n"
  have "F ! g = Some k \<longleftrightarrow> k < n \<and> H k g" using assms(1) g by (simp add: owners_def)
  moreover have "g = h \<Longrightarrow> k < n \<Longrightarrow> \<not> H k g" using assms(1,2,5) by (auto simp: owners_def)
  ultimately show "F[h := Some i] ! g = Some k \<longleftrightarrow> k < n \<and> H' k g"
    using assms(2-4,6) by (cases "g = h"; cases "k < n") auto
qed

lemma owners_unlock:
  assumes "owners n F H" and "h < n" and "length F = n" and "F ! h = Some i"
    and "\<And>k g. k < n \<Longrightarrow> H' k g \<longleftrightarrow> \<not> (k = i \<and> g = h) \<and> H k g"
  shows "owners n (F[h := None]) H'"
  unfolding owners_def
proof (intro allI impI)
  fix g k assume g: "g < n"
  have "F ! g = Some k \<longleftrightarrow> k < n \<and> H k g" using assms(1) g by (simp add: owners_def)
  moreover have "g = h \<Longrightarrow> k < n \<Longrightarrow> H k g \<Longrightarrow> k = i" using assms(1,2,4) unfolding owners_def by (metis option.inject)
  ultimately show "F[h := None] ! g = Some k \<longleftrightarrow> k < n \<and> H' k g"
    using assms(2,3,5) by (cases "g = h"; cases "k < n") auto
qed

text \<open>Two different forks for each philosopher, as both scenarios have them from two on.\<close>

locale fork_table =
  fixes fk :: "nat \<Rightarrow> nat \<Rightarrow> nat \<times> nat"
  assumes forks_ok: "2 \<le> n \<Longrightarrow> i < n \<Longrightarrow> fst (fk n i) < n \<and> snd (fk n i) < n \<and> fst (fk n i) \<noteq> snd (fk n i)"
begin

lemma init_inv: "2 \<le> n \<Longrightarrow> dining_inv n (fk n) goal (NewDiningPhilosophers (int n))"
  by (simp add: dining_inv_def owners_def NewDiningPhilosophers_def holds_def)

lemma step_inv:
  assumes "2 \<le> n" and "dining_inv n (fk n) goal s" and "i < n" and "phil_step (fk n) goal i s = Some s'"
  shows "dining_inv n (fk n) goal s'"
proof -
  let ?a = "fst (fk n i)" and ?b = "snd (fk n i)"
  have l: "length (d_Forks s) = n" "length (d_MealsEaten s) = n" "length (d_pc s) = n"
    and own: "owners n (d_Forks s) (holds (fk n) s)"
    and ml: "\<And>k. k < n \<Longrightarrow> d_MealsEaten s ! k \<le> goal \<and>
        (d_pc s ! k = HasFirst \<or> d_pc s ! k = HasBoth \<longrightarrow> d_MealsEaten s ! k < goal)"
    using assms(2) by (auto simp: dining_inv_def)
  note f = forks_ok [OF assms(1,3)]
  have mine: "d_Forks s ! g = Some i" if "holds (fk n) s i g" "g < n" for g
    using own that assms(3) by (simp add: owners_def)
  have "owners n (d_Forks s') (holds (fk n) s') \<and> length (d_Forks s') = n"
  proof (cases "d_pc s ! i")
    case Idle
    then have s': "d_Forks s' = (d_Forks s)[?a := Some i]" "d_pc s' = (d_pc s)[i := HasFirst]" "d_Forks s ! ?a = None"
      using assms(4) by (auto simp: phil_step_def split: if_splits)
    show ?thesis unfolding s'(1) using f l Idle assms(3) s'
      by (intro conjI owners_lock [OF own]) (auto simp: holds_def nth_list_update)
  next
    case HasFirst
    then have s': "d_Forks s' = (d_Forks s)[?b := Some i]" "d_pc s' = (d_pc s)[i := HasBoth]" "d_Forks s ! ?b = None"
      using assms(4) by (auto simp: phil_step_def split: if_splits)
    show ?thesis unfolding s'(1) using f l HasFirst assms(3) s'
      by (intro conjI owners_lock [OF own]) (auto simp: holds_def nth_list_update)
  next
    case HasBoth
    then have "d_Forks s' = d_Forks s" "d_pc s' = (d_pc s)[i := Eaten]"
      using assms(4) by (auto simp: phil_step_def)
    moreover have "holds (fk n) s' = holds (fk n) s"
      using HasBoth calculation l assms(3) by (intro ext) (auto simp: holds_def nth_list_update)
    ultimately show ?thesis using own l by simp
  next
    case Eaten
    then have s': "d_Forks s' = (d_Forks s)[?b := None]" "d_pc s' = (d_pc s)[i := PutSecond]"
      using assms(4) by (auto simp: phil_step_def)
    have "d_Forks s ! ?b = Some i" using mine [of ?b] Eaten f by (simp add: holds_def)
    then show ?thesis unfolding s'(1) using f l Eaten assms(3) s'
      by (intro conjI owners_unlock [OF own]) (auto simp: holds_def nth_list_update)
  next
    case PutSecond
    then have s': "d_Forks s' = (d_Forks s)[?a := None]" "d_pc s' = (d_pc s)[i := Idle]"
      using assms(4) by (auto simp: phil_step_def)
    have "d_Forks s ! ?a = Some i" using mine [of ?a] PutSecond f by (simp add: holds_def)
    then show ?thesis unfolding s'(1) using f l PutSecond assms(3) s'
      by (intro conjI owners_unlock [OF own]) (auto simp: holds_def nth_list_update)
  qed
  moreover have "length (d_MealsEaten s') = n \<and> length (d_pc s') = n \<and>
     (\<forall>k < n. d_MealsEaten s' ! k \<le> goal \<and>
        (d_pc s' ! k = HasFirst \<or> d_pc s' ! k = HasBoth \<longrightarrow> d_MealsEaten s' ! k < goal))"
    using assms(3,4) l ml
    by (auto simp: phil_step_def nth_list_update Suc_le_eq split: phil_pc.splits if_splits)
  ultimately show ?thesis by (simp add: dining_inv_def)
qed

lemma reach_inv: "dining_reach n (fk n) goal s \<Longrightarrow> 2 \<le> n \<Longrightarrow> dining_inv n (fk n) goal s"
  by (induction rule: dining_reach.induct) (auto simp: init_inv dining_step_iff intro: step_inv)

text \<open>No two philosophers that share a fork eat at the same time.\<close>

lemma exclusive:
  assumes "dining_inv n (fk n) goal s" and "2 \<le> n" and "i < n" and "k < n" and "i \<noteq> k"
    and "d_pc s ! i = HasBoth" and "d_pc s ! k = HasBoth"
  shows "{fst (fk n i), snd (fk n i)} \<inter> {fst (fk n k), snd (fk n k)} = {}"
proof -
  have own: "d_Forks s ! g = Some j" if "holds (fk n) s j g" "j < n" "g < n" for j g
    using assms(1) that by (auto simp: dining_inv_def owners_def)
  have all: "holds (fk n) s j g" if "d_pc s ! j = HasBoth" "g \<in> {fst (fk n j), snd (fk n j)}" for j g
    using that by (auto simp: holds_def)
  show ?thesis
  proof (rule ccontr)
    assume "{fst (fk n i), snd (fk n i)} \<inter> {fst (fk n k), snd (fk n k)} \<noteq> {}"
    then obtain g where g: "g \<in> {fst (fk n i), snd (fk n i)}" "g \<in> {fst (fk n k), snd (fk n k)}" by blast
    then have "g < n" using forks_ok [OF assms(2,3)] by auto
    with own [OF all [OF assms(6) g(1)] assms(3)] own [OF all [OF assms(7) g(2)] assms(4)] assms(5)
    show False by simp
  qed
qed

end

text \<open>Forks taken in increasing order: somebody can always move.\<close>

locale fork_order = fork_table +
  assumes forks_increase: "2 \<le> n \<Longrightarrow> i < n \<Longrightarrow> fst (fk n i) < snd (fk n i)"
begin

lemma not_stuck:
  assumes "2 \<le> n" and "dining_inv n (fk n) goal s" and "\<not> all_done n goal s"
  shows "\<exists>s'. dining_step n (fk n) goal s s'"
proof (rule ccontr)
  assume "\<nexists>s'. dining_step n (fk n) goal s s'"
  then have none: "phil_step (fk n) goal i s = None" if "i < n" for i
    using that by (cases "phil_step (fk n) goal i s") (auto simp: dining_step_iff)
  have own: "\<And>f k. f < n \<Longrightarrow> d_Forks s ! f = Some k \<longleftrightarrow> k < n \<and> holds (fk n) s k f"
    and ml: "\<And>k. k < n \<Longrightarrow> d_MealsEaten s ! k \<le> goal"
    using assms(2) by (auto simp: dining_inv_def owners_def)
  have pc: "d_pc s ! i = Idle \<or> d_pc s ! i = HasFirst" if "i < n" for i
    using none [OF that] by (auto simp: phil_step_def split: phil_pc.splits)
  have held: "\<exists>k < n. d_pc s ! k = HasFirst \<and> fst (fk n k) = f" if "f < n" "d_Forks s ! f \<noteq> None" for f
    using that own [OF that(1)] pc unfolding holds_def by (metis not_None_eq phil_pc.distinct)
  let ?W = "{i. i < n \<and> d_pc s ! i = HasFirst}"
  have "?W = {}"
  proof (rule ccontr)
    assume "?W \<noteq> {}"
    have fin: "finite ?W" by simp
    let ?m = "Max ((\<lambda>k. fst (fk n k)) ` ?W)"
    have "?m \<in> (\<lambda>k. fst (fk n k)) ` ?W" using fin \<open>?W \<noteq> {}\<close> by (intro Max_in) auto
    then obtain i where i: "i \<in> ?W" "?m = fst (fk n i)" by auto
    then have mx: "\<forall>k\<in>?W. fst (fk n k) \<le> fst (fk n i)" using fin by (metis (no_types, lifting) Max_ge finite_imageI imageI)
    have "d_Forks s ! snd (fk n i) \<noteq> None" using none [of i] i(1) by (auto simp: phil_step_def split: if_splits)
    with held [of "snd (fk n i)"] forks_ok [OF assms(1), of i] i obtain k where "k \<in> ?W" "fst (fk n k) = snd (fk n i)"
      by auto
    with mx forks_increase [OF assms(1), of i] i show False by force
  qed
  then have idle: "d_pc s ! i = Idle" if "i < n" for i using pc [OF that] that by auto
  from assms(3) idle obtain i where i: "i < n" "d_MealsEaten s ! i \<noteq> goal" by (auto simp: all_done_def)
  have "d_Forks s ! fst (fk n i) = None" using held [of "fst (fk n i)"] forks_ok [OF assms(1) i(1)] idle by force
  with none [OF i(1)] idle [OF i(1)] i(2) ml [OF i(1)] show False by (auto simp: phil_step_def)
qed

end

section \<open>The two scenarios\<close>

interpretation naive: fork_table naive_forks
proof unfold_locales
  fix n i :: nat assume "2 \<le> n" "i < n"
  then show "fst (naive_forks n i) < n \<and> snd (naive_forks n i) < n \<and> fst (naive_forks n i) \<noteq> snd (naive_forks n i)"
    by (cases "i + 1 = n") (auto simp: naive_forks_def)
qed

interpretation ordered: fork_order ordered_forks
proof unfold_locales
  fix n i :: nat assume n: "2 \<le> n" "i < n"
  then have "(i + 1) mod n < n" "(i + 1) mod n \<noteq> i" by (cases "i + 1 = n"; auto)+
  then show "fst (ordered_forks n i) < n \<and> snd (ordered_forks n i) < n \<and> fst (ordered_forks n i) \<noteq> snd (ordered_forks n i)"
    "fst (ordered_forks n i) < snd (ordered_forks n i)"
    using n by (auto simp: ordered_forks_def Let_def)
qed

text \<open>The operations that a goroutine still has to perform, and that all of them have.\<close>

definition phil_work :: "nat \<Rightarrow> dining \<Rightarrow> nat \<Rightarrow> nat" where
  "phil_work goal s i =
     (let r = 5 * (goal - d_MealsEaten s ! i) in
      case d_pc s ! i of Idle \<Rightarrow> r | HasFirst \<Rightarrow> r - 1 | HasBoth \<Rightarrow> r - 2 | Eaten \<Rightarrow> r + 2 | PutSecond \<Rightarrow> r + 1)"

definition dining_work :: "nat \<Rightarrow> nat \<Rightarrow> dining \<Rightarrow> nat" where
  "dining_work n goal s = sum (phil_work goal s) {..<n}"

lemma phil_step_work:
  assumes "dining_inv n fk goal s" and "i < n" and "phil_step fk goal i s = Some s'"
  shows "phil_work goal s i = Suc (phil_work goal s' i)" "k \<noteq> i \<Longrightarrow> phil_work goal s' k = phil_work goal s k"
proof -
  have l: "length (d_MealsEaten s) = n" "length (d_pc s) = n"
    "d_pc s ! i = HasFirst \<or> d_pc s ! i = HasBoth \<longrightarrow> d_MealsEaten s ! i < goal"
    using assms(1,2) by (auto simp: dining_inv_def)
  then show "phil_work goal s i = Suc (phil_work goal s' i)" using assms(2,3)
    by (auto simp: phil_step_def phil_work_def split: phil_pc.splits if_splits)
  show "phil_work goal s' k = phil_work goal s k" if "k \<noteq> i" using assms(3) that
    by (auto simp: phil_step_def phil_work_def split: phil_pc.splits if_splits)
qed

lemma dining_step_work:
  assumes "dining_inv n fk goal s" and "dining_step n fk goal s s'"
  shows "dining_work n goal s = Suc (dining_work n goal s')"
proof -
  obtain i where i: "i < n" "phil_step fk goal i s = Some s'" using assms(2) by (auto simp: dining_step_iff)
  note w = phil_step_work [OF assms(1) i]
  have "sum (phil_work goal s') ({..<n} - {i}) = sum (phil_work goal s) ({..<n} - {i})"
    using w(2) by (intro sum.cong) auto
  then show ?thesis
    using i(1) w(1) sum.remove [of "{..<n}" i "phil_work goal s"] sum.remove [of "{..<n}" i "phil_work goal s'"]
    by (simp add: dining_work_def)
qed

lemma dining_work_done:
  assumes "dining_inv n fk goal s"
  shows "dining_work n goal s = 0 \<longleftrightarrow> all_done n goal s"
proof -
  have "phil_work goal s i = 0 \<longleftrightarrow> d_pc s ! i = Idle \<and> d_MealsEaten s ! i = goal" if "i < n" for i
    using assms that by (auto simp: phil_work_def Let_def dining_inv_def split: phil_pc.splits)
  then show ?thesis by (auto simp: dining_work_def all_done_def)
qed

lemma dining_reach_relpow:
  "(dining_step n fk goal ^^ k) (NewDiningPhilosophers (int n)) s \<Longrightarrow> dining_reach n fk goal s"
  by (induction k arbitrary: s) (auto intro: dining_reach.intros)

lemma dining_reach_rtranclp:
  "dining_reach n fk goal s \<Longrightarrow> (dining_step n fk goal)\<^sup>*\<^sup>* (NewDiningPhilosophers (int n)) s"
  by (induction rule: dining_reach.induct) auto

text \<open>
  C3: the resource hierarchy completes. With at least two philosophers and every interleaving of
  the goroutines, a run of the ordered scenario never gets stuck before it has made exactly five
  operations for each philosopher and meal, cannot be longer, and at that point every goroutine
  has returned and every philosopher has eaten the requested number of meals.
\<close>

theorem ordered_dinner_completes:
  assumes "2 \<le> n" and "(RunSafeResourceHierarchy n goal ^^ k) (NewDiningPhilosophers (int n)) s"
  shows "k \<le> 5 * goal * n \<and> (all_done n goal s \<longleftrightarrow> k = 5 * goal * n) \<and>
     (k < 5 * goal * n \<longrightarrow> (\<exists>s'. RunSafeResourceHierarchy n goal s s'))"
proof -
  note run = assms(2) [unfolded RunSafeResourceHierarchy_def]
  have w: "k + dining_work n goal s = 5 * goal * n"
    using run
  proof (induction k arbitrary: s)
    case 0
    have "dining_work n goal (NewDiningPhilosophers (int n)) = sum (\<lambda>i. 5 * goal) {..<n}"
      unfolding dining_work_def
      using assms(1) by (intro sum.cong) (auto simp: phil_work_def NewDiningPhilosophers_def)
    with 0 show ?case by simp
  next
    case (Suc k)
    then obtain t where t: "(dining_step n (ordered_forks n) goal ^^ k) (NewDiningPhilosophers (int n)) t"
      "dining_step n (ordered_forks n) goal t s" by auto
    have "dining_inv n (ordered_forks n) goal t"
      by (rule ordered.reach_inv [OF dining_reach_relpow [OF t(1)] assms(1)])
    from dining_step_work [OF this t(2)] Suc.IH [OF t(1)] show ?case by simp
  qed
  have inv: "dining_inv n (ordered_forks n) goal s"
    by (rule ordered.reach_inv [OF dining_reach_relpow [OF run] assms(1)])
  from w dining_work_done [OF inv] ordered.not_stuck [OF assms(1) inv] show ?thesis
    by (auto simp: RunSafeResourceHierarchy_def)
qed

theorem ordered_dinner_completes_witness:
  "\<exists>s'. RunSafeResourceHierarchy 3 2 (NewDiningPhilosophers 3) s'"
proof -
  have "(RunSafeResourceHierarchy 3 2 ^^ 0) (NewDiningPhilosophers (int 3)) (NewDiningPhilosophers 3)" by simp
  from ordered_dinner_completes [OF _ this] show ?thesis by auto
qed

text \<open>All philosophers below \<open>i\<close> have taken their left fork.\<close>

definition left_taken :: "nat \<Rightarrow> nat \<Rightarrow> dining" where
  "left_taken n i = \<lparr>d_Forks = map (\<lambda>f. if f < i then Some f else None) [0..<n],
     d_MealsEaten = replicate n 0, d_pc = map (\<lambda>f. if f < i then HasFirst else Idle) [0..<n]\<rparr>"

lemma left_taken_reach:
  assumes "0 < n" and "0 < goal"
  shows "i \<le> n \<Longrightarrow> dining_reach n (naive_forks n) goal (left_taken n i)"
proof (induction i)
  case 0
  have "left_taken n 0 = NewDiningPhilosophers (int n)"
    using assms(1) by (simp add: left_taken_def NewDiningPhilosophers_def map_replicate_const)
  then show ?case by (simp add: dining_reach.reach_init)
next
  case (Suc i)
  have "phil_step (naive_forks n) goal i (left_taken n i) = Some (left_taken n (Suc i))"
    using Suc.prems assms(2)
    by (auto simp: phil_step_def left_taken_def naive_forks_def nth_list_update intro!: nth_equalityI)
  then have "dining_step n (naive_forks n) goal (left_taken n i) (left_taken n (Suc i))"
    using Suc.prems by (auto simp: dining_step_iff intro!: exI [of _ i])
  with Suc show ?case by (auto intro: dining_reach.reach_step)
qed

text \<open>
  the naive scenario can deadlock. For any number of philosophers there is an interleaving
  after which every philosopher holds the left fork, nobody has eaten, and no goroutine can move.
\<close>

theorem naive_dinner_deadlocks:
  assumes "0 < n"
  shows "\<exists>s. (RunDeadlockScenario n)\<^sup>*\<^sup>* (NewDiningPhilosophers (int n)) s \<and>
     (\<forall>i < n. d_pc s ! i = HasFirst \<and> d_MealsEaten s ! i = 0) \<and> (\<nexists>s'. RunDeadlockScenario n s s')"
proof (intro exI conjI)
  show "(RunDeadlockScenario n)\<^sup>*\<^sup>* (NewDiningPhilosophers (int n)) (left_taken n n)"
    unfolding RunDeadlockScenario_def by (rule dining_reach_rtranclp) (use left_taken_reach [OF assms] in simp)
  show "\<forall>i < n. d_pc (left_taken n n) ! i = HasFirst \<and> d_MealsEaten (left_taken n n) ! i = 0"
    by (simp add: left_taken_def)
  have "phil_step (naive_forks n) 1 i (left_taken n n) = None" if "i < n" for i
    using that by (simp add: phil_step_def left_taken_def naive_forks_def)
  then show "\<nexists>s'. RunDeadlockScenario n (left_taken n n) s'" by (auto simp: RunDeadlockScenario_def dining_step_iff)
qed

theorem naive_dinner_deadlocks_witness:
  "\<exists>s. (RunDeadlockScenario 5)\<^sup>*\<^sup>* (NewDiningPhilosophers 5) s \<and>
     (\<forall>i < 5. d_pc s ! i = HasFirst \<and> d_MealsEaten s ! i = 0) \<and> (\<nexists>s'. RunDeadlockScenario 5 s s')"
  using naive_dinner_deadlocks [of 5] by simp

text \<open>
  In both scenarios two philosophers that share a fork never eat at the same time.
\<close>

lemmas dining_mutual_exclusion =
  naive.exclusive [OF naive.reach_inv] ordered.exclusive [OF ordered.reach_inv]

text \<open>
  with a single philosopher both forks are the same mutex, and the scenario that is meant to be
  free of deadlocks blocks on its own lock before the first meal.
\<close>

theorem ordered_single_deadlocks:
  "\<exists>s. RunSafeResourceHierarchy 1 (Suc goal) (NewDiningPhilosophers 1) s \<and> \<not> all_done 1 (Suc goal) s \<and>
     (\<nexists>s'. RunSafeResourceHierarchy 1 (Suc goal) s s')"
  unfolding RunSafeResourceHierarchy_def
proof (intro exI conjI)
  show "dining_step 1 (ordered_forks 1) (Suc goal) (NewDiningPhilosophers 1) (left_taken 1 1)"
    by (simp add: dining_step_iff phil_step_def ordered_forks_def NewDiningPhilosophers_def left_taken_def)
  show "\<not> all_done 1 (Suc goal) (left_taken 1 1)"
    "\<nexists>s'. dining_step 1 (ordered_forks 1) (Suc goal) (left_taken 1 1) s'"
    by (simp_all add: all_done_def dining_step_iff phil_step_def ordered_forks_def left_taken_def)
qed

end
