(* ===== verification/RW_Lock.thy ===== *)
theory RW_Lock
  imports Sync_Cond
begin

text \<open>
  The reader-writer lock of \<open>pkg/concurrency/rwlock.go\<close>, which prefers writers. A step runs a method from its
  start, or from the return of a wait, to its end or to the next wait, as the mutex of the lock
  makes it. A goroutine may ask for the lock again and again, for reading or for writing.
\<close>

section \<open>The lock\<close>

record RWLock =
  rw_readersCount :: int
  rw_writerActive :: bool
  rw_writerWaiters :: int

definition NewRWLock :: RWLock where
  "NewRWLock = \<lparr>rw_readersCount = 0, rw_writerActive = False, rw_writerWaiters = 0\<rparr>"

text \<open>The loop test of \<open>RLock\<close> and what follows it, with whether the caller waits.\<close>

definition RLock :: "RWLock \<Rightarrow> RWLock \<times> bool" where
  "RLock rw =
     (if rw_writerActive rw \<or> rw_writerWaiters rw > 0 then (rw, True)
      else (rw\<lparr>rw_readersCount := rw_readersCount rw + 1\<rparr>, False))"

text \<open>\<open>RUnlock\<close>, with whether it signals a writer.\<close>

definition RUnlock :: "RWLock \<Rightarrow> RWLock \<times> bool" where
  "RUnlock rw =
     (let rw1 = rw\<lparr>rw_readersCount := rw_readersCount rw - 1\<rparr> in (rw1, rw_readersCount rw1 = 0))"

text \<open>The start of \<open>Lock\<close>, and its loop test with what follows it.\<close>

definition Lock_enter :: "RWLock \<Rightarrow> RWLock" where
  "Lock_enter rw = rw\<lparr>rw_writerWaiters := rw_writerWaiters rw + 1\<rparr>"

definition Lock_loop :: "RWLock \<Rightarrow> RWLock \<times> bool" where
  "Lock_loop rw =
     (if rw_writerActive rw \<or> rw_readersCount rw > 0 then (rw, True)
      else (rw\<lparr>rw_writerWaiters := rw_writerWaiters rw - 1, rw_writerActive := True\<rparr>, False))"

text \<open>\<open>Unlock\<close>, with whether it signals a writer or else wakes all readers.\<close>

definition RW_Unlock :: "RWLock \<Rightarrow> RWLock \<times> bool" where
  "RW_Unlock rw = (let rw1 = rw\<lparr>rw_writerActive := False\<rparr> in (rw1, rw_writerWaiters rw1 > 0))"

section \<open>Goroutines\<close>

datatype rw_pc = RWIdle | RWait | RAwake | RIn | WWait | WAwake | WIn

fun rw_wake :: "rw_pc \<Rightarrow> rw_pc" where
  "rw_wake RWait = RAwake"
| "rw_wake WWait = WAwake"
| "rw_wake t = t"

abbreviation at_pc :: "rw_pc \<Rightarrow> rw_pc \<Rightarrow> bool" where
  "at_pc p t \<equiv> t = p"

inductive rw_step :: "RWLock \<times> rw_pc list \<Rightarrow> RWLock \<times> rw_pc list \<Rightarrow> bool" where
  rw_rlock: "i < length ts \<Longrightarrow> ts ! i = RWIdle \<or> ts ! i = RAwake \<Longrightarrow> RLock rw = (rw', waits) \<Longrightarrow>
     rw_step (rw, ts) (rw', ts[i := if waits then RWait else RIn])"
| rw_runlock: "i < length ts \<Longrightarrow> ts ! i = RIn \<Longrightarrow> RUnlock rw = (rw', sig) \<Longrightarrow>
     signals (at_pc WWait) rw_wake (if sig then 1 else 0) (ts[i := RWIdle]) ts' \<Longrightarrow> rw_step (rw, ts) (rw', ts')"
| rw_lock: "i < length ts \<Longrightarrow> ts ! i = RWIdle \<Longrightarrow> Lock_loop (Lock_enter rw) = (rw', waits) \<Longrightarrow>
     rw_step (rw, ts) (rw', ts[i := if waits then WWait else WIn])"
| rw_retry: "i < length ts \<Longrightarrow> ts ! i = WAwake \<Longrightarrow> Lock_loop rw = (rw', waits) \<Longrightarrow>
     rw_step (rw, ts) (rw', ts[i := if waits then WWait else WIn])"
| rw_unlock_writer: "i < length ts \<Longrightarrow> ts ! i = WIn \<Longrightarrow> RW_Unlock rw = (rw', True) \<Longrightarrow>
     signals (at_pc WWait) rw_wake 1 (ts[i := RWIdle]) ts' \<Longrightarrow> rw_step (rw, ts) (rw', ts')"
| rw_unlock_readers: "i < length ts \<Longrightarrow> ts ! i = WIn \<Longrightarrow> RW_Unlock rw = (rw', False) \<Longrightarrow>
     rw_step (rw, ts) (rw', broadcast (at_pc RWait) rw_wake (ts[i := RWIdle]))"

definition rw_init :: "nat \<Rightarrow> RWLock \<times> rw_pc list" where
  "rw_init n = (NewRWLock, replicate n RWIdle)"

section \<open>The invariant\<close>

interpretation writeOK: cond_var "at_pc WWait" rw_wake "at_pc WAwake"
  by unfold_locales auto

interpretation readOK: cond_var "at_pc RWait" rw_wake "at_pc RAwake"
  by unfold_locales auto

abbreviation num :: "rw_pc \<Rightarrow> rw_pc list \<Rightarrow> nat" where
  "num p ts \<equiv> cnt (at_pc p) ts"

definition rw_ok :: "RWLock \<times> rw_pc list \<Rightarrow> bool" where
  "rw_ok s \<longleftrightarrow> (case s of (rw, ts) \<Rightarrow>
     rw_readersCount rw = int (num RIn ts) \<and> num WIn ts = (if rw_writerActive rw then 1 else 0) \<and>
     (rw_writerActive rw \<longrightarrow> num RIn ts = 0) \<and>
     rw_writerWaiters rw = int (num WWait ts) + int (num WAwake ts) \<and>
     (0 < num RWait ts \<longrightarrow> rw_writerActive rw \<or> 0 < rw_writerWaiters rw) \<and>
     (0 < num WWait ts \<longrightarrow> rw_writerActive rw \<or> 0 < num RIn ts \<or> 0 < num WAwake ts))"

lemma num_update:
  "i < length ts \<Longrightarrow> ts ! i = p \<Longrightarrow> num q (ts[i := p']) + (if p = q then 1 else 0) = num q ts + (if p' = q then 1 else 0)"
  using cnt_update[of i ts "at_pc q" p'] by simp

lemma num_update_all:
  assumes "i < length ts" "ts ! i = p"
  shows "num RIn (ts[i := p']) + (if p = RIn then 1 else 0) = num RIn ts + (if p' = RIn then 1 else 0) \<and>
    num WIn (ts[i := p']) + (if p = WIn then 1 else 0) = num WIn ts + (if p' = WIn then 1 else 0) \<and>
    num RWait (ts[i := p']) + (if p = RWait then 1 else 0) = num RWait ts + (if p' = RWait then 1 else 0) \<and>
    num WWait (ts[i := p']) + (if p = WWait then 1 else 0) = num WWait ts + (if p' = WWait then 1 else 0) \<and>
    num WAwake (ts[i := p']) + (if p = WAwake then 1 else 0) = num WAwake ts + (if p' = WAwake then 1 else 0)"
  by (simp only: num_update[OF assms])

lemma signal_writer:
  assumes "signals (at_pc WWait) rw_wake k ts ts'"
  shows "num RIn ts' = num RIn ts" "num WIn ts' = num WIn ts" "num RWait ts' = num RWait ts"
    "num WWait ts' + num WAwake ts' = num WWait ts + num WAwake ts"
    "0 < num WWait ts' \<Longrightarrow> num WAwake ts' = num WAwake ts + k"
proof -
  show "num RIn ts' = num RIn ts" "num WIn ts' = num WIn ts" "num RWait ts' = num RWait ts"
    using signals_keep[OF assms] by (auto)
  show "0 < num WWait ts' \<Longrightarrow> num WAwake ts' = num WAwake ts + k" using writeOK.signals_woken[OF assms] .
  have split: "num WWait us + num WAwake us = cnt (\<lambda>t. t = WWait \<or> t = WAwake) us" for us
    by (induction us) (auto simp: cnt_def)
  show "num WWait ts' + num WAwake ts' = num WWait ts + num WAwake ts"
    unfolding split by (rule signals_keep[OF assms]) simp
qed

lemma wake_readers:
  "num RIn (broadcast (at_pc RWait) rw_wake ts) = num RIn ts" "num WIn (broadcast (at_pc RWait) rw_wake ts) = num WIn ts"
  "num WWait (broadcast (at_pc RWait) rw_wake ts) = num WWait ts" "num WAwake (broadcast (at_pc RWait) rw_wake ts) = num WAwake ts"
  "num RWait (broadcast (at_pc RWait) rw_wake ts) = 0"
  using readOK.broadcast_none broadcast_keep[of "at_pc RWait" "at_pc RIn" rw_wake ts]
    broadcast_keep[of "at_pc RWait" "at_pc WIn" rw_wake ts] broadcast_keep[of "at_pc RWait" "at_pc WWait" rw_wake ts]
    broadcast_keep[of "at_pc RWait" "at_pc WAwake" rw_wake ts] by auto

lemma rw_step_ok:
  assumes "rw_step s s'" "rw_ok s"
  shows "rw_ok s'"
  using assms
proof (induction rule: rw_step.induct)
  case (rw_rlock i ts rw rw' waits)
  then obtain p where p: "ts ! i = p" "p = RWIdle \<or> p = RAwake" by blast
  then show ?case using rw_rlock(3,4) num_update_all[OF rw_rlock(1) p(1), of RWait] num_update_all[OF rw_rlock(1) p(1), of RIn]
    by (auto simp: rw_ok_def RLock_def split: if_splits)
next
  case (rw_runlock i ts rw rw' sig ts')
  note u = num_update_all[OF rw_runlock(1,2), of RWIdle]
  note g = signal_writer[OF rw_runlock(4)]
  show ?case using rw_runlock(3,5) u g
    by (auto simp: rw_ok_def RUnlock_def Let_def split: if_splits)
next
  case (rw_lock i ts rw rw' waits)
  note u = num_update_all[OF rw_lock(1,2), of WWait] num_update_all[OF rw_lock(1,2), of WIn]
  show ?case using rw_lock(3,4) u
    by (auto simp: rw_ok_def Lock_loop_def Lock_enter_def split: if_splits)
next
  case (rw_retry i ts rw rw' waits)
  note u = num_update_all[OF rw_retry(1,2), of WWait] num_update_all[OF rw_retry(1,2), of WIn]
  show ?case using rw_retry(3,4) u by (auto simp: rw_ok_def Lock_loop_def split: if_splits)
next
  case (rw_unlock_writer i ts rw rw' ts')
  note u = num_update_all[OF rw_unlock_writer(1,2), of RWIdle]
  note g = signal_writer[OF rw_unlock_writer(4)]
  show ?case using rw_unlock_writer(3,5) u g
    by (auto simp: rw_ok_def RW_Unlock_def Let_def split: if_splits)
next
  case (rw_unlock_readers i ts rw rw')
  note u = num_update_all[OF rw_unlock_readers(1,2), of RWIdle]
  show ?case using rw_unlock_readers(3,4) u
    by (auto simp: rw_ok_def RW_Unlock_def Let_def wake_readers split: if_splits)
qed

lemma rw_init_ok: "rw_ok (rw_init n)"
  by (simp add: rw_ok_def rw_init_def NewRWLock_def cnt_def)

lemma rw_reachable_ok: "rw_step\<^sup>*\<^sup>* (rw_init n) s \<Longrightarrow> rw_ok s"
  by (induction rule: rtranclp_induct) (auto intro: rw_init_ok rw_step_ok)

text \<open>C18: Whatever goroutines lock and unlock for reading and writing, in any interleaving and whichever goroutine a signal wakes: there is at
  most one writer, no reader is in while a writer is, and the counters of the lock are the numbers of readers
  and of waiting writers. Whenever a goroutine waits, another one is in the lock or has been woken,
  so no wake-up is lost.\<close>

theorem RWLock_correct:
  assumes "rw_step\<^sup>*\<^sup>* (rw_init n) (rw, ts)"
  shows "num WIn ts \<le> 1 \<and> (0 < num WIn ts \<longrightarrow> num RIn ts = 0) \<and>
    rw_readersCount rw = int (num RIn ts) \<and> rw_writerWaiters rw = int (num WWait ts + num WAwake ts) \<and>
    (RWait \<in> set ts \<or> WWait \<in> set ts \<longrightarrow> (\<exists>t\<in>set ts. t \<in> {RIn, WIn, WAwake}))"
proof -
  have ok: "rw_ok (rw, ts)" by (rule rw_reachable_ok[OF assms])
  have mem: "0 < num p ts \<longleftrightarrow> p \<in> set ts" for p by (auto simp: cnt_pos)
  show ?thesis using ok mem[of RWait] mem[of WWait] mem[of RIn] mem[of WIn] mem[of WAwake]
    by (auto simp: rw_ok_def split: if_splits)
qed

theorem RWLock_correct_witness:
  "\<exists>rw. rw_step\<^sup>*\<^sup>* (rw_init 3) (rw, [RIn, WWait, RWait]) \<and> rw_readersCount rw = 1 \<and> rw_writerWaiters rw = 1"
proof -
  have n: "replicate 3 RWIdle = [RWIdle, RWIdle, RWIdle]" by (simp add: numeral_3_eq_3)
  let ?r1 = "NewRWLock\<lparr>rw_readersCount := 1\<rparr>"
  let ?r2 = "NewRWLock\<lparr>rw_readersCount := 1, rw_writerWaiters := 1\<rparr>"
  have 1: "rw_step (rw_init 3) (?r1, [RIn, RWIdle, RWIdle])"
    using rw_rlock[of 0 "[RWIdle, RWIdle, RWIdle]" NewRWLock ?r1 False]
    by (simp add: rw_init_def n RLock_def NewRWLock_def)
  have 2: "rw_step (?r1, [RIn, RWIdle, RWIdle]) (?r2, [RIn, WWait, RWIdle])"
    using rw_lock[of 1 "[RIn, RWIdle, RWIdle]" ?r1 ?r2 True]
    by (simp add: Lock_loop_def Lock_enter_def NewRWLock_def)
  have 3: "rw_step (?r2, [RIn, WWait, RWIdle]) (?r2, [RIn, WWait, RWait])"
    using rw_rlock[of 2 "[RIn, WWait, RWIdle]" ?r2 ?r2 True] by (simp add: RLock_def NewRWLock_def)
  have r: "rw_step\<^sup>*\<^sup>* (rw_init 3) (?r2, [RIn, WWait, RWait])"
    using 1 2 3 by (meson rtranclp.rtrancl_into_rtrancl rtranclp.rtrancl_refl)
  from RWLock_correct[OF r] r show ?thesis by (intro exI[of _ ?r2]) (simp add: cnt_def)
qed

end
