(* ===== verification/Sched_MLFQ.thy ===== *)
theory Sched_MLFQ
  imports Sched_Phases "HOL-Library.Multiset"
begin

text \<open>
  \<open>pkg/cpu/sched_mlfq.go\<close>: the multi-level feedback queue with three levels, demotion when the
  allotment of a level is used up and a periodic priority boost. The scheduler meets the contract
  of the interface (in particular the index expressions never panic), the levels and allotments
  are well formed at all times, and the boost rules out starvation: every ready process runs
  within a number of ticks that depends only on the boost period and the number of processes.
\<close>

section \<open>The scheduler\<close>

record MLFQQueueConfig =
  c_Level :: int
  c_Quantum :: int
  c_Allotment :: int

text \<open>The ready lists \<open>Queues\<close> hold indices into \<open>allProcesses\<close>, level 0 first.\<close>

record MLFQScheduler = SchedBase +
  m_NumQueues :: int
  m_Configs :: "MLFQQueueConfig list"
  m_Queues :: "nat list list"
  m_BoostPeriod :: int
  m_ticksSinceBoost :: int
  m_currentSlice :: int
  m_BoostEvents :: "int list"

definition mlfq_configs :: "MLFQQueueConfig list" where
  "mlfq_configs =
     [\<lparr>c_Level = 0, c_Quantum = 2, c_Allotment = 4\<rparr>,
      \<lparr>c_Level = 1, c_Quantum = 4, c_Allotment = 8\<rparr>,
      \<lparr>c_Level = 2, c_Quantum = 8, c_Allotment = 16\<rparr>]"

definition NewMLFQScheduler :: "int \<Rightarrow> MLFQScheduler" where
  "NewMLFQScheduler boostPeriod =
     \<lparr>s_allProcesses = [], s_running = None, s_completed = [], s_gantt = [],
      s_contextSwitches = 0, s_busyTime = 0, s_totalTime = 0,
      m_NumQueues = int (length mlfq_configs), m_Configs = mlfq_configs,
      m_Queues = map (\<lambda>_. []) mlfq_configs,
      m_BoostPeriod = (if boostPeriod \<le> 0 then 50 else boostPeriod),
      m_ticksSinceBoost = 0, m_currentSlice = 0, m_BoostEvents = []\<rparr>"

definition MLFQ_AddProcess :: "MLFQScheduler \<Rightarrow> Process \<Rightarrow> MLFQScheduler" where
  "MLFQ_AddProcess s p = base_add s p"

definition enqueue :: "nat \<Rightarrow> nat \<Rightarrow> MLFQScheduler \<Rightarrow> MLFQScheduler" where
  "enqueue q i s = s\<lparr>m_Queues := (m_Queues s)[q := m_Queues s ! q @ [i]]\<rparr>"

definition reset_p :: "Process \<Rightarrow> Process" where
  "reset_p p = p\<lparr>p_CurrentQueue := 0, p_AllotmentUsed := 0\<rparr>"

text \<open>Rule 5: all queued processes and the running one go back to level 0.\<close>

fun boost_loop :: "nat list \<Rightarrow> MLFQScheduler \<Rightarrow> MLFQScheduler" where
  "boost_loop [] s = s"
| "boost_loop (i # is) s = boost_loop is (enqueue 0 i (upd_proc i reset_p s))"

definition MLFQ_boost :: "int \<Rightarrow> MLFQScheduler \<Rightarrow> MLFQScheduler" where
  "MLFQ_boost t s =
     (if m_ticksSinceBoost s \<ge> m_BoostPeriod s
      then let s1 = s\<lparr>m_BoostEvents := m_BoostEvents s @ [t], m_ticksSinceBoost := 0\<rparr>;
               allReady = concat (m_Queues s1);
               s2 = boost_loop allReady (s1\<lparr>m_Queues := map (\<lambda>_. []) (m_Queues s1)\<rparr>)
           in case s_running s2 of Some r \<Rightarrow> upd_proc r reset_p s2 | None \<Rightarrow> s2
      else s)"

text \<open>Rule 3: a new process enters level 0.\<close>

fun MLFQ_arrive_loop :: "int \<Rightarrow> nat list \<Rightarrow> MLFQScheduler \<Rightarrow> MLFQScheduler" where
  "MLFQ_arrive_loop t [] s = s"
| "MLFQ_arrive_loop t (i # is) s = MLFQ_arrive_loop t is
     (if arrives t (proc s i)
      then enqueue 0 i (upd_proc i (\<lambda>p. reset_p (p\<lparr>p_State := StateReady\<rparr>)) s)
      else s)"

definition MLFQ_begin :: "int \<Rightarrow> MLFQScheduler \<Rightarrow> MLFQScheduler" where
  "MLFQ_begin t s =
     (let s0 = MLFQ_boost t
                 (s\<lparr>s_totalTime := t + 1, m_ticksSinceBoost := m_ticksSinceBoost s + 1\<rparr>);
          s1 = MLFQ_arrive_loop t [0..<length (s_allProcesses s0)] s0
      in age_loop (concat (m_Queues s1)) s1)"

text \<open>The running process goes to the back of the list of its level.\<close>

definition requeue :: "nat \<Rightarrow> MLFQScheduler \<Rightarrow> MLFQScheduler" where
  "requeue r s =
     (enqueue (nat (p_CurrentQueue (proc s r))) r (release_running r s))\<lparr>m_currentSlice := 0\<rparr>"

definition demote_p :: "int \<Rightarrow> Process \<Rightarrow> Process" where
  "demote_p n p = p\<lparr>p_CurrentQueue :=
       (if p_CurrentQueue p < n - 1 then p_CurrentQueue p + 1 else p_CurrentQueue p),
     p_AllotmentUsed := 0\<rparr>"

text \<open>Rules 4 and 2; an index outside \<open>Configs\<close> would panic.\<close>

definition MLFQ_expire :: "MLFQScheduler \<Rightarrow> MLFQScheduler option" where
  "MLFQ_expire s =
     (case s_running s of
        None \<Rightarrow> Some s
      | Some r \<Rightarrow>
          let q = p_CurrentQueue (proc s r)
          in if q < 0 \<or> length (m_Configs s) \<le> nat q then None
             else if p_AllotmentUsed (proc s r) \<ge> c_Allotment (m_Configs s ! nat q)
             then Some (requeue r (upd_proc r (demote_p (m_NumQueues s)) s))
             else if m_currentSlice s \<ge> c_Quantum (m_Configs s ! nat q) then Some (requeue r s)
             else Some s)"

fun first_nonempty :: "nat \<Rightarrow> nat list list \<Rightarrow> nat option" where
  "first_nonempty k [] = None"
| "first_nonempty k (q # qs) = (if 0 < length q then Some k else first_nonempty (Suc k) qs)"

text \<open>Rule 1.\<close>

definition MLFQ_dispatch :: "int \<Rightarrow> MLFQScheduler \<Rightarrow> MLFQScheduler" where
  "MLFQ_dispatch t s =
     (case s_running s of
        Some _ \<Rightarrow> s
      | None \<Rightarrow>
          (case first_nonempty 0 (m_Queues s) of
             None \<Rightarrow> s
           | Some q \<Rightarrow>
               (start_process t (hd (m_Queues s ! q))
                  (s\<lparr>m_Queues := (m_Queues s)[q := tl (m_Queues s ! q)]\<rparr>))\<lparr>m_currentSlice := 0\<rparr>))"

definition mlfq_label :: "Process \<Rightarrow> string" where
  "mlfq_label p = p_Name p @ ''(Q'' @ itoa (p_CurrentQueue p) @ '')''"

definition MLFQ_run :: "int \<Rightarrow> MLFQScheduler \<Rightarrow> MLFQScheduler" where
  "MLFQ_run t s =
     (case s_running s of
        Some i \<Rightarrow>
          let s' = run_current t mlfq_label
                     (upd_proc i (\<lambda>p. p\<lparr>p_AllotmentUsed := p_AllotmentUsed p + 1\<rparr>)
                        (s\<lparr>m_currentSlice := m_currentSlice s + 1\<rparr>))
          in if s_running s' = None then s'\<lparr>m_currentSlice := 0\<rparr> else s'
      | None \<Rightarrow> run_current t mlfq_label s)"

definition MLFQ_Tick :: "MLFQScheduler \<Rightarrow> int \<Rightarrow> (MLFQScheduler \<times> nat option \<times> bool) option" where
  "MLFQ_Tick s t =
     (case MLFQ_expire (MLFQ_begin t s) of
        None \<Rightarrow> None
      | Some s1 \<Rightarrow>
          let s' = MLFQ_run t (MLFQ_dispatch t s1)
          in Some (s', s_running s', tick_done s'))"

definition MLFQ_GetCompleted :: "MLFQScheduler \<Rightarrow> Process list" where
  "MLFQ_GetCompleted s = map (proc s) (s_completed s)"

definition MLFQ_GetMetrics :: "MLFQScheduler \<Rightarrow> Metrics" where
  "MLFQ_GetMetrics s =
     CalculateMetrics (MLFQ_GetCompleted s) (s_totalTime s) (s_busyTime s) (s_contextSwitches s)"

text \<open>The state after \<open>n\<close> ticks from time \<open>t\<close>.\<close>

fun MLFQ_ticks :: "nat \<Rightarrow> int \<Rightarrow> MLFQScheduler \<Rightarrow> MLFQScheduler option" where
  "MLFQ_ticks 0 t s = Some s"
| "MLFQ_ticks (Suc n) t s =
     (case MLFQ_Tick s t of None \<Rightarrow> None | Some (s', _, _) \<Rightarrow> MLFQ_ticks n (t + 1) s')"

section \<open>Well-formed levels\<close>

definition quantum_of :: "int \<Rightarrow> int" where
  "quantum_of q = c_Quantum (mlfq_configs ! nat q)"

definition allotment_of :: "int \<Rightarrow> int" where
  "allotment_of q = c_Allotment (mlfq_configs ! nat q)"

text \<open>The parts of the state that the phases of a tick keep.\<close>

definition levels_ok :: "MLFQScheduler \<Rightarrow> bool" where
  "levels_ok s \<longleftrightarrow> refs_ok s (concat (m_Queues s)) \<and> m_NumQueues s = 3 \<and>
     m_Configs s = mlfq_configs \<and> length (m_Queues s) = 3 \<and> 0 < m_BoostPeriod s \<and>
     (\<forall>q<3. \<forall>i\<in>set (m_Queues s ! q). p_CurrentQueue (proc s i) = int q \<and>
        0 \<le> p_AllotmentUsed (proc s i) \<and> p_AllotmentUsed (proc s i) < allotment_of (int q))"

definition running_ok :: "int \<Rightarrow> int \<Rightarrow> MLFQScheduler \<Rightarrow> bool" where
  "running_ok lo d s \<longleftrightarrow> (\<forall>r. s_running s = Some r \<longrightarrow>
     p_CurrentQueue (proc s r) \<in> {0, 1, 2} \<and>
     lo \<le> p_AllotmentUsed (proc s r) \<and>
     p_AllotmentUsed (proc s r) + d \<le> allotment_of (p_CurrentQueue (proc s r)) \<and>
     lo \<le> m_currentSlice s \<and> m_currentSlice s + d \<le> quantum_of (p_CurrentQueue (proc s r)))"

definition MLFQ_inv :: "MLFQScheduler \<Rightarrow> bool" where
  "MLFQ_inv s \<longleftrightarrow> levels_ok s \<and> running_ok 1 0 s \<and>
     0 \<le> m_ticksSinceBoost s \<and> m_ticksSinceBoost s < m_BoostPeriod s"


lemma quantum_allotment [simp]:
  "quantum_of 0 = 2" "quantum_of 1 = 4" "quantum_of 2 = 8"
  "allotment_of 0 = 4" "allotment_of 1 = 8" "allotment_of 2 = 16"
  by (simp_all add: quantum_of_def allotment_of_def mlfq_configs_def)

lemma length_mlfq_configs [simp]: "length mlfq_configs = 3"
  by (simp add: mlfq_configs_def)

lemma upd_proc_m [simp]:
  "m_NumQueues (upd_proc i f s) = m_NumQueues s" "m_Configs (upd_proc i f s) = m_Configs s"
  "m_Queues (upd_proc i f s) = m_Queues s" "m_BoostPeriod (upd_proc i f s) = m_BoostPeriod s"
  "m_ticksSinceBoost (upd_proc i f s) = m_ticksSinceBoost s"
  "m_currentSlice (upd_proc i f s) = m_currentSlice s"
  by (simp_all add: upd_proc_def)

lemma enqueue_fields [simp]:
  "s_allProcesses (enqueue q i s) = s_allProcesses s" "s_running (enqueue q i s) = s_running s"
  "s_completed (enqueue q i s) = s_completed s" "s_gantt (enqueue q i s) = s_gantt s"
  "s_busyTime (enqueue q i s) = s_busyTime s" "proc (enqueue q i s) k = proc s k"
  "m_NumQueues (enqueue q i s) = m_NumQueues s" "m_Configs (enqueue q i s) = m_Configs s"
  "m_Queues (enqueue q i s) = (m_Queues s)[q := m_Queues s ! q @ [i]]"
  "m_BoostPeriod (enqueue q i s) = m_BoostPeriod s"
  "m_ticksSinceBoost (enqueue q i s) = m_ticksSinceBoost s"
  "m_currentSlice (enqueue q i s) = m_currentSlice s"
  by (simp_all add: enqueue_def proc_def)

lemma phase_m [simp]:
  "m_NumQueues (start_process t i s) = m_NumQueues s" "m_Configs (start_process t i s) = m_Configs s"
  "m_Queues (start_process t i s) = m_Queues s" "m_BoostPeriod (start_process t i s) = m_BoostPeriod s"
  "m_ticksSinceBoost (start_process t i s) = m_ticksSinceBoost s"
  "m_NumQueues (release_running i s) = m_NumQueues s" "m_Configs (release_running i s) = m_Configs s"
  "m_Queues (release_running i s) = m_Queues s" "m_BoostPeriod (release_running i s) = m_BoostPeriod s"
  "m_ticksSinceBoost (release_running i s) = m_ticksSinceBoost s"
  "m_currentSlice (release_running i s) = m_currentSlice s"
  by (simp_all add: start_process_def release_running_def)

lemma run_current_m [simp]:
  "m_NumQueues (run_current t l s) = m_NumQueues s" "m_Configs (run_current t l s) = m_Configs s"
  "m_Queues (run_current t l s) = m_Queues s" "m_BoostPeriod (run_current t l s) = m_BoostPeriod s"
  "m_ticksSinceBoost (run_current t l s) = m_ticksSinceBoost s"
  "m_currentSlice (run_current t l s) = m_currentSlice s"
  by (simp_all add: run_current_def Let_def split: option.split)

lemma phase_keeps [simp]:
  "p_CurrentQueue (proc (start_process t i s) k) = p_CurrentQueue (proc s k)"
  "p_CurrentQueue (proc (release_running i s) k) = p_CurrentQueue (proc s k)"
  "p_AllotmentUsed (proc (start_process t i s) k) = p_AllotmentUsed (proc s k)"
  "p_AllotmentUsed (proc (release_running i s) k) = p_AllotmentUsed (proc s k)"
  unfolding start_process_def release_running_def
  by (subst upd_proc_keep; simp add: start_p_def Let_def proc_def)+

lemma run_current_keeps [simp]:
  "p_CurrentQueue (proc (run_current t l s) k) = p_CurrentQueue (proc s k)"
  "p_AllotmentUsed (proc (run_current t l s) k) = p_AllotmentUsed (proc s k)"
proof -
  have g: "F (proc (run_current t l s) k) = F (proc s k)"
    if "\<And>p x. F (p\<lparr>p_RemainingTime := x\<rparr>) = F p" "\<And>p. F (finish_p t p) = F p" for F :: "Process \<Rightarrow> int"
  proof (cases "s_running s")
    case None
    then show ?thesis by (simp add: run_current_def proc_def)
  next
    case (Some i)
    let ?u = "upd_proc i (\<lambda>p. p\<lparr>p_RemainingTime := p_RemainingTime p - 1\<rparr>) (s\<lparr>s_busyTime := s_busyTime s + 1\<rparr>)"
    have u: "F (proc ?u k) = F (proc s k)"
      by (subst upd_proc_keep) (simp_all add: that proc_def)
    have w: "proc (x\<lparr>s_gantt := g\<rparr>) k = proc x k" "proc (x\<lparr>s_completed := c, s_running := r\<rparr>) k = proc x k"
      for x :: "'a SchedBase_scheme" and g c r by (simp_all add: proc_def)
    have v: "F (proc (upd_proc i (finish_p t) x) k) = F (proc x k)" for x :: "'a SchedBase_scheme"
      by (rule upd_proc_keep) (rule that)
    show ?thesis using Some by (simp add: run_current_def Let_def v u w del: SchedBase.simps)
  qed
  show "p_CurrentQueue (proc (run_current t l s) k) = p_CurrentQueue (proc s k)"
    "p_AllotmentUsed (proc (run_current t l s) k) = p_AllotmentUsed (proc s k)"
    by (rule g; simp add: finish_p_def)+
qed

text \<open>Updates of a process that the references or the accounts do not see.\<close>

lemma note_ok:
  assumes "\<And>p. p_State (f p) = p_State p"
  shows "refs_ok (upd_proc i f s) rdy = refs_ok s rdy"
proof -
  have "p_State (proc (upd_proc i f s) k) = p_State (proc s k)" for k
    by (rule upd_proc_keep) (rule assms)
  then show ?thesis by (simp add: refs_ok_def)
qed

lemma note_accts:
  assumes "\<And>p. account_of (f p) = account_of p"
  shows "accts (upd_proc i f s) = accts s"
  by (rule nth_equalityI) (simp_all add: nth_accts upd_proc_keep [of account_of, OF assms])

lemma reset_p_simps [simp]:
  "p_State (reset_p p) = p_State p" "account_of (reset_p p) = account_of p"
  "p_CurrentQueue (reset_p p) = 0" "p_AllotmentUsed (reset_p p) = 0" "reset_p (reset_p p) = reset_p p"
  by (simp_all add: reset_p_def account_of_def)

lemma refs_ok_states:
  assumes "length (s_allProcesses s') = length (s_allProcesses s)" and "s_running s' = s_running s"
    and "s_completed s' = s_completed s"
    and "\<And>k. k < length (s_allProcesses s) \<Longrightarrow> p_State (proc s' k) = p_State (proc s k)"
  shows "refs_ok s' rdy = refs_ok s rdy"
proof -
  have c: "(i < length (s_allProcesses s') \<and> p_State (proc s' i) = x) =
      (i < length (s_allProcesses s) \<and> p_State (proc s i) = x)" for i x
    using assms(1,4) by auto
  show ?thesis by (simp only: refs_ok_def assms(2,3) c)
qed

lemma refs_ok_mset: "mset a = mset b \<Longrightarrow> refs_ok s a = refs_ok s b"
  by (intro refs_ok_cong) (auto dest: mset_eq_setD mset_eq_imp_distinct_iff)

lemma mset_concat_enqueue:
  "q < length Q \<Longrightarrow> mset (concat (Q[q := Q ! q @ x])) = mset (concat Q) + mset x"
  by (induction Q arbitrary: q) (auto split: nat.split)

lemma mset_concat_dequeue:
  "q < length Q \<Longrightarrow> Q ! q \<noteq> [] \<Longrightarrow>
     add_mset (hd (Q ! q)) (mset (concat (Q[q := tl (Q ! q)]))) = mset (concat Q)"
proof (induction Q arbitrary: q)
  case (Cons a Q)
  then show ?case by (cases q; cases a) (auto split: nat.split)
qed simp

section \<open>Boost, arrivals and ageing\<close>

lemma boost_loop_spec:
  assumes "m_Queues s \<noteq> []"
  shows "\<exists>ps. boost_loop is s =
       s\<lparr>s_allProcesses := ps, m_Queues := (m_Queues s)[0 := m_Queues s ! 0 @ is]\<rparr> \<and>
     length ps = length (s_allProcesses s) \<and>
     (\<forall>k<length ps. ps ! k =
        (if k \<in> set is then reset_p (s_allProcesses s ! k) else s_allProcesses s ! k))"
  using assms
proof (induction "is" arbitrary: s)
  case Nil
  then show ?case by (intro exI [of _ "s_allProcesses s"]) simp
next
  case (Cons i "is")
  let ?s = "enqueue 0 i (upd_proc i reset_p s)"
  have "m_Queues ?s \<noteq> []" using Cons.prems by simp
  from Cons.IH [OF this] obtain ps where ps: "boost_loop is ?s =
      ?s\<lparr>s_allProcesses := ps, m_Queues := (m_Queues ?s)[0 := m_Queues ?s ! 0 @ is]\<rparr>"
    "length ps = length (s_allProcesses ?s)"
    "\<forall>k<length ps. ps ! k = (if k \<in> set is then reset_p (s_allProcesses ?s ! k) else s_allProcesses ?s ! k)"
    by blast
  have "boost_loop (i # is) s =
      s\<lparr>s_allProcesses := ps, m_Queues := (m_Queues s)[0 := m_Queues s ! 0 @ i # is]\<rparr>"
    using ps(1) Cons.prems by (simp add: enqueue_def upd_proc_def)
  moreover have "ps ! k =
      (if k \<in> set (i # is) then reset_p (s_allProcesses s ! k) else s_allProcesses s ! k)"
    if "k < length ps" for k
    using ps(2,3) that by (cases "k = i") (auto simp: upd_proc_def)
  ultimately show ?case using ps(2) by (intro exI [of _ ps]) (simp add: enqueue_def)
qed

lemma MLFQ_arrive_loop_spec:
  assumes "distinct is" and "m_Queues s \<noteq> []"
  shows "\<exists>ps. MLFQ_arrive_loop t is s =
       s\<lparr>s_allProcesses := ps,
         m_Queues := (m_Queues s)[0 := m_Queues s ! 0 @ filter (\<lambda>k. arrives t (proc s k)) is]\<rparr> \<and>
     length ps = length (s_allProcesses s) \<and>
     (\<forall>k<length ps. ps ! k =
        (if k \<in> set is \<and> arrives t (proc s k) then reset_p ((proc s k)\<lparr>p_State := StateReady\<rparr>)
         else proc s k))"
  using assms
proof (induction "is" arbitrary: s)
  case Nil
  then show ?case by (intro exI [of _ "s_allProcesses s"]) (simp add: proc_def)
next
  case (Cons i "is")
  define s1 where "s1 = (if arrives t (proc s i)
      then enqueue 0 i (upd_proc i (\<lambda>p. reset_p (p\<lparr>p_State := StateReady\<rparr>)) s) else s)"
  have Q: "m_Queues s1 = (m_Queues s)[0 := m_Queues s ! 0 @ filter (\<lambda>k. arrives t (proc s k)) [i]]"
    by (simp add: s1_def)
  have other: "proc s1 k = proc s k" if "k \<noteq> i" for k
    using that by (auto simp: s1_def proc_def upd_proc_def)
  have at_i: "proc s1 i = (if arrives t (proc s i) then reset_p ((proc s i)\<lparr>p_State := StateReady\<rparr>) else proc s i)"
    if "i < length (s_allProcesses s)" using that by (simp add: s1_def proc_upd_proc)
  have ne: "m_Queues s1 \<noteq> []" using Cons.prems Q by simp
  have "distinct is" using Cons.prems by simp
  from Cons.IH [OF this ne] obtain ps where ps: "MLFQ_arrive_loop t is s1 = s1\<lparr>s_allProcesses := ps,
      m_Queues := (m_Queues s1)[0 := m_Queues s1 ! 0 @ filter (\<lambda>k. arrives t (proc s1 k)) is]\<rparr>"
    "length ps = length (s_allProcesses s1)"
    "\<forall>k<length ps. ps ! k = (if k \<in> set is \<and> arrives t (proc s1 k)
        then reset_p ((proc s1 k)\<lparr>p_State := StateReady\<rparr>) else proc s1 k)" by blast
  have len: "length (s_allProcesses s1) = length (s_allProcesses s)" by (simp add: s1_def)
  have notin: "i \<notin> set is" using Cons.prems by simp
  have "filter (\<lambda>k. arrives t (proc s1 k)) is = filter (\<lambda>k. arrives t (proc s k)) is"
    by (rule filter_cong) (use notin other in \<open>simp, metis\<close>)
  then have shape: "MLFQ_arrive_loop t (i # is) s = s\<lparr>s_allProcesses := ps,
      m_Queues := (m_Queues s)[0 := m_Queues s ! 0 @ filter (\<lambda>k. arrives t (proc s k)) (i # is)]\<rparr>"
    using ps(1) Cons.prems(2) Q by (auto simp: s1_def enqueue_def upd_proc_def)
  have at: "ps ! k = (if k \<in> set (i # is) \<and> arrives t (proc s k)
      then reset_p ((proc s k)\<lparr>p_State := StateReady\<rparr>) else proc s k)" if "k < length ps" for k
    using ps(2,3) that notin other [of k] at_i len by (cases "k = i") auto
  show ?case
    using ps(2) len by (intro exI [of _ ps] conjI allI impI) (rule shape, simp, rule at)
qed


lemma levels_okD:
  assumes "levels_ok s"
  shows "refs_ok s (concat (m_Queues s))" "m_NumQueues s = 3" "m_Configs s = mlfq_configs"
    "length (m_Queues s) = 3" "0 < m_BoostPeriod s" "m_Queues s \<noteq> []"
    "q < 3 \<Longrightarrow> i \<in> set (m_Queues s ! q) \<Longrightarrow> p_CurrentQueue (proc s i) = int q \<and>
        0 \<le> p_AllotmentUsed (proc s i) \<and> p_AllotmentUsed (proc s i) < allotment_of (int q)"
  using assms by (auto simp: levels_ok_def)

lemma levels_okI:
  assumes "levels_ok s" and "refs_ok s' (concat (m_Queues s'))" and "m_NumQueues s' = m_NumQueues s"
    and "m_Configs s' = m_Configs s" and "length (m_Queues s') = length (m_Queues s)"
    and "m_BoostPeriod s' = m_BoostPeriod s"
    and "\<And>q i. q < 3 \<Longrightarrow> i \<in> set (m_Queues s' ! q) \<Longrightarrow> p_CurrentQueue (proc s' i) = int q \<and>
        0 \<le> p_AllotmentUsed (proc s' i) \<and> p_AllotmentUsed (proc s' i) < allotment_of (int q)"
  shows "levels_ok s'"
  using assms unfolding levels_ok_def by auto

lemma levels_ready:
  assumes "levels_ok s" and "q < 3" and "i \<in> set (m_Queues s ! q)"
  shows "i \<in> set (concat (m_Queues s))" and "i < length (s_allProcesses s)"
    and "p_State (proc s i) = StateReady" and "s_running s \<noteq> Some i"
proof -
  note ok = levels_okD [OF assms(1)]
  show i: "i \<in> set (concat (m_Queues s))" using assms(2,3) ok(4) by auto
  show "i < length (s_allProcesses s)" "p_State (proc s i) = StateReady"
    using refs_ok_iff(3) [OF ok(1), of i] i by auto
  then show "s_running s \<noteq> Some i" using refs_ok_iff(4) [OF ok(1), of i] by auto
qed

lemma MLFQ_boost_shape:
  assumes "levels_ok s" and "m_BoostPeriod s \<le> m_ticksSinceBoost s"
  shows "\<exists>ps. MLFQ_boost t s = s\<lparr>s_allProcesses := ps, m_Queues := [concat (m_Queues s), [], []],
       m_ticksSinceBoost := 0, m_BoostEvents := m_BoostEvents s @ [t]\<rparr> \<and>
     length ps = length (s_allProcesses s) \<and>
     (\<forall>k<length ps. ps ! k =
        (if k \<in> set (concat (m_Queues s)) \<or> s_running s = Some k then reset_p (proc s k) else proc s k))"
proof -
  define s1 where "s1 = s\<lparr>m_BoostEvents := m_BoostEvents s @ [t], m_ticksSinceBoost := 0,
    m_Queues := map (\<lambda>_. []) (m_Queues s)\<rparr>"
  have Q: "m_Queues s1 = [[], [], []]"
    using levels_okD(4) [OF assms(1)] by (auto simp: s1_def length_Suc_conv numeral_3_eq_3)
  then have "m_Queues s1 \<noteq> []" by simp
  from boost_loop_spec [OF this, of "concat (m_Queues s)"] obtain ps where
    ps: "boost_loop (concat (m_Queues s)) s1 = s1\<lparr>s_allProcesses := ps,
      m_Queues := (m_Queues s1)[0 := m_Queues s1 ! 0 @ concat (m_Queues s)]\<rparr>"
    "length ps = length (s_allProcesses s1)" "\<forall>k<length ps. ps ! k =
      (if k \<in> set (concat (m_Queues s)) then reset_p (s_allProcesses s1 ! k) else s_allProcesses s1 ! k)"
    by blast
  define ps' where "ps' = (case s_running s of Some r \<Rightarrow> ps[r := reset_p (ps ! r)] | None \<Rightarrow> ps)"
  have "MLFQ_boost t s = s\<lparr>s_allProcesses := ps', m_Queues := [concat (m_Queues s), [], []],
       m_ticksSinceBoost := 0, m_BoostEvents := m_BoostEvents s @ [t]\<rparr>"
    using assms(2) ps(1) Q
    by (simp add: MLFQ_boost_def Let_def s1_def ps'_def upd_proc_def split: option.split)
  moreover have "length ps' = length (s_allProcesses s)"
    using ps(2) by (simp add: ps'_def s1_def split: option.split)
  moreover have "ps' ! k = (if k \<in> set (concat (m_Queues s)) \<or> s_running s = Some k
      then reset_p (proc s k) else proc s k)" if "k < length ps'" for k
    using ps(2,3) that
    by (cases "s_running s = Some k")
       (auto simp: ps'_def s1_def proc_def nth_list_update split: option.splits)
  ultimately show ?thesis by (intro exI [of _ ps'] conjI allI impI) simp_all
qed

lemma MLFQ_boost_off:
  "\<not> m_BoostPeriod s \<le> m_ticksSinceBoost s \<Longrightarrow> MLFQ_boost t s = s"
  by (simp add: MLFQ_boost_def)

lemma MLFQ_boost_spec:
  assumes "levels_ok s"
  shows "levels_ok (MLFQ_boost t s) \<and> accts (MLFQ_boost t s) = accts s \<and>
    s_running (MLFQ_boost t s) = s_running s \<and>
    s_gantt (MLFQ_boost t s) = s_gantt s \<and> s_busyTime (MLFQ_boost t s) = s_busyTime s \<and>
    m_currentSlice (MLFQ_boost t s) = m_currentSlice s \<and>
    m_BoostPeriod (MLFQ_boost t s) = m_BoostPeriod s \<and>
    length (s_allProcesses (MLFQ_boost t s)) = length (s_allProcesses s)"
proof (cases "m_BoostPeriod s \<le> m_ticksSinceBoost s")
  case False
  with assms show ?thesis by (simp add: MLFQ_boost_off)
next
  case True
  let ?b = "MLFQ_boost t s"
  from MLFQ_boost_shape [OF assms True, of t] obtain ps where
    b: "?b = s\<lparr>s_allProcesses := ps, m_Queues := [concat (m_Queues s), [], []],
       m_ticksSinceBoost := 0, m_BoostEvents := m_BoostEvents s @ [t]\<rparr>"
    and len: "length ps = length (s_allProcesses s)"
    and pr: "\<forall>k<length ps. ps ! k = (if k \<in> set (concat (m_Queues s)) \<or> s_running s = Some k
       then reset_p (proc s k) else proc s k)" by blast
  note ok = levels_okD [OF assms]
  have pb: "proc ?b k = (if k \<in> set (concat (m_Queues s)) \<or> s_running s = Some k
       then reset_p (proc s k) else proc s k)" if "k < length (s_allProcesses s)" for k
    using pr len that by (simp add: b proc_def)
  have "accts ?b = map (\<lambda>a. a) (accts s)"
    by (rule accts_eqI) (simp add: b len, simp add: pb)
  moreover have r: "refs_ok ?b (concat (m_Queues ?b))"
  proof -
    have "p_State (proc ?b k) = p_State (proc s k)" if "k < length (s_allProcesses s)" for k
      using pb [OF that] by simp
    moreover have "concat (m_Queues ?b) = concat (m_Queues s)" "s_completed ?b = s_completed s"
      "s_running ?b = s_running s" "length (s_allProcesses ?b) = length (s_allProcesses s)"
      by (simp_all add: b len)
    ultimately show ?thesis using refs_ok_states [of ?b s "concat (m_Queues s)"] ok(1) by simp
  qed
  moreover have "levels_ok ?b"
  proof (rule levels_okI [OF assms r])
    fix q i assume q: "q < 3" and i: "i \<in> set (m_Queues ?b ! q)"
    then have "q = 0" and i: "i \<in> set (concat (m_Queues s))"
      by (auto simp: b less_Suc_eq numeral_3_eq_3)
    then show "p_CurrentQueue (proc ?b i) = int q \<and> 0 \<le> p_AllotmentUsed (proc ?b i) \<and>
        p_AllotmentUsed (proc ?b i) < allotment_of (int q)"
      using refs_ok_iff(3) [OF ok(1), of i] pb [of i] by simp
  qed (use ok(4) in \<open>simp_all add: b\<close>)
  ultimately show ?thesis by (simp add: b len)
qed

lemma levels_ok_cong:
  "s_allProcesses s' = s_allProcesses s \<Longrightarrow> s_running s' = s_running s \<Longrightarrow>
   s_completed s' = s_completed s \<Longrightarrow> m_Queues s' = m_Queues s \<Longrightarrow> m_NumQueues s' = m_NumQueues s \<Longrightarrow>
   m_Configs s' = m_Configs s \<Longrightarrow> m_BoostPeriod s' = m_BoostPeriod s \<Longrightarrow> levels_ok s' = levels_ok s"
  by (simp add: levels_ok_def refs_ok_def proc_def)

text \<open>Arrivals.\<close>

lemma MLFQ_arrive_spec:
  fixes s t
  assumes "levels_ok s"
  defines "s' \<equiv> MLFQ_arrive_loop t [0..<length (s_allProcesses s)] s"
    and "new \<equiv> filter (\<lambda>k. arrives t (proc s k)) [0..<length (s_allProcesses s)]"
  shows "levels_ok s' \<and> accts s' = map (arrive1 t) (accts s) \<and>
    (\<exists>ps. s' = s\<lparr>s_allProcesses := ps, m_Queues := (m_Queues s)[0 := m_Queues s ! 0 @ new]\<rparr>) \<and>
    (\<forall>r. s_running s = Some r \<longrightarrow> proc s' r = proc s r)"
proof -
  note ok = levels_okD [OF assms(1)]
  from MLFQ_arrive_loop_spec [OF distinct_upt ok(6), of t 0 "length (s_allProcesses s)"] obtain ps where
    s': "s' = s\<lparr>s_allProcesses := ps, m_Queues := (m_Queues s)[0 := m_Queues s ! 0 @ new]\<rparr>"
    and len: "length ps = length (s_allProcesses s)"
    and pr: "\<forall>k<length ps. ps ! k = (if k \<in> set [0..<length (s_allProcesses s)] \<and> arrives t (proc s k)
       then reset_p ((proc s k)\<lparr>p_State := StateReady\<rparr>) else proc s k)"
    unfolding s'_def new_def by blast
  have ps: "proc s' k = (if arrives t (proc s k)
       then reset_p ((proc s k)\<lparr>p_State := StateReady\<rparr>) else proc s k)"
    if "k < length (s_allProcesses s)" for k using pr len that by (simp add: s' proc_def)
  have acc: "accts s' = map (arrive1 t) (accts s)"
    by (rule accts_eqI) (simp add: s' len, simp add: ps arrive1_def arrives_def)
  have new: "i \<in> set new \<longleftrightarrow> i < length (s_allProcesses s) \<and> arrives t (proc s i)" for i
    by (auto simp: new_def)
  have m: "mset (concat (m_Queues s')) = mset (concat (m_Queues s) @ new)"
    using ok(4) mset_concat_enqueue [of 0 "m_Queues s" new] by (simp add: s')
  have st: "p_State (proc s' k) = (if arrives t (proc s k) then StateReady else p_State (proc s k))"
    if "k < length (s_allProcesses s)" for k using ps [OF that] by simp
  define rdy where "rdy = concat (m_Queues s)"
  note old = refs_ok_iff [OF ok(1), folded rdy_def]
  have f: "length (s_allProcesses s') = length (s_allProcesses s)" "s_running s' = s_running s"
    "s_completed s' = s_completed s" by (simp_all add: s' len)
  have "refs_ok s' (rdy @ new)"
  proof (rule refs_okI)
    have "distinct new" by (simp add: new_def)
    then show "distinct (rdy @ new)"
      unfolding distinct_append using old(1,3) new arrives_new by fastforce
    fix i
    show "i \<in> set (rdy @ new) \<longleftrightarrow> i < length (s_allProcesses s') \<and> p_State (proc s' i) = StateReady"
      using arrives_new [of t "proc s i"] by (auto simp: f old(3) new st split: if_splits)
    show "s_running s' = Some i \<longleftrightarrow> i < length (s_allProcesses s') \<and> p_State (proc s' i) = StateRunning"
      using arrives_new [of t "proc s i"] by (auto simp: f old(4) st split: if_splits)
    show "i \<in> set (s_completed s') \<longleftrightarrow>
        i < length (s_allProcesses s') \<and> p_State (proc s' i) = StateTerminated"
      using arrives_new [of t "proc s i"] by (auto simp: f old(5) st split: if_splits)
  qed (simp add: f old(2))
  then have r: "refs_ok s' (concat (m_Queues s'))" unfolding rdy_def refs_ok_mset [OF m] .
  have "levels_ok s'"
  proof (rule levels_okI [OF assms(1) r])
    fix q i assume q: "q < 3" and i: "i \<in> set (m_Queues s' ! q)"
    show "p_CurrentQueue (proc s' i) = int q \<and> 0 \<le> p_AllotmentUsed (proc s' i) \<and>
        p_AllotmentUsed (proc s' i) < allotment_of (int q)"
    proof (cases "i \<in> set (m_Queues s ! q)")
      case True
      from levels_ready [OF assms(1) q True] have "proc s' i = proc s i"
        using ps [of i] arrives_new [of t "proc s i"] by auto
      with ok(7) [OF q True] show ?thesis by simp
    next
      case False
      then have "q = 0" "i \<in> set new" using i ok(4) q by (auto simp: s' nth_list_update split: if_splits)
      with new [of i] ps [of i] show ?thesis by simp
    qed
  qed (simp_all add: s')
  moreover have "proc s' r = proc s r" if "s_running s = Some r" for r
    using that old(4) [of r] ps [of r] arrives_new [of t "proc s r"] by auto
  ultimately show ?thesis using acc s' by blast
qed

lemma age_loop_keeps [simp]:
  "p_CurrentQueue (proc (age_loop is s) k) = p_CurrentQueue (proc s k)"
  "p_AllotmentUsed (proc (age_loop is s) k) = p_AllotmentUsed (proc s k)"
  by (induction "is" arbitrary: s) (simp_all add: upd_proc_keep)

text \<open>Everything before the check of the running process.\<close>

definition boost_due :: "MLFQScheduler \<Rightarrow> bool" where
  "boost_due s \<longleftrightarrow> m_BoostPeriod s \<le> m_ticksSinceBoost s + 1"

definition arriving :: "int \<Rightarrow> MLFQScheduler \<Rightarrow> nat list" where
  "arriving t s = filter (\<lambda>k. arrives t (proc s k)) [0..<length (s_allProcesses s)]"

lemma arriving_accts:
  assumes "accts s' = accts s"
  shows "arriving t s' = arriving t s"
proof -
  have len: "length (s_allProcesses s') = length (s_allProcesses s)" using assms length_accts by metis
  have "arrives t (proc s' k) = arrives t (proc s k)" if "k < length (s_allProcesses s)" for k
    using nth_accts [of k s] nth_accts [of k s'] that len assms account_of_simps(1,2)
    unfolding arrives_def by metis
  then show ?thesis unfolding arriving_def len by (intro filter_cong) auto
qed

lemma MLFQ_boost_levels:
  assumes "levels_ok s" and "m_BoostPeriod s \<le> m_ticksSinceBoost s"
  shows "m_Queues (MLFQ_boost t s) = [concat (m_Queues s), [], []] \<and>
    m_ticksSinceBoost (MLFQ_boost t s) = 0 \<and>
    (\<forall>r. s_running s = Some r \<longrightarrow> proc (MLFQ_boost t s) r = reset_p (proc s r))"
proof -
  from MLFQ_boost_shape [OF assms, of t] obtain ps where
    b: "MLFQ_boost t s = s\<lparr>s_allProcesses := ps, m_Queues := [concat (m_Queues s), [], []],
       m_ticksSinceBoost := 0, m_BoostEvents := m_BoostEvents s @ [t]\<rparr>"
    and len: "length ps = length (s_allProcesses s)"
    and pr: "\<forall>k<length ps. ps ! k = (if k \<in> set (concat (m_Queues s)) \<or> s_running s = Some k
       then reset_p (proc s k) else proc s k)" by blast
  then show ?thesis
    using refs_okD(3) [OF levels_okD(1) [OF assms(1)]] by (auto simp: proc_def)
qed

lemma MLFQ_begin_spec:
  fixes s t
  assumes "levels_ok s"
  defines "b \<equiv> MLFQ_begin t s"
    and "Q \<equiv> (if boost_due s then [concat (m_Queues s), [], []] else m_Queues s)"
  shows "levels_ok b \<and> accts b = map (\<lambda>a. age1 (arrive1 t a)) (accts s) \<and>
    s_running b = s_running s \<and> s_gantt b = s_gantt s \<and> s_busyTime b = s_busyTime s \<and>
    m_currentSlice b = m_currentSlice s \<and> m_BoostPeriod b = m_BoostPeriod s \<and>
    m_Queues b = Q[0 := Q ! 0 @ arriving t s] \<and>
    m_ticksSinceBoost b = (if boost_due s then 0 else m_ticksSinceBoost s + 1) \<and>
    (\<forall>r. s_running s = Some r \<longrightarrow>
       p_CurrentQueue (proc b r) = (if boost_due s then 0 else p_CurrentQueue (proc s r)) \<and>
       p_AllotmentUsed (proc b r) = (if boost_due s then 0 else p_AllotmentUsed (proc s r)))"
proof -
  define s0 where "s0 = s\<lparr>s_totalTime := t + 1, m_ticksSinceBoost := m_ticksSinceBoost s + 1\<rparr>"
  define s1 where "s1 = MLFQ_boost t s0"
  define s2 where "s2 = MLFQ_arrive_loop t [0..<length (s_allProcesses s1)] s1"
  have l0: "levels_ok s0" using levels_ok_cong [of s0 s] assms(1) by (simp add: s0_def)
  have acc0: "accts s0 = accts s" by (rule accts_cong) (simp add: s0_def)
  have due: "m_BoostPeriod s0 \<le> m_ticksSinceBoost s0 \<longleftrightarrow> boost_due s"
    by (simp add: s0_def boost_due_def)
  note B = MLFQ_boost_spec [OF l0, of t, folded s1_def]
  have Q1: "m_Queues s1 = Q \<and> m_ticksSinceBoost s1 = (if boost_due s then 0 else m_ticksSinceBoost s + 1) \<and>
      (\<forall>r. s_running s = Some r \<longrightarrow> proc s1 r = (if boost_due s then reset_p (proc s r) else proc s r))"
    using MLFQ_boost_levels [OF l0, of t] MLFQ_boost_off [of s0 t] due
    by (cases "boost_due s") (auto simp: s1_def Q_def s0_def proc_def)
  from B have l1: "levels_ok s1" by blast
  note A = MLFQ_arrive_spec [OF l1, of t, folded s2_def arriving_def]
  from A have l2: "levels_ok s2" by blast
  note G = age_all_spec [OF levels_okD(1) [OF l2]]
  have b: "b = age_loop (concat (m_Queues s2)) s2"
    by (simp add: b_def MLFQ_begin_def Let_def s2_def s1_def s0_def)
  obtain ps where sh: "b = s2\<lparr>s_allProcesses := ps\<rparr>" using age_loop_shape b by blast
  have l3: "levels_ok b"
    by (rule levels_okI [OF l2])
       (use G levels_okD(7) [OF l2] in \<open>simp_all add: b [symmetric], simp_all add: sh, simp_all add: b sh [symmetric]\<close>)
  have acc: "accts b = map (\<lambda>a. age1 (arrive1 t a)) (accts s)"
    using G A B acc0 by (simp add: b comp_def)
  have arr: "arriving t s1 = arriving t s" using arriving_accts [of s1 s] B acc0 by simp
  have f2: "s_running s2 = s_running s1" "s_gantt s2 = s_gantt s1" "s_busyTime s2 = s_busyTime s1"
    "m_currentSlice s2 = m_currentSlice s1" "m_BoostPeriod s2 = m_BoostPeriod s1"
    "m_ticksSinceBoost s2 = m_ticksSinceBoost s1"
    "m_Queues s2 = (m_Queues s1)[0 := m_Queues s1 ! 0 @ arriving t s1]"
    using A by auto
  have f1: "s_running s1 = s_running s" "s_gantt s1 = s_gantt s" "s_busyTime s1 = s_busyTime s"
    "m_currentSlice s1 = m_currentSlice s" "m_BoostPeriod s1 = m_BoostPeriod s"
    using B by (simp_all add: s0_def)
  have "p_CurrentQueue (proc b r) = (if boost_due s then 0 else p_CurrentQueue (proc s r)) \<and>
       p_AllotmentUsed (proc b r) = (if boost_due s then 0 else p_AllotmentUsed (proc s r))"
    if "s_running s = Some r" for r
    using A Q1 f1(1) that by (simp add: b)
  with l3 acc f2 f1 arr Q1 show ?thesis by (simp add: sh)
qed

section \<open>The running process and the dispatch\<close>

lemma set_update_append:
  "i \<in> set (Q[q := Q ! q @ [r]] ! k) \<Longrightarrow> k < length Q \<Longrightarrow> i \<in> set (Q ! k) \<or> i = r \<and> k = q"
  by (cases "q = k") auto

lemma update_append_prefix: "k < length Q \<Longrightarrow> \<exists>x. Q[q := Q ! q @ [r]] ! k = Q ! k @ x"
  by (cases "q = k") auto

lemma requeue_spec:
  assumes "levels_ok s" and "s_running s = Some r" and "p_CurrentQueue (proc s r) \<in> {0, 1, 2}"
    and "0 \<le> p_AllotmentUsed (proc s r)"
    and "p_AllotmentUsed (proc s r) < allotment_of (p_CurrentQueue (proc s r))"
  shows "levels_ok (requeue r s) \<and> accts (requeue r s) = accts (release_running r s)"
proof -
  note ok = levels_okD [OF assms(1)]
  define q where "q = nat (p_CurrentQueue (proc s r))"
  have q: "q < 3" "int q = p_CurrentQueue (proc s r)" using assms(3) by (auto simp: q_def)
  have pr: "proc (requeue r s) k = proc (release_running r s) k" for k
    by (simp add: requeue_def proc_def enqueue_def)
  have Q: "m_Queues (requeue r s) = (m_Queues s)[q := m_Queues s ! q @ [r]]"
    by (simp add: requeue_def q_def)
  have rel: "refs_ok (release_running r s) (concat (m_Queues s) @ [r])"
    using release_spec [OF ok(1) assms(2)] by blast
  have m: "mset (concat (m_Queues (requeue r s))) = mset (concat (m_Queues s) @ [r])"
    using mset_concat_enqueue [of q "m_Queues s" "[r]"] q(1) ok(4) by (simp add: Q)
  have "refs_ok (release_running r s) (concat (m_Queues (requeue r s)))"
    using rel unfolding refs_ok_mset [OF m] .
  then have R: "refs_ok (requeue r s) (concat (m_Queues (requeue r s)))"
    by (subst refs_ok_cong [where s = "release_running r s"]) (simp_all add: requeue_def)
  have "levels_ok (requeue r s)"
  proof (rule levels_okI [OF assms(1) R])
    fix k i assume k: "k < 3" and i: "i \<in> set (m_Queues (requeue r s) ! k)"
    from set_update_append [OF i [unfolded Q]] k ok(4) have "i \<in> set (m_Queues s ! k) \<or> i = r \<and> k = q"
      by simp
    then show "p_CurrentQueue (proc (requeue r s) i) = int k \<and>
        0 \<le> p_AllotmentUsed (proc (requeue r s) i) \<and>
        p_AllotmentUsed (proc (requeue r s) i) < allotment_of (int k)"
      using ok(7) [OF k] assms(4,5) q by (auto simp: pr)
  qed (simp_all add: requeue_def)
  moreover have "accts (requeue r s) = accts (release_running r s)"
    by (rule accts_cong) (simp add: requeue_def)
  ultimately show ?thesis ..
qed

lemma requeue_fields [simp]:
  "s_running (requeue r s) = None" "s_gantt (requeue r s) = s_gantt s"
  "s_busyTime (requeue r s) = s_busyTime s" "m_currentSlice (requeue r s) = 0"
  "m_BoostPeriod (requeue r s) = m_BoostPeriod s"
  "m_ticksSinceBoost (requeue r s) = m_ticksSinceBoost s"
  "m_Queues (requeue r s) = (m_Queues s)[nat (p_CurrentQueue (proc s r)) :=
     m_Queues s ! nat (p_CurrentQueue (proc s r)) @ [r]]"
  by (simp_all add: requeue_def)

lemma levels_note:
  assumes "levels_ok s" and "s_running s = Some r" and "\<And>p. p_State (f p) = p_State p"
  shows "levels_ok (upd_proc r f s)"
proof -
  note ok = levels_okD [OF assms(1)]
  have "proc (upd_proc r f s) i = proc s i" if "q < 3" "i \<in> set (m_Queues s ! q)" for i q
    using levels_ready [OF assms(1) that] assms(2) by (simp add: proc_upd_proc)
  with ok(1,7) show ?thesis
    by (intro levels_okI [OF assms(1)]) (auto simp: note_ok [OF assms(3)])
qed

lemma demote_p_simps [simp]:
  "p_State (demote_p n p) = p_State p" "account_of (demote_p n p) = account_of p"
  "p_AllotmentUsed (demote_p n p) = 0"
  by (simp_all add: demote_p_def account_of_def)

text \<open>
  The check of the running process never panics; it leaves a running process with some of its
  allotment and of its slice, or puts it at the end of the list of its level.
\<close>

definition expire_ok :: "MLFQScheduler \<Rightarrow> MLFQScheduler \<Rightarrow> bool" where
  "expire_ok s e \<longleftrightarrow> levels_ok e \<and> s_gantt e = s_gantt s \<and> s_busyTime e = s_busyTime s \<and>
     m_BoostPeriod e = m_BoostPeriod s \<and> m_ticksSinceBoost e = m_ticksSinceBoost s \<and>
     (\<forall>q<3. \<exists>x. m_Queues e ! q = m_Queues s ! q @ x) \<and>
     (e = s \<and> running_ok 0 1 s \<or>
      (\<exists>r. s_running s = Some r \<and> s_running e = None \<and> accts e = accts (release_running r s) \<and>
         (\<exists>q<3. r \<in> set (m_Queues e ! q))))"

definition running_begin :: "MLFQScheduler \<Rightarrow> bool" where
  "running_begin s \<longleftrightarrow> (\<forall>r. s_running s = Some r \<longrightarrow>
     p_CurrentQueue (proc s r) \<in> {0, 1, 2} \<and> 0 \<le> p_AllotmentUsed (proc s r) \<and> 0 \<le> m_currentSlice s)"

lemma MLFQ_expire_requeue:
  assumes "levels_ok s" and "s_running s = Some r" and "\<And>p. p_State (f p) = p_State p"
    and "\<And>p. account_of (f p) = account_of p"
    and "p_CurrentQueue (f (proc s r)) \<in> {0, 1, 2}" and "0 \<le> p_AllotmentUsed (f (proc s r))"
    and "p_AllotmentUsed (f (proc s r)) < allotment_of (p_CurrentQueue (f (proc s r)))"
  shows "expire_ok s (requeue r (upd_proc r f s))"
proof -
  let ?s = "upd_proc r f s"
  have r: "r < length (s_allProcesses s)" using refs_okD(3) levels_okD(1) assms(1,2) by blast
  then have pr: "proc ?s r = f (proc s r)" by (simp add: proc_upd_proc)
  note R = requeue_spec [OF levels_note [OF assms(1-3)], of r]
  have "accts (release_running r ?s) = map preempt1 (accts ?s)" "accts (release_running r s) = map preempt1 (accts s)"
    using release_spec [of ?s "concat (m_Queues ?s)" r] release_spec [of s "concat (m_Queues s)" r]
      levels_okD(1) [OF assms(1)] levels_okD(1) [OF levels_note [OF assms(1-3)]] assms(2) by simp_all
  then have acc: "accts (release_running r ?s) = accts (release_running r s)"
    using note_accts [of f r s, OF assms(4)] by simp
  have q: "nat (p_CurrentQueue (proc ?s r)) < 3" using assms(5) pr by auto
  have mem: "r \<in> set (m_Queues (requeue r ?s) ! nat (p_CurrentQueue (proc ?s r)))"
    using q levels_okD(4) [OF assms(1)] by simp
  have pre: "\<forall>q<3. \<exists>x. m_Queues (requeue r ?s) ! q = m_Queues s ! q @ x"
    using levels_okD(4) [OF assms(1)] update_append_prefix [of _ "m_Queues s"] by simp
  show ?thesis
    unfolding expire_ok_def using R assms(2,5,6,7) acc pre q mem
    by (auto simp: pr simp del: requeue_fields(7))
qed

lemma MLFQ_expire_spec:
  assumes "levels_ok s" and "running_begin s"
  shows "\<exists>e. MLFQ_expire s = Some e \<and> expire_ok s e"
proof (cases "s_running s")
  case None
  then show ?thesis using assms by (simp add: MLFQ_expire_def expire_ok_def running_ok_def)
next
  case (Some r)
  note ok = levels_okD [OF assms(1)]
  let ?q = "p_CurrentQueue (proc s r)"
  have q: "?q \<in> {0, 1, 2}" "0 \<le> p_AllotmentUsed (proc s r)" "0 \<le> m_currentSlice s"
    using assms(2) Some by (auto simp: running_begin_def)
  have cfg: "c_Allotment (m_Configs s ! nat ?q) = allotment_of ?q" "c_Quantum (m_Configs s ! nat ?q) = quantum_of ?q"
    "\<not> (?q < 0 \<or> length (m_Configs s) \<le> nat ?q)"
    using ok(3) q(1) by (auto simp: allotment_of_def quantum_of_def)
  consider "allotment_of ?q \<le> p_AllotmentUsed (proc s r)"
    | "\<not> allotment_of ?q \<le> p_AllotmentUsed (proc s r)" "quantum_of ?q \<le> m_currentSlice s"
    | "\<not> allotment_of ?q \<le> p_AllotmentUsed (proc s r)" "\<not> quantum_of ?q \<le> m_currentSlice s" by blast
  then show ?thesis
  proof cases
    case 1
    have "expire_ok s (requeue r (upd_proc r (demote_p (m_NumQueues s)) s))"
      by (rule MLFQ_expire_requeue [OF assms(1) Some]) (use q(1) ok(2) in \<open>auto simp: demote_p_def account_of_def\<close>)
    moreover have "MLFQ_expire s = Some (requeue r (upd_proc r (demote_p (m_NumQueues s)) s))"
      using Some cfg 1 by (simp add: MLFQ_expire_def Let_def)
    ultimately show ?thesis by blast
  next
    case 2
    have "expire_ok s (requeue r (upd_proc r (\<lambda>p. p) s))"
      by (rule MLFQ_expire_requeue [OF assms(1) Some]) (use q 2 in auto)
    moreover have "MLFQ_expire s = Some (requeue r (upd_proc r (\<lambda>p. p) s))"
      using Some cfg 2 by (simp add: MLFQ_expire_def Let_def upd_proc_def)
    ultimately show ?thesis by blast
  next
    case 3
    then have "MLFQ_expire s = Some s" using Some cfg by (simp add: MLFQ_expire_def Let_def)
    moreover have "running_ok 0 1 s" using Some q 3 by (simp add: running_ok_def)
    ultimately show ?thesis using assms(1) by (simp add: expire_ok_def)
  qed
qed

lemma first_nonempty_Some:
  "first_nonempty k Q = Some q \<Longrightarrow>
     k \<le> q \<and> q - k < length Q \<and> Q ! (q - k) \<noteq> [] \<and> (\<forall>j<q - k. Q ! j = [])"
proof (induction k Q rule: first_nonempty.induct)
  case (2 k q' qs)
  show ?case
  proof (cases "q' = []")
    case True
    with 2 have h: "Suc k \<le> q" "q - Suc k < length qs" "qs ! (q - Suc k) \<noteq> []"
      "\<forall>j<q - Suc k. qs ! j = []" by auto
    then have "q - k = Suc (q - Suc k)" by simp
    with h True show ?thesis by (auto simp: nth_Cons split: nat.split)
  next
    case False
    with 2 show ?thesis by auto
  qed
qed simp

lemma first_nonempty_None: "first_nonempty k Q = None \<longleftrightarrow> concat Q = []"
  by (induction k Q rule: first_nonempty.induct) auto

lemma MLFQ_dispatch_cases:
  assumes "levels_ok s"
  obtains (stay) "MLFQ_dispatch t s = s" "s_running s \<noteq> None \<or> concat (m_Queues s) = []"
  | (start) q where "s_running s = None" "q < 3" "m_Queues s ! q \<noteq> []" "\<forall>j<q. m_Queues s ! j = []"
      "MLFQ_dispatch t s = (start_process t (hd (m_Queues s ! q))
         (s\<lparr>m_Queues := (m_Queues s)[q := tl (m_Queues s ! q)]\<rparr>))\<lparr>m_currentSlice := 0\<rparr>"
proof (cases "s_running s = None \<and> concat (m_Queues s) \<noteq> []")
  case True
  then obtain q where "first_nonempty 0 (m_Queues s) = Some q"
    using first_nonempty_None [of 0 "m_Queues s"] by (cases "first_nonempty 0 (m_Queues s)") simp_all
  with first_nonempty_Some [OF this] True levels_okD(4) [OF assms] show ?thesis
    by (intro start) (simp_all add: MLFQ_dispatch_def)
next
  case False
  then have "s_running s \<noteq> None \<or> first_nonempty 0 (m_Queues s) = None"
    unfolding first_nonempty_None by simp
  then have "MLFQ_dispatch t s = s" by (auto simp: MLFQ_dispatch_def split: option.splits)
  with False stay show ?thesis by blast
qed

lemma distinct_dequeue:
  assumes "distinct rdy" and "add_mset i (mset rdy') = mset rdy"
  shows "distinct rdy'" and "set rdy' = set rdy - {i}" and "i \<in> set rdy"
proof -
  have "mset rdy = mset (i # rdy')" using assms(2) by simp
  then have "distinct (i # rdy')" "set rdy = set (i # rdy')"
    using assms(1) mset_eq_imp_distinct_iff mset_eq_setD by blast+
  then show "distinct rdy'" "set rdy' = set rdy - {i}" "i \<in> set rdy" by auto
qed

lemma MLFQ_start_spec:
  fixes s t q
  assumes "levels_ok s" and "s_running s = None" and "q < 3" and "m_Queues s ! q \<noteq> []"
  defines "i \<equiv> hd (m_Queues s ! q)"
  defines "d \<equiv> (start_process t i
      (s\<lparr>m_Queues := (m_Queues s)[q := tl (m_Queues s ! q)]\<rparr>))\<lparr>m_currentSlice := 0\<rparr>"
  shows "levels_ok d \<and> running_ok 0 1 d \<and> accts d = accts (start_process t i s) \<and>
     i \<in> set (concat (m_Queues s))"
proof -
  note ok = levels_okD [OF assms(1)]
  have m: "add_mset i (mset (concat (m_Queues d))) = mset (concat (m_Queues s))"
    using mset_concat_dequeue [of q "m_Queues s"] assms(3,4) ok(4) by (simp add: d_def i_def)
  note D = distinct_dequeue [OF refs_ok_iff(1) [OF ok(1)] m]
  have all: "s_allProcesses d = s_allProcesses (start_process t i s)"
    by (simp add: d_def start_process_def upd_proc_def)
  have "refs_ok (start_process t i s) (concat (m_Queues d))"
    by (rule start_spec [OF ok(1) assms(2) D(3,1,2)])
  then have R: "refs_ok d (concat (m_Queues d))"
    by (subst refs_ok_cong [where s = "start_process t i s", OF all]) (simp_all add: d_def)
  have pr: "p_CurrentQueue (proc d k) = p_CurrentQueue (proc s k)"
    "p_AllotmentUsed (proc d k) = p_AllotmentUsed (proc s k)" for k
    using phase_keeps(1,3) [of t i s k] all by (simp_all add: proc_def)
  have L: "levels_ok d"
  proof (rule levels_okI [OF assms(1) R])
    fix k j assume k: "k < 3" and j: "j \<in> set (m_Queues d ! k)"
    then have "j \<in> set (m_Queues s ! k)"
      using ok(4) list.set_sel(2) [OF assms(4)] by (cases "q = k") (auto simp: d_def)
    from ok(7) [OF k this] show "p_CurrentQueue (proc d j) = int k \<and>
        0 \<le> p_AllotmentUsed (proc d j) \<and> p_AllotmentUsed (proc d j) < allotment_of (int k)"
      by (simp add: pr)
  qed (simp_all add: d_def)
  have "i \<in> set (m_Queues s ! q)" using assms(4) by (simp add: i_def)
  from ok(7) [OF assms(3) this] have i: "p_CurrentQueue (proc d i) = int q"
    "0 \<le> p_AllotmentUsed (proc d i)" "p_AllotmentUsed (proc d i) < allotment_of (int q)"
    by (simp_all add: pr)
  have "int q \<in> {0, 1, 2}" using assms(3) by auto
  then have "running_ok 0 1 d" using i by (auto simp: running_ok_def d_def)
  with L D(3) accts_cong [OF all] show ?thesis by blast
qed

text \<open>The dispatch of a whole tick makes one of the choices that the contract allows.\<close>

lemma MLFQ_dispatch_spec:
  fixes s e t
  assumes "levels_ok s" and "expire_ok s e"
  defines "d \<equiv> MLFQ_dispatch t e"
  shows "levels_ok d \<and> running_ok 0 1 d \<and> dispatch t (accts s) (accts d) \<and>
     s_gantt d = s_gantt s \<and> s_busyTime d = s_busyTime s \<and>
     m_BoostPeriod d = m_BoostPeriod s \<and> m_ticksSinceBoost d = m_ticksSinceBoost s"
proof -
  have e: "levels_ok e" "s_gantt e = s_gantt s" "s_busyTime e = s_busyTime s"
    "m_BoostPeriod e = m_BoostPeriod s" "m_ticksSinceBoost e = m_ticksSinceBoost s"
    using assms(2) by (auto simp: expire_ok_def)
  note ok = levels_okD [OF assms(1)] and oke = levels_okD [OF e(1)]
  from e(1) show ?thesis
  proof (cases rule: MLFQ_dispatch_cases [where t = t])
    case stay
    have same: "e = s \<and> running_ok 0 1 s"
    proof (rule ccontr)
      assume "\<not> (e = s \<and> running_ok 0 1 s)"
      then obtain r q where "s_running e = None" "q < 3" "r \<in> set (m_Queues e ! q)"
        using assms(2) unfolding expire_ok_def by blast
      with stay(2) levels_ready(1) [OF e(1)] show False by (metis list.set(1) empty_iff)
    qed
    have "dispatch t (accts s) (accts s)"
    proof (cases "s_running s")
      case None
      then have "concat (m_Queues s) = []" using stay(2) same by (simp del: concat_eq_Nil_conv)
      from dispatch_idle [OF ok(1) [unfolded this] None] show ?thesis .
    next
      case (Some r)
      then show ?thesis by (rule dispatch_keep [OF ok(1)])
    qed
    with same assms(1) stay(1) show ?thesis by (simp add: d_def)
  next
    case (start q)
    let ?i = "hd (m_Queues e ! q)"
    note S = MLFQ_start_spec [OF e(1) start(1,2,3), of t]
    have i: "?i \<in> set (concat (m_Queues e))" and d: "accts d = accts (start_process t ?i e)"
      using S start(5) unfolding d_def by simp_all
    have "dispatch t (accts s) (accts (start_process t ?i e))"
    proof (cases "e = s")
      case True
      with dispatch_start [OF oke(1) start(1) i, of t] show ?thesis by simp
    next
      case False
      then obtain r where r: "s_running s = Some r" "accts e = accts (release_running r s)"
        using assms(2) unfolding expire_ok_def by blast
      have len: "length (s_allProcesses e) = length (s_allProcesses s)"
        using arg_cong [OF r(2), of length] by simp
      have st: "?i < length (s_allProcesses e)" "p_State (proc e ?i) = StateReady"
        using refs_okD(1,2) [OF oke(1) i] by auto
      have "account_of (proc (release_running r s) ?i) = account_of (proc e ?i)"
        using arg_cong [OF r(2), of "\<lambda>a. a ! ?i"] st(1) len by (simp add: nth_accts)
      then have "p_State (proc (release_running r s) ?i) = StateReady"
        using st(2) account_of_simps(1) by metis
      then have "?i \<in> set (concat (m_Queues s) @ [r])"
        using refs_ok_iff(3) [OF release_spec [OF ok(1) r(1), THEN conjunct1], of ?i] st(1) len by simp
      from dispatch_release_start [OF ok(1) r(1) this, of t] show ?thesis
        using accts_start [of ?i e t] accts_start [of ?i "release_running r s" t] st(1) len r(2) by simp
    qed
    with S d e start(5) show ?thesis by (simp add: d_def)
  qed
qed

section \<open>The contract\<close>

lemma MLFQ_run_Some:
  assumes "s_running s = Some i"
    and "u = run_current t mlfq_label (upd_proc i (\<lambda>p. p\<lparr>p_AllotmentUsed := p_AllotmentUsed p + 1\<rparr>)
       (s\<lparr>m_currentSlice := m_currentSlice s + 1\<rparr>))"
  shows "MLFQ_run t s = (if s_running u = None then u\<lparr>m_currentSlice := 0\<rparr> else u)"
  unfolding MLFQ_run_def assms(1) option.case Let_def assms(2) [symmetric] ..

lemma MLFQ_run_spec:
  fixes s t
  assumes "levels_ok s" and "running_ok 0 1 s"
  defines "s' \<equiv> MLFQ_run t s"
  shows "levels_ok s' \<and> running_ok 1 0 s' \<and> m_BoostPeriod s' = m_BoostPeriod s \<and>
     m_ticksSinceBoost s' = m_ticksSinceBoost s \<and> m_Queues s' = m_Queues s \<and>
     (\<exists>s2 s3. s3 = run_current t mlfq_label s2 \<and> refs_ok s2 (concat (m_Queues s)) \<and>
        accts s2 = accts s \<and> s_gantt s2 = s_gantt s \<and> s_busyTime s2 = s_busyTime s \<and>
        (\<exists>c. s' = s3\<lparr>m_currentSlice := c\<rparr>))"
proof (cases "s_running s")
  case None
  then have s': "s' = run_current t mlfq_label s" by (simp add: s'_def MLFQ_run_def)
  have n: "s_running s' = None" using None by (simp add: s' run_current_def)
  note ok = levels_okD [OF assms(1)]
  have "refs_ok s' (concat (m_Queues s'))"
    using run_current_spec [OF ok(1), of t mlfq_label] by (simp add: s')
  then have "levels_ok s'"
    by (rule levels_okI [OF assms(1)]) (use ok(7) in \<open>simp_all add: s'\<close>)
  moreover have "\<exists>c. s' = (run_current t mlfq_label s)\<lparr>m_currentSlice := c\<rparr>"
    by (intro exI [of _ "m_currentSlice s'"]) (simp add: s')
  moreover have "running_ok 1 0 s'" using n by (simp add: running_ok_def)
  moreover have "m_BoostPeriod s' = m_BoostPeriod s" "m_ticksSinceBoost s' = m_ticksSinceBoost s"
    "m_Queues s' = m_Queues s" by (simp_all add: s')
  ultimately show ?thesis using ok(1) by blast
next
  case (Some i)
  let ?f = "\<lambda>p. p\<lparr>p_AllotmentUsed := p_AllotmentUsed p + 1\<rparr>"
  define s1 where "s1 = s\<lparr>m_currentSlice := m_currentSlice s + 1\<rparr>"
  define s2 where "s2 = upd_proc i ?f s1"
  define s3 where "s3 = run_current t mlfq_label s2"
  have s': "s' = (if s_running s3 = None then s3\<lparr>m_currentSlice := 0\<rparr> else s3)"
    unfolding s'_def by (rule MLFQ_run_Some [OF Some]) (simp add: s3_def s2_def s1_def)
  have l1: "levels_ok s1" using levels_ok_cong [of s1 s] assms(1) by (simp add: s1_def)
  have r1: "s_running s1 = Some i" using Some by (simp add: s1_def)
  have l2: "levels_ok s2" unfolding s2_def by (rule levels_note [OF l1 r1]) simp
  note ok = levels_okD [OF l2]
  have Q: "m_Queues s2 = m_Queues s" by (simp add: s2_def s1_def)
  have i: "i < length (s_allProcesses s)" using refs_okD(3) [OF levels_okD(1) [OF assms(1)] Some] .
  then have pi: "proc s2 i = ?f (proc s i)" by (simp add: s2_def s1_def proc_upd_proc) (simp add: proc_def)
  have "accts s2 = accts s1" unfolding s2_def by (rule note_accts) (simp add: account_of_def)
  also have "\<dots> = accts s" by (rule accts_cong) (simp add: s1_def)
  finally have acc: "accts s2 = accts s" .
  have sl: "\<exists>c. s' = s3\<lparr>m_currentSlice := c\<rparr>"
  proof (cases "s_running s3 = None")
    case True
    then show ?thesis by (intro exI [of _ 0]) (simp only: s' refl if_True)
  next
    case False
    then have "s' = s3" by (simp only: s' if_False)
    then show ?thesis by (intro exI [of _ "m_currentSlice s3"]) simp
  qed
  have R3: "refs_ok s3 (concat (m_Queues s3))"
    using run_current_spec [OF ok(1), of t mlfq_label] by (simp add: s3_def)
  have l3: "levels_ok s3"
    by (rule levels_okI [OF l2 R3]) (use ok(7) in \<open>simp_all add: s3_def\<close>)
  then have "levels_ok s'" using sl levels_ok_cong [of s' s3] by auto
  moreover have "running_ok 1 0 s'"
  proof -
    have same: "r = i \<and> s' = s3" if "s_running s' = Some r" for r
    proof -
      have "s_running s3 \<noteq> None" using that s' by (cases "s_running s3 = None") simp_all
      then have "s' = s3" by (simp only: s' if_False)
      with run_current_running [of t mlfq_label s2 r] that r1 show ?thesis
        by (simp add: s3_def) (simp add: s2_def)
    qed
    have at: "m_currentSlice s3 = m_currentSlice s + 1" by (simp add: s3_def s2_def s1_def)
    have ai: "p_CurrentQueue (proc s3 i) = p_CurrentQueue (proc s i)"
      "p_AllotmentUsed (proc s3 i) = p_AllotmentUsed (proc s i) + 1" by (simp_all add: s3_def pi)
    show ?thesis unfolding running_ok_def
    proof (intro allI impI)
      fix r assume r: "s_running s' = Some r"
      from same [OF r] have eq: "r = i" "s' = s3" by simp_all
      show "p_CurrentQueue (proc s' r) \<in> {0, 1, 2} \<and> 1 \<le> p_AllotmentUsed (proc s' r) \<and>
          p_AllotmentUsed (proc s' r) + 0 \<le> allotment_of (p_CurrentQueue (proc s' r)) \<and>
          1 \<le> m_currentSlice s' \<and>
          m_currentSlice s' + 0 \<le> quantum_of (p_CurrentQueue (proc s' r))"
        unfolding eq at ai using assms(2) [unfolded running_ok_def, rule_format, OF Some] by simp
    qed
  qed
  moreover have "m_BoostPeriod s' = m_BoostPeriod s" "m_ticksSinceBoost s' = m_ticksSinceBoost s"
    "m_Queues s' = m_Queues s"
    using sl by (auto simp: s3_def s2_def s1_def)
  moreover have "s_gantt s2 = s_gantt s" "s_busyTime s2 = s_busyTime s" by (simp_all add: s2_def s1_def)
  ultimately show ?thesis using sl acc ok(1) [unfolded Q] s3_def by blast
qed

lemma MLFQ_begin_inv:
  assumes "MLFQ_inv s"
  shows "levels_ok (MLFQ_begin t s)" and "running_begin (MLFQ_begin t s)"
    and "0 \<le> m_ticksSinceBoost (MLFQ_begin t s)"
    and "m_ticksSinceBoost (MLFQ_begin t s) < m_BoostPeriod s"
    and "m_BoostPeriod (MLFQ_begin t s) = m_BoostPeriod s"
proof -
  have l: "levels_ok s" "running_ok 1 0 s" "0 \<le> m_ticksSinceBoost s"
    using assms by (simp_all add: MLFQ_inv_def)
  note B = MLFQ_begin_spec [OF l(1), of t]
  show "levels_ok (MLFQ_begin t s)" "m_BoostPeriod (MLFQ_begin t s) = m_BoostPeriod s" using B by blast+
  show "0 \<le> m_ticksSinceBoost (MLFQ_begin t s)" "m_ticksSinceBoost (MLFQ_begin t s) < m_BoostPeriod s"
    using B l(3) levels_okD(5) [OF l(1)] by (auto simp: boost_due_def)
  show "running_begin (MLFQ_begin t s)"
    using B l(2) by (auto simp: running_begin_def running_ok_def)
qed

text \<open>One tick: the states between its phases.\<close>

lemma MLFQ_Tick_stages:
  assumes "MLFQ_inv s"
  obtains e d s' where "expire_ok (MLFQ_begin t s) e" "d = MLFQ_dispatch t e" "s' = MLFQ_run t d"
    "levels_ok e" "levels_ok d" "running_ok 0 1 d" "MLFQ_inv s'"
    "MLFQ_Tick s t = Some (s', s_running s', tick_done s')"
proof -
  note b = MLFQ_begin_inv [OF assms, of t]
  from MLFQ_expire_spec [OF b(1,2)] obtain e where
    e: "MLFQ_expire (MLFQ_begin t s) = Some e" "expire_ok (MLFQ_begin t s) e" by blast
  define d where "d = MLFQ_dispatch t e"
  define s' where "s' = MLFQ_run t d"
  note D = MLFQ_dispatch_spec [OF b(1) e(2), of t, folded d_def]
  then have d: "levels_ok d" "running_ok 0 1 d" by blast+
  note R = MLFQ_run_spec [OF d, of t, folded s'_def]
  have "MLFQ_inv s'" using R D b by (simp add: MLFQ_inv_def)
  moreover have "MLFQ_Tick s t = Some (s', s_running s', tick_done s')"
    by (simp add: MLFQ_Tick_def e(1) Let_def s'_def d_def)
  moreover have "levels_ok e" using e(2) by (simp add: expire_ok_def)
  ultimately show thesis using e(2) d that d_def s'_def by blast
qed

lemma MLFQ_tick_contract:
  assumes "MLFQ_inv s"
  shows "\<exists>s'. MLFQ_Tick s t = Some (s', s_running s', tick_done s') \<and> MLFQ_inv s' \<and>
     astep t (accounts (s_allProcesses s)) (accounts (s_allProcesses s')) \<and>
     (\<forall>i. s_running s' = Some i \<longleftrightarrow>
        i < length (s_allProcesses s') \<and> p_State (s_allProcesses s' ! i) = StateRunning) \<and>
     tick_done s' = (length (s_completed s') = length (s_allProcesses s') \<and> s_allProcesses s' \<noteq> []) \<and>
     s_busyTime s' - s_busyTime s =
       total_rem (accounts (s_allProcesses s)) - total_rem (accounts (s_allProcesses s')) \<and>
     (\<exists>seg. s_gantt s' = s_gantt s @ [seg] \<and> gs_StartTime seg = t \<and> gs_EndTime seg = t + 1)"
proof -
  have l: "levels_ok s" using assms by (simp add: MLFQ_inv_def)
  note B = MLFQ_begin_spec [OF l, of t] and b = MLFQ_begin_inv [OF assms, of t]
  from assms obtain e d s' where E: "expire_ok (MLFQ_begin t s) e" and d: "d = MLFQ_dispatch t e"
    and s': "s' = MLFQ_run t d" and ld: "levels_ok d" "running_ok 0 1 d" and i': "MLFQ_inv s'"
    and tick: "MLFQ_Tick s t = Some (s', s_running s', tick_done s')"
    by (rule MLFQ_Tick_stages)
  note D = MLFQ_dispatch_spec [OF b(1) E, of t, folded d]
  from MLFQ_run_spec [OF ld, of t, folded s'] obtain s2 s3 c where
    s3: "s3 = run_current t mlfq_label s2" and ok2: "refs_ok s2 (concat (m_Queues d))"
    and s2: "accts s2 = accts d" "s_gantt s2 = s_gantt d" "s_busyTime s2 = s_busyTime d"
    and c: "s' = s3\<lparr>m_currentSlice := c\<rparr>" by blast
  have di: "dispatch t (map (\<lambda>a. age1 (arrive1 t a)) (accts s)) (accts s2)"
    "s_gantt s2 = s_gantt s" "s_busyTime s2 = s_busyTime s" using D B s2 by simp_all
  have f: "s_allProcesses s' = s_allProcesses s3" "s_running s' = s_running s3"
    "s_completed s' = s_completed s3" "s_busyTime s' = s_busyTime s3" "s_gantt s' = s_gantt s3"
    by (simp_all add: c)
  have "tick_done s' = tick_done s3" by (simp add: tick_done_def f)
  with tick_contract [OF di(1) ok2 di(2,3) s3] tick i' show ?thesis
    by (intro exI [of _ s'] conjI) (simp_all only: f, blast+)
qed

interpretation mlfq: cpu_scheduler "NewMLFQScheduler boost" MLFQ_AddProcess MLFQ_Tick
  s_allProcesses s_completed s_busyTime s_gantt "\<lambda>p. True" MLFQ_inv for boost
proof (unfold_locales, goal_cases)
  case 1
  have "m_Queues (NewMLFQScheduler boost) = [[], [], []]"
    by (simp add: NewMLFQScheduler_def mlfq_configs_def)
  then show ?case
    by (simp add: MLFQ_inv_def levels_ok_def running_ok_def less_Suc_eq numeral_3_eq_3)
       (simp add: NewMLFQScheduler_def refs_ok_def)
next
  case (2 s p)
  have "refs_ok (base_add s p) (concat (m_Queues s))"
    using 2 by (intro base_add_ok) (simp_all add: MLFQ_inv_def levels_ok_def)
  moreover have pr: "proc (base_add s p) i = proc s i" if "i < length (s_allProcesses s)" for i
    using that by (simp add: base_add_def proc_def nth_append)
  have "levels_ok s" "running_ok 1 0 s" using 2 by (simp_all add: MLFQ_inv_def)
  moreover have "levels_ok (base_add s p)"
  proof (rule levels_okI)
    show "levels_ok s" by fact
    fix q i assume "q < 3" "i \<in> set (m_Queues (base_add s p) ! q)"
    then have q: "q < 3" "i \<in> set (m_Queues s ! q)" by (simp_all add: base_add_def)
    from levels_ready(2) [OF \<open>levels_ok s\<close> q] levels_okD(7) [OF \<open>levels_ok s\<close> q]
    show "p_CurrentQueue (proc (base_add s p) i) = int q \<and>
        0 \<le> p_AllotmentUsed (proc (base_add s p) i) \<and>
        p_AllotmentUsed (proc (base_add s p) i) < allotment_of (int q)" by (simp add: pr)
  qed (use calculation(1) in \<open>simp_all add: base_add_def\<close>)
  moreover have "running_ok 1 0 (base_add s p)"
    using \<open>running_ok 1 0 s\<close> refs_okD(3) [OF levels_okD(1) [OF \<open>levels_ok s\<close>]] pr
    by (auto simp: running_ok_def) (simp_all add: base_add_def)
  ultimately show ?case using 2
    by (simp add: MLFQ_AddProcess_def MLFQ_inv_def) (simp add: base_add_def)
next
  case (3 s t)
  from MLFQ_tick_contract [OF 3, of t] show ?case by blast
next
  case (4 s t s' r d)
  from MLFQ_tick_contract [OF 4(1), of t] 4(2) show ?case by auto
next
  case (5 s)
  then show ?case
    using refs_ok_iff(2,5) [of s "concat (m_Queues s)"] by (simp add: MLFQ_inv_def levels_ok_def proc_def)
qed

section \<open>No starvation\<close>

text \<open>Process \<open>i\<close> runs in one of the next \<open>n + 1\<close> ticks from time \<open>t\<close>.\<close>

definition runs_within :: "MLFQScheduler \<Rightarrow> int \<Rightarrow> nat \<Rightarrow> int \<Rightarrow> bool" where
  "runs_within s t i n \<longleftrightarrow> (\<exists>m u u'. int m \<le> n \<and> MLFQ_ticks m t s = Some u \<and>
     MLFQ_ticks (Suc m) t s = Some u' \<and>
     p_RemainingTime (proc u' i) = p_RemainingTime (proc u i) - 1)"

lemma runs_within_step:
  assumes "MLFQ_Tick s t = Some (s', r, c)" and "runs_within s' (t + 1) i n" and "n + 1 \<le> n'"
  shows "runs_within s t i n'"
proof -
  obtain m u u' where "int m \<le> n" "MLFQ_ticks m (t + 1) s' = Some u"
    "MLFQ_ticks (Suc m) (t + 1) s' = Some u'" "p_RemainingTime (proc u' i) = p_RemainingTime (proc u i) - 1"
    using assms(2) unfolding runs_within_def by blast
  then have "int (Suc m) \<le> n'" "MLFQ_ticks (Suc m) t s = Some u" "MLFQ_ticks (Suc (Suc m)) t s = Some u'"
    using assms(1,3) by simp_all
  then show ?thesis using \<open>p_RemainingTime (proc u' i) = p_RemainingTime (proc u i) - 1\<close>
    unfolding runs_within_def by blast
qed

lemma runs_within_now:
  assumes "MLFQ_Tick s t = Some (s', r, c)" and "0 \<le> n"
    and "p_RemainingTime (proc s' i) = p_RemainingTime (proc s i) - 1"
  shows "runs_within s t i n"
  unfolding runs_within_def using assms by (intro exI [of _ 0]) simp

text \<open>The process that was running after the dispatch has lost one unit of work.\<close>

lemma MLFQ_run_view:
  assumes "MLFQ_inv s" and "expire_ok (MLFQ_begin t s) e" and "d = MLFQ_dispatch t e"
    and "s' = MLFQ_run t d" and "i < length (s_allProcesses s)"
  shows "length (s_allProcesses s') = length (s_allProcesses s)"
    and "s_running d = Some i \<Longrightarrow> p_RemainingTime (proc s' i) = p_RemainingTime (proc s i) - 1"
proof -
  have l: "levels_ok s" using assms(1) by (simp add: MLFQ_inv_def)
  note B = MLFQ_begin_spec [OF l, of t] and b = MLFQ_begin_inv [OF assms(1), of t]
  note D = MLFQ_dispatch_spec [OF b(1) assms(2), of t, folded assms(3)]
  then have ld: "levels_ok d" "running_ok 0 1 d" and
    di: "dispatch t (accts (MLFQ_begin t s)) (accts d)" by blast+
  from MLFQ_run_spec [OF ld, of t, folded assms(4)] obtain s2 s3 c where
    s3: "s3 = run_current t mlfq_label s2" and ok2: "refs_ok s2 (concat (m_Queues d))"
    and s2: "accts s2 = accts d" and c: "s' = s3\<lparr>m_currentSlice := c\<rparr>" by blast
  have "accts s' = accts s3" by (rule accts_cong) (simp add: c)
  then have acc: "accts s' = map (run1 t) (accts d)"
    using run_current_spec [OF ok2, of t mlfq_label, folded s3] s2 by simp
  have rem: "map a_rem (accts d) = map a_rem (accts s)"
    using dispatch_rem [OF di] B by (simp add: comp_def)
  then have len: "length (s_allProcesses d) = length (s_allProcesses s)"
    using map_eq_imp_length_eq [OF rem] by simp
  show len': "length (s_allProcesses s') = length (s_allProcesses s)"
    using arg_cong [OF acc, of length] len by simp
  assume r: "s_running d = Some i"
  have "p_State (proc d i) = StateRunning" using refs_okD(4) [OF levels_okD(1) [OF ld(1)] r] .
  then have "a_rem (accts s' ! i) = a_rem (accts d ! i) - 1"
    using assms(5) len by (simp add: acc nth_accts)
  moreover have "a_rem (accts d ! i) = a_rem (accts s ! i)"
    using arg_cong [OF rem, of "\<lambda>x. x ! i"] len assms(5) by simp
  ultimately show "p_RemainingTime (proc s' i) = p_RemainingTime (proc s i) - 1"
    using assms(5) len' by (simp add: nth_accts)
qed

text \<open>What the first two phases and the expiry do to the ready lists.\<close>

lemma MLFQ_begin_queues:
  assumes "levels_ok s"
  shows "\<exists>x. m_Queues (MLFQ_begin t s) ! 0 = m_Queues s ! 0 @ x"
    and "boost_due s \<Longrightarrow> q < 3 \<Longrightarrow> i \<in> set (m_Queues s ! q) \<Longrightarrow> i \<in> set (m_Queues (MLFQ_begin t s) ! 0)"
    and "\<not> boost_due s \<Longrightarrow> i \<in> set (m_Queues s ! q) \<Longrightarrow> i \<in> set (m_Queues (MLFQ_begin t s) ! q)"
proof -
  note B = MLFQ_begin_spec [OF assms, of t] and ok = levels_okD [OF assms]
  obtain a b c where Q: "m_Queues s = [a, b, c]"
    using ok(4) by (auto simp: length_Suc_conv numeral_3_eq_3)
  show "\<exists>x. m_Queues (MLFQ_begin t s) ! 0 = m_Queues s ! 0 @ x" using B Q by simp
  show "boost_due s \<Longrightarrow> q < 3 \<Longrightarrow> i \<in> set (m_Queues s ! q) \<Longrightarrow> i \<in> set (m_Queues (MLFQ_begin t s) ! 0)"
    using B Q by (auto simp: less_Suc_eq numeral_3_eq_3)
  show "\<not> boost_due s \<Longrightarrow> i \<in> set (m_Queues s ! q) \<Longrightarrow> i \<in> set (m_Queues (MLFQ_begin t s) ! q)"
    using B Q by (cases q) auto
qed

text \<open>
  An upper bound on the ticks before the process at position \<open>k\<close> of level 0 runs: what is left of
  the running slice and two ticks for each process in front of it.
\<close>

definition MLFQ_wait :: "MLFQScheduler \<Rightarrow> nat \<Rightarrow> int" where
  "MLFQ_wait s k = (case s_running s of
     None \<Rightarrow> 0 | Some r \<Rightarrow> quantum_of (p_CurrentQueue (proc s r)) - m_currentSlice s) + 2 * int k"

lemma MLFQ_wait_bounds:
  assumes "MLFQ_inv s"
  shows "2 * int k \<le> MLFQ_wait s k" and "MLFQ_wait s k \<le> 7 + 2 * int k"
  using assms by (auto simp: MLFQ_inv_def running_ok_def MLFQ_wait_def split: option.split)

lemma MLFQ_run_fields:
  "s_running (MLFQ_run t d) = Some r \<Longrightarrow> s_running d = Some r \<and>
     p_CurrentQueue (proc (MLFQ_run t d) r) = p_CurrentQueue (proc d r) \<and>
     m_currentSlice (MLFQ_run t d) = m_currentSlice d + 1"
  "m_Queues (MLFQ_run t d) = m_Queues d"
proof -
  let ?f = "\<lambda>p. p\<lparr>p_AllotmentUsed := p_AllotmentUsed p + 1\<rparr>"
  have k: "p_CurrentQueue (proc (upd_proc i ?f x) r) = p_CurrentQueue (proc x r)" for i x
    by (rule upd_proc_keep) simp
  have p: "proc (d\<lparr>m_currentSlice := c\<rparr>) r = proc d r" for c by (simp add: proc_def)
  show "s_running d = Some r \<and> p_CurrentQueue (proc (MLFQ_run t d) r) = p_CurrentQueue (proc d r) \<and>
     m_currentSlice (MLFQ_run t d) = m_currentSlice d + 1" if "s_running (MLFQ_run t d) = Some r"
  proof (cases "s_running d")
    case None
    then show ?thesis using that by (simp add: MLFQ_run_def run_current_def)
  next
    case (Some i)
    define u where "u = run_current t mlfq_label (upd_proc i ?f (d\<lparr>m_currentSlice := m_currentSlice d + 1\<rparr>))"
    have u: "MLFQ_run t d = (if s_running u = None then u\<lparr>m_currentSlice := 0\<rparr> else u)"
      by (rule MLFQ_run_Some [OF Some u_def])
    have "s_running u \<noteq> None" using that u by (cases "s_running u = None") simp_all
    then have m: "MLFQ_run t d = u" by (simp only: u if_False)
    then have "s_running u = Some r" using that by simp
    from run_current_running [OF this [unfolded u_def]] show ?thesis
      unfolding m u_def using Some by (simp add: k p)
  qed
  show "m_Queues (MLFQ_run t d) = m_Queues d"
  proof (cases "s_running d")
    case None
    then show ?thesis by (simp add: MLFQ_run_def)
  next
    case (Some i)
    define u where "u = run_current t mlfq_label (upd_proc i ?f (d\<lparr>m_currentSlice := m_currentSlice d + 1\<rparr>))"
    have "MLFQ_run t d = (if s_running u = None then u\<lparr>m_currentSlice := 0\<rparr> else u)"
      by (rule MLFQ_run_Some [OF Some u_def])
    then have "m_Queues (MLFQ_run t d) = m_Queues u" by simp
    also have "\<dots> = m_Queues d" by (simp add: u_def)
    finally show ?thesis .
  qed
qed

lemma MLFQ_advance:
  assumes "MLFQ_inv s" and "k < length (m_Queues (MLFQ_begin t s) ! 0)"
    and "m_Queues (MLFQ_begin t s) ! 0 ! k = i" and "i < length (s_allProcesses s)"
  shows "\<exists>s' r c. MLFQ_Tick s t = Some (s', r, c) \<and> MLFQ_inv s' \<and>
     length (s_allProcesses s') = length (s_allProcesses s) \<and>
     (p_RemainingTime (proc s' i) = p_RemainingTime (proc s i) - 1 \<or>
      (\<exists>k'\<le>k. k' < length (m_Queues s' ! 0) \<and> m_Queues s' ! 0 ! k' = i \<and>
         MLFQ_wait s' k' < MLFQ_wait s k))"
proof -
  have l: "levels_ok s" using assms(1) by (simp add: MLFQ_inv_def)
  define b where "b = MLFQ_begin t s"
  note B = MLFQ_begin_spec [OF l, of t, folded b_def]
  from assms(1) obtain e d s' where E: "expire_ok b e" and d: "d = MLFQ_dispatch t e"
    and s': "s' = MLFQ_run t d" and le: "levels_ok e" and ld: "levels_ok d" "running_ok 0 1 d" and i': "MLFQ_inv s'"
    and tick: "MLFQ_Tick s t = Some (s', s_running s', tick_done s')"
    unfolding b_def by (rule MLFQ_Tick_stages [where t = t])
  note V = MLFQ_run_view [OF assms(1) E [unfolded b_def] d s' assms(4)]
  note F = MLFQ_run_fields [of t d, folded s']
  obtain x where x: "m_Queues e ! 0 = m_Queues b ! 0 @ x" using E unfolding expire_ok_def by (meson zero_less_numeral)
  then have ke: "k < length (m_Queues e ! 0)" "m_Queues e ! 0 ! k = i"
    using assms(2,3) by (simp_all add: b_def nth_append)
  have "p_RemainingTime (proc s' i) = p_RemainingTime (proc s i) - 1 \<or>
      (\<exists>k'\<le>k. k' < length (m_Queues s' ! 0) \<and> m_Queues s' ! 0 ! k' = i \<and> MLFQ_wait s' k' < MLFQ_wait s k)"
    using le
  proof (cases rule: MLFQ_dispatch_cases [where t = t])
    case stay
    have "concat (m_Queues e) \<noteq> []" using ke(1) levels_okD(6) [OF le] by (cases "m_Queues e") auto
    then obtain r where r: "s_running e = Some r" using stay(2) by auto
    then have eb: "e = b" "running_ok 0 1 b" using E by (auto simp: expire_ok_def)
    have db: "d = b" using d stay(1) eb(1) by simp
    have rs: "s_running s = Some r" "m_currentSlice b = m_currentSlice s" using B r eb(1) by auto
    have q: "p_CurrentQueue (proc b r) = (if boost_due s then 0 else p_CurrentQueue (proc s r))"
      "p_CurrentQueue (proc s r) \<in> {0, 1, 2}"
      using B rs assms(1) by (auto simp: MLFQ_inv_def running_ok_def)
    have lt: "m_currentSlice s + 1 \<le> quantum_of (p_CurrentQueue (proc b r))"
      using eb r rs(2) by (simp add: running_ok_def)
    have le2: "quantum_of (p_CurrentQueue (proc b r)) \<le> quantum_of (p_CurrentQueue (proc s r))"
      using q by auto
    have "MLFQ_wait s' k < MLFQ_wait s k"
      using F(1) [of r] F(1) lt le2 rs db r eb(1)
      by (cases "s_running s'") (auto simp: MLFQ_wait_def)
    then show ?thesis using ke db eb(1) F(2) by auto
  next
    case (start q)
    then have "q = 0" using ke(1) by (cases q) auto
    note S = MLFQ_start_spec [OF le start(1,2,3), of t]
    have dd: "s_running d = Some (hd (m_Queues e ! 0))" "m_Queues d ! 0 = tl (m_Queues e ! 0)"
      "m_currentSlice d = 0"
      using start(5) levels_okD(4) [OF le] by (simp_all add: d \<open>q = 0\<close>)
    show ?thesis
    proof (cases k)
      case 0
      then have "hd (m_Queues e ! 0) = i" using ke start(3) by (cases "m_Queues e ! 0") auto
      then show ?thesis using V(2) dd(1) by simp
    next
      case (Suc k')
      have k': "k' < length (m_Queues s' ! 0)" "m_Queues s' ! 0 ! k' = i"
        using ke Suc by (simp_all add: F(2) dd(2) nth_tl)
      have "p_CurrentQueue (proc e (hd (m_Queues e ! 0))) = 0"
        using levels_okD(7) [OF le, of 0 "hd (m_Queues e ! 0)"] start(3) \<open>q = 0\<close> by simp
      then have "p_CurrentQueue (proc d (hd (m_Queues e ! 0))) = 0"
      proof -
        have "proc d k = proc (start_process t (hd (m_Queues e ! 0))
            (e\<lparr>m_Queues := (m_Queues e)[0 := tl (m_Queues e ! 0)]\<rparr>)) k"
          "proc (e\<lparr>m_Queues := qs\<rparr>) k = proc e k" for k qs
          using start(5) \<open>q = 0\<close> by (simp_all add: d proc_def)
        with \<open>p_CurrentQueue (proc e (hd (m_Queues e ! 0))) = 0\<close> show ?thesis by simp
      qed
      then have "MLFQ_wait s' k' \<le> 1 + 2 * int k'"
        using F(1) dd(1,3) by (cases "s_running s'") (auto simp: MLFQ_wait_def)
      also have "\<dots> < MLFQ_wait s k" using MLFQ_wait_bounds(1) [OF assms(1), of k] Suc by simp
      finally show ?thesis using k' Suc by (intro disjI2 exI [of _ k']) simp
    qed
  qed
  with tick i' V(1) show ?thesis by blast
qed

lemma MLFQ_level0_runs:
  assumes "MLFQ_inv s" and "k < length (m_Queues s ! 0)" and "m_Queues s ! 0 ! k = i"
  shows "runs_within s t i (MLFQ_wait s k)"
  using assms
proof (induction "nat (MLFQ_wait s k)" arbitrary: s k t rule: less_induct)
  case less
  have l: "levels_ok s" using less.prems(1) by (simp add: MLFQ_inv_def)
  have i: "i < length (s_allProcesses s)"
    using levels_ready(2) [OF l, of 0 i] less.prems(2,3) by auto
  obtain x where "m_Queues (MLFQ_begin t s) ! 0 = m_Queues s ! 0 @ x" using MLFQ_begin_queues(1) [OF l] by blast
  then have "k < length (m_Queues (MLFQ_begin t s) ! 0)" "m_Queues (MLFQ_begin t s) ! 0 ! k = i"
    using less.prems(2,3) by (simp_all add: nth_append)
  from MLFQ_advance [OF less.prems(1) this i] obtain s' r c where
    s': "MLFQ_Tick s t = Some (s', r, c)" "MLFQ_inv s'"
    and alt: "p_RemainingTime (proc s' i) = p_RemainingTime (proc s i) - 1 \<or>
      (\<exists>k'\<le>k. k' < length (m_Queues s' ! 0) \<and> m_Queues s' ! 0 ! k' = i \<and> MLFQ_wait s' k' < MLFQ_wait s k)"
    by blast
  have ge: "0 \<le> MLFQ_wait s k" using MLFQ_wait_bounds(1) [OF less.prems(1), of k] by simp
  from alt show ?case
  proof (elim disjE exE conjE)
    assume "p_RemainingTime (proc s' i) = p_RemainingTime (proc s i) - 1"
    then show ?case by (rule runs_within_now [OF s'(1) ge])
  next
    fix k' assume k': "k' < length (m_Queues s' ! 0)" "m_Queues s' ! 0 ! k' = i"
      "MLFQ_wait s' k' < MLFQ_wait s k"
    have "0 \<le> MLFQ_wait s' k'" using MLFQ_wait_bounds(1) [OF s'(2), of k'] by simp
    with k'(3) have "nat (MLFQ_wait s' k') < nat (MLFQ_wait s k)" by simp
    from less.hyps [OF this s'(2) k'(1,2), of "t + 1"] show ?case
      by (rule runs_within_step [OF s'(1)]) (use k'(3) in simp)
  qed
qed

text \<open>A process on a lower level waits for the boost at most.\<close>

lemma levels_length:
  assumes "levels_ok s" and "q < 3"
  shows "length (m_Queues s ! q) \<le> length (s_allProcesses s)"
proof -
  note ok = levels_okD [OF assms(1)]
  have "distinct (m_Queues s ! q)"
    using refs_ok_iff(1) [OF ok(1)] ok(4) assms(2) by (auto simp: distinct_concat_iff)
  then have "length (m_Queues s ! q) = card (set (m_Queues s ! q))" by (simp add: distinct_card)
  also have "\<dots> \<le> card {..<length (s_allProcesses s)}"
    using levels_ready(2) [OF assms] by (intro card_mono) auto
  finally show ?thesis by simp
qed

lemma MLFQ_kept:
  assumes "levels_ok e" and "q < 3" and "i \<in> set (m_Queues e ! q)"
  shows "s_running (MLFQ_dispatch t e) = Some i \<or> i \<in> set (m_Queues (MLFQ_dispatch t e) ! q)"
  using assms(1)
proof (cases rule: MLFQ_dispatch_cases [where t = t])
  case stay
  then show ?thesis using assms(3) by simp
next
  case (start q')
  then show ?thesis
    using assms(2,3) levels_okD(4) [OF assms(1)]
    by (cases "q' = q"; cases "m_Queues e ! q") auto
qed

lemma MLFQ_ready_runs:
  assumes "MLFQ_inv s" and "q < 3" and "i \<in> set (m_Queues s ! q)"
  shows "runs_within s t i
     (m_BoostPeriod s - m_ticksSinceBoost s + 8 + 2 * int (length (s_allProcesses s)))"
  using assms
proof (induction "nat (m_BoostPeriod s - m_ticksSinceBoost s)" arbitrary: s t rule: less_induct)
  case less
  let ?n = "int (length (s_allProcesses s))"
  let ?N = "m_BoostPeriod s - m_ticksSinceBoost s + 8 + 2 * ?n"
  have l: "levels_ok s" and tb: "0 \<le> m_ticksSinceBoost s" "m_ticksSinceBoost s < m_BoostPeriod s"
    using less.prems(1) by (simp_all add: MLFQ_inv_def)
  have i: "i < length (s_allProcesses s)" by (rule levels_ready(2) [OF l less.prems(2,3)])
  note lb = MLFQ_begin_inv [OF less.prems(1), of t]
  have nn: "0 \<le> ?N" using tb by simp
  show ?case
  proof (cases "boost_due s")
    case True
    from MLFQ_begin_queues(2) [OF l True less.prems(2,3), of t] obtain k where
      k: "k < length (m_Queues (MLFQ_begin t s) ! 0)" "m_Queues (MLFQ_begin t s) ! 0 ! k = i"
      by (auto simp: in_set_conv_nth)
    have "length (s_allProcesses (MLFQ_begin t s)) = length (s_allProcesses s)"
      using MLFQ_begin_spec [OF l, of t] by (metis length_accts length_map)
    then have "k < length (s_allProcesses s)" using k(1) levels_length [OF lb(1), of 0] by simp
    from MLFQ_advance [OF less.prems(1) k i] obtain s' r c where
      s': "MLFQ_Tick s t = Some (s', r, c)" "MLFQ_inv s'"
      and alt: "p_RemainingTime (proc s' i) = p_RemainingTime (proc s i) - 1 \<or>
        (\<exists>k'\<le>k. k' < length (m_Queues s' ! 0) \<and> m_Queues s' ! 0 ! k' = i \<and> MLFQ_wait s' k' < MLFQ_wait s k)"
      by blast
    from alt show ?thesis
    proof (elim disjE exE conjE)
      assume "p_RemainingTime (proc s' i) = p_RemainingTime (proc s i) - 1"
      then show ?thesis by (rule runs_within_now [OF s'(1) nn])
    next
      fix k' assume k': "k' \<le> k" "k' < length (m_Queues s' ! 0)" "m_Queues s' ! 0 ! k' = i"
      from MLFQ_level0_runs [OF s'(2) k'(2,3), of "t + 1"] show ?thesis
        by (rule runs_within_step [OF s'(1)])
           (use MLFQ_wait_bounds(2) [OF s'(2), of k'] k'(1) \<open>k < length (s_allProcesses s)\<close> tb in simp)
    qed
  next
    case False
    from less.prems(1) obtain e d s' where E: "expire_ok (MLFQ_begin t s) e" and d: "d = MLFQ_dispatch t e"
      and s': "s' = MLFQ_run t d" and le: "levels_ok e" and ld: "levels_ok d" "running_ok 0 1 d"
      and i': "MLFQ_inv s'" and tick: "MLFQ_Tick s t = Some (s', s_running s', tick_done s')"
      by (rule MLFQ_Tick_stages [where t = t])
    note V = MLFQ_run_view [OF less.prems(1) E d s' i]
    have "m_BoostPeriod d = m_BoostPeriod (MLFQ_begin t s)"
      "m_ticksSinceBoost d = m_ticksSinceBoost (MLFQ_begin t s)"
      using MLFQ_dispatch_spec [OF lb(1) E, of t, folded d] by blast+
    moreover have "m_BoostPeriod s' = m_BoostPeriod d" "m_ticksSinceBoost s' = m_ticksSinceBoost d"
      using MLFQ_run_spec [OF ld, of t, folded s'] by blast+
    ultimately have bt: "m_BoostPeriod s' = m_BoostPeriod s" "m_ticksSinceBoost s' = m_ticksSinceBoost s + 1"
      using MLFQ_begin_spec [OF l, of t] False by simp_all
    obtain x where "m_Queues e ! q = m_Queues (MLFQ_begin t s) ! q @ x"
      using E less.prems(2) unfolding expire_ok_def by blast
    then have "i \<in> set (m_Queues e ! q)"
      using MLFQ_begin_queues(3) [OF l False less.prems(3), of t] by simp
    from MLFQ_kept [OF le less.prems(2) this, of t] show ?thesis
    proof
      assume "s_running (MLFQ_dispatch t e) = Some i"
      then have "p_RemainingTime (proc s' i) = p_RemainingTime (proc s i) - 1" using V(2) d by simp
      then show ?thesis by (rule runs_within_now [OF tick nn])
    next
      assume "i \<in> set (m_Queues (MLFQ_dispatch t e) ! q)"
      then have q': "i \<in> set (m_Queues s' ! q)" by (simp add: s' d MLFQ_run_fields(2))
      have "nat (m_BoostPeriod s' - m_ticksSinceBoost s') < nat (m_BoostPeriod s - m_ticksSinceBoost s)"
        using bt tb by simp
      from less.hyps [OF this i' less.prems(2) q', of "t + 1"] show ?thesis
        by (rule runs_within_step [OF tick]) (use bt V(1) in simp)
    qed
  qed
qed

text \<open>
  C22: the multi-level feedback queue starves no process. A process that is ready at some moment
  runs in one of the next \<open>BoostPeriod + 8 + 2 * n\<close> ticks, where \<open>n\<close> is the number of processes
  of the scheduler, whatever its level, whatever arrives and however long the other jobs are.
\<close>

theorem MLFQ_no_starvation:
  assumes "MLFQ_inv s" and "i < length (s_allProcesses s)" and "p_State (proc s i) = StateReady"
  shows "\<exists>m u u'. int m \<le> m_BoostPeriod s + 8 + 2 * int (length (s_allProcesses s)) \<and>
     MLFQ_ticks m t s = Some u \<and> MLFQ_ticks (Suc m) t s = Some u' \<and>
     p_RemainingTime (proc u' i) = p_RemainingTime (proc u i) - 1"
proof -
  have l: "levels_ok s" "0 \<le> m_ticksSinceBoost s" using assms(1) by (simp_all add: MLFQ_inv_def)
  have "i \<in> set (concat (m_Queues s))" using refs_ok_iff(3) [OF levels_okD(1) [OF l(1)]] assms(2,3) by blast
  then obtain xs where "xs \<in> set (m_Queues s)" "i \<in> set xs" by auto
  then obtain q where "q < 3" "i \<in> set (m_Queues s ! q)"
    using levels_okD(4) [OF l(1)] by (metis in_set_conv_nth)
  from MLFQ_ready_runs [OF assms(1) this, of t] l(2) show ?thesis
    unfolding runs_within_def by force
qed

definition MLFQ_jobs :: MLFQScheduler where
  "MLFQ_jobs = add_clones MLFQ_AddProcess
     [NewProcess 1 ''A'' 0 30, NewProcess 2 ''B'' 0 3] (NewMLFQScheduler 20)"

definition MLFQ_example :: MLFQScheduler where
  "MLFQ_example = (case MLFQ_Tick MLFQ_jobs 0 of Some (s, _) \<Rightarrow> s | None \<Rightarrow> MLFQ_jobs)"

lemma MLFQ_jobs_inv: "MLFQ_inv MLFQ_jobs"
  unfolding MLFQ_jobs_def
  by (rule mlfq.add_clones_law [THEN conjunct1]) (simp_all add: mlfq.new_law)

lemma MLFQ_example_inv: "MLFQ_inv MLFQ_example"
proof -
  obtain s' where t: "MLFQ_Tick MLFQ_jobs 0 = Some (s', s_running s', tick_done s')" and "MLFQ_inv s'"
    using MLFQ_tick_contract [OF MLFQ_jobs_inv, of 0] by blast
  then show ?thesis by (simp only: MLFQ_example_def t option.case prod.case)
qed

lemma MLFQ_example_values:
  "length (s_allProcesses MLFQ_example) = 2" "p_State (proc MLFQ_example 1) = StateReady"
  "m_BoostPeriod MLFQ_example = 20"
  by code_simp+

theorem MLFQ_no_starvation_witness:
  "p_State (proc MLFQ_example 1) = StateReady \<and>
   (\<exists>m u u'. int m \<le> 32 \<and> MLFQ_ticks m 1 MLFQ_example = Some u \<and>
     MLFQ_ticks (Suc m) 1 MLFQ_example = Some u' \<and>
     p_RemainingTime (proc u' 1) = p_RemainingTime (proc u 1) - 1)"
proof -
  have "1 < length (s_allProcesses MLFQ_example)"
    "m_BoostPeriod MLFQ_example + 8 + 2 * int (length (s_allProcesses MLFQ_example)) = 32"
    unfolding MLFQ_example_values by simp_all
  from MLFQ_no_starvation [OF MLFQ_example_inv this(1) MLFQ_example_values(2), of 1, unfolded this(2)]
  show ?thesis using MLFQ_example_values(2) by blast
qed

section \<open>The rules\<close>

lemma MLFQ_ticks_inv:
  "MLFQ_inv s \<Longrightarrow> \<exists>s'. MLFQ_ticks n t s = Some s' \<and> MLFQ_inv s' \<and> m_BoostPeriod s' = m_BoostPeriod s"
proof (induction n arbitrary: t s)
  case (Suc n)
  note b = MLFQ_begin_inv [OF Suc.prems, of t]
  from Suc.prems obtain e d s' where E: "expire_ok (MLFQ_begin t s) e" and d: "d = MLFQ_dispatch t e"
    and s': "s' = MLFQ_run t d" and ld: "levels_ok d" "running_ok 0 1 d"
    and i': "MLFQ_inv s'" and tick: "MLFQ_Tick s t = Some (s', s_running s', tick_done s')"
    by (rule MLFQ_Tick_stages [where t = t])
  have "m_BoostPeriod s' = m_BoostPeriod s"
    using MLFQ_dispatch_spec [OF b(1) E, of t, folded d] MLFQ_run_spec [OF ld, of t, folded s'] b(5) by simp
  with Suc.IH [OF i', of "t + 1"] tick show ?case by auto
qed simp

text \<open>
  C23: the levels are well formed at every moment of every run. No tick panics, a process in the
  list of level \<open>q\<close> has \<open>CurrentQueue = q\<close> and is ready, none has used more than the allotment of
  its level, the running slice is within the quantum of the level, and a boost is never overdue.
\<close>

theorem MLFQ_levels_well_formed:
  fixes ps boost n
  defines "r \<equiv> MLFQ_ticks n 0 (add_clones MLFQ_AddProcess ps (NewMLFQScheduler boost))"
  shows "\<exists>s. r = Some s \<and> length (m_Queues s) = 3 \<and> distinct (concat (m_Queues s)) \<and>
     list_all (\<lambda>q. list_all (\<lambda>i. i < length (s_allProcesses s) \<and> p_State (proc s i) = StateReady \<and>
        p_CurrentQueue (proc s i) = int q \<and>
        p_AllotmentUsed (proc s i) < c_Allotment (mlfq_configs ! q)) (m_Queues s ! q)) [0, 1, 2] \<and>
     (case s_running s of None \<Rightarrow> True | Some i \<Rightarrow>
        p_State (proc s i) = StateRunning \<and> p_CurrentQueue (proc s i) \<in> {0, 1, 2} \<and>
        p_AllotmentUsed (proc s i) \<le> c_Allotment (mlfq_configs ! nat (p_CurrentQueue (proc s i))) \<and>
        m_currentSlice s \<le> c_Quantum (mlfq_configs ! nat (p_CurrentQueue (proc s i)))) \<and>
     m_ticksSinceBoost s < m_BoostPeriod s"
proof -
  have "MLFQ_inv (add_clones MLFQ_AddProcess ps (NewMLFQScheduler boost))"
    by (rule mlfq.add_clones_law [THEN conjunct1]) (simp_all add: mlfq.new_law)
  from MLFQ_ticks_inv [OF this, of n 0] obtain s where s: "r = Some s" "MLFQ_inv s"
    unfolding r_def by blast
  then have l: "levels_ok s" "running_ok 1 0 s" "m_ticksSinceBoost s < m_BoostPeriod s"
    by (simp_all add: MLFQ_inv_def)
  note ok = levels_okD [OF l(1)]
  define W where "W = (\<lambda>q. list_all (\<lambda>i. i < length (s_allProcesses s) \<and>
      p_State (proc s i) = StateReady \<and> p_CurrentQueue (proc s i) = int q \<and>
      p_AllotmentUsed (proc s i) < c_Allotment (mlfq_configs ! q)) (m_Queues s ! q))"
  have "W q" if "q < 3" for q
    using levels_ready(2,3) [OF l(1) that] ok(7) [OF that]
    by (simp add: W_def list_all_iff allotment_of_def)
  then have L: "list_all W [0, 1, 2]" by simp
  have R: "case s_running s of None \<Rightarrow> True | Some i \<Rightarrow>
        p_State (proc s i) = StateRunning \<and> p_CurrentQueue (proc s i) \<in> {0, 1, 2} \<and>
        p_AllotmentUsed (proc s i) \<le> c_Allotment (mlfq_configs ! nat (p_CurrentQueue (proc s i))) \<and>
        m_currentSlice s \<le> c_Quantum (mlfq_configs ! nat (p_CurrentQueue (proc s i)))"
    using l(2) refs_okD(4) [OF ok(1)]
    by (auto simp: running_ok_def allotment_of_def quantum_of_def split: option.split)
  have "distinct (concat (m_Queues s))" using refs_ok_iff(1) [OF ok(1)] .
  with s(1) ok(4) L R l(3) show ?thesis unfolding W_def by blast
qed

text \<open>
  Rule 1 of the comment (\<open>If Priority(A) > Priority(B), A runs\<close>) is only enforced when the
  processor is free: a job of a lower level keeps it to the end of its quantum although a process
  of level 0 has arrived.
\<close>

definition MLFQ_arrival :: MLFQScheduler where
  "MLFQ_arrival = add_clones MLFQ_AddProcess
     [NewProcess 1 ''A'' 0 30, NewProcess 2 ''B'' 13 3] (NewMLFQScheduler 50)"

theorem MLFQ_rule1_not_preemptive:
  "\<exists>s. MLFQ_ticks 14 0 MLFQ_arrival = Some s \<and> s_running s = Some 0 \<and>
     p_CurrentQueue (proc s 0) = 2 \<and> m_Queues s ! 0 = [1]"
proof -
  have "map_option (\<lambda>s. (s_running s, p_CurrentQueue (proc s 0), m_Queues s ! 0))
      (MLFQ_ticks 14 0 MLFQ_arrival) = Some (Some 0, 2, [1])" by code_simp
  then show ?thesis by (auto simp: map_option_case split: option.splits)
qed

end
