(* ===== verification/GMP_Runtime.thy ===== *)
theory GMP_Runtime
  imports Go_Prelude "HOL-Library.Multiset"
begin

text \<open>
  \<open>pkg/cpu/gmp_runtime.go\<close>: the simulation of the scheduler of the Go runtime, with goroutines
  (G), operating system threads (M) and logical processors (P). Pointers are indices into
  \<open>AllGs\<close>, \<open>AllMs\<close> and \<open>AllPs\<close>. \<open>SpawnGoroutine\<close> and \<open>Step\<close> hold the mutex \<open>mu\<close> from their first
  to their last statement, so each is one atomic step. The random source is the parameter
  \<open>intn\<close> with an explicit generator state; its result is a natural number, as \<open>Intn\<close> documents.
  The events are kept as values instead of formatted strings.
\<close>

section \<open>The runtime\<close>

datatype GoroutineStatus = GIdle | GRunnable | GRunning | GSyscall | GWaiting | GDead

record Goroutine =
  g_GID :: int
  g_Name :: string
  g_Status :: GoroutineStatus
  g_StackSize :: int
  g_PC :: u64
  g_SP :: u64
  g_RemainingWork :: int
  g_AssignedM :: int
  g_AssignedP :: int
  g_IsSyscall :: bool
  g_SyscallTicks :: int

record OSThread =
  th_MID :: int
  th_OSStack :: int
  th_CurG :: "nat option"
  th_BoundP :: "nat option"
  th_IsBlocked :: bool

record LogicalProcessor =
  lp_PID :: int
  lp_LocalQueue :: "nat list"
  lp_RunNext :: "nat option"
  lp_BoundM :: "nat option"
  lp_TickCount :: int

datatype HandoffEvent = Handoff int int int int

datatype StealEvent = WorkSteal int int int int

record 'r GMPRuntime =
  rt_GOMAXPROCS :: int
  rt_GCount :: int
  rt_AllGs :: "Goroutine list"
  rt_AllMs :: "OSThread list"
  rt_AllPs :: "LogicalProcessor list"
  rt_GlobalRunQueue :: "nat list"
  rt_NetworkPoller :: "nat list"
  rt_CompletedGs :: "nat list"
  rt_WorkStealEvents :: "StealEvent list"
  rt_HandoffEvents :: "HandoffEvent list"
  rt_rng :: 'r

definition new_thread :: "nat \<Rightarrow> nat \<Rightarrow> OSThread" where
  "new_thread mid p = \<lparr>th_MID = int mid, th_OSStack = 8 * 1024 * 1024, th_CurG = None,
     th_BoundP = Some p, th_IsBlocked = False\<rparr>"

definition NewGMPRuntime :: "int \<Rightarrow> 'r \<Rightarrow> 'r GMPRuntime" where
  "NewGMPRuntime gomaxprocs rng =
     (let n = (if gomaxprocs \<le> 0 then 2 else gomaxprocs)
      in \<lparr>rt_GOMAXPROCS = n, rt_GCount = 0, rt_AllGs = [],
          rt_AllMs = map (\<lambda>i. new_thread i i) [0..<nat n],
          rt_AllPs = map (\<lambda>i. \<lparr>lp_PID = int i, lp_LocalQueue = [], lp_RunNext = None,
            lp_BoundM = Some i, lp_TickCount = 0\<rparr>) [0..<nat n],
          rt_GlobalRunQueue = [], rt_NetworkPoller = [], rt_CompletedGs = [],
          rt_WorkStealEvents = [], rt_HandoffEvents = [], rt_rng = rng\<rparr>)"

definition upd_g :: "nat \<Rightarrow> (Goroutine \<Rightarrow> Goroutine) \<Rightarrow> 'r GMPRuntime \<Rightarrow> 'r GMPRuntime" where
  "upd_g i f rt = rt\<lparr>rt_AllGs := (rt_AllGs rt)[i := f (rt_AllGs rt ! i)]\<rparr>"

definition upd_m :: "nat \<Rightarrow> (OSThread \<Rightarrow> OSThread) \<Rightarrow> 'r GMPRuntime \<Rightarrow> 'r GMPRuntime" where
  "upd_m i f rt = rt\<lparr>rt_AllMs := (rt_AllMs rt)[i := f (rt_AllMs rt ! i)]\<rparr>"

definition upd_p :: "nat \<Rightarrow> (LogicalProcessor \<Rightarrow> LogicalProcessor) \<Rightarrow> 'r GMPRuntime \<Rightarrow> 'r GMPRuntime"
  where "upd_p i f rt = rt\<lparr>rt_AllPs := (rt_AllPs rt)[i := f (rt_AllPs rt ! i)]\<rparr>"

definition SpawnGoroutine :: "'r GMPRuntime \<Rightarrow> string \<Rightarrow> int \<Rightarrow> bool \<Rightarrow> 'r GMPRuntime" where
  "SpawnGoroutine rt name workUnits isSyscall =
     (let rt1 = rt\<lparr>rt_GCount := rt_GCount rt + 1\<rparr>;
          g = \<lparr>g_GID = rt_GCount rt1, g_Name = name, g_Status = GRunnable, g_StackSize = 2048,
               g_PC = 0, g_SP = 0, g_RemainingWork = workUnits, g_AssignedM = -1, g_AssignedP = -1,
               g_IsSyscall = isSyscall, g_SyscallTicks = 0\<rparr>;
          k = length (rt_AllGs rt1);
          rt2 = rt1\<lparr>rt_AllGs := rt_AllGs rt1 @ [g]\<rparr>;
          p = nat (rt_GCount rt2 mod int (length (rt_AllPs rt2)))
      in if length (lp_LocalQueue (rt_AllPs rt2 ! p)) < 256
         then upd_p p (\<lambda>q. q\<lparr>lp_LocalQueue := lp_LocalQueue q @ [k]\<rparr>) rt2
         else rt2\<lparr>rt_GlobalRunQueue := rt_GlobalRunQueue rt2 @ [k]\<rparr>)"

section \<open>Finding work\<close>

fun acquire_loop :: "nat \<Rightarrow> OSThread list \<Rightarrow> nat option" where
  "acquire_loop k [] = None"
| "acquire_loop k (m # ms) =
     (if \<not> th_IsBlocked m \<and> th_BoundP m = None then Some k else acquire_loop (Suc k) ms)"

definition acquireM :: "'r GMPRuntime \<Rightarrow> nat option" where
  "acquireM rt = acquire_loop 0 (rt_AllMs rt)"

definition steal_from :: "int \<Rightarrow> nat \<Rightarrow> nat \<Rightarrow> 'r GMPRuntime \<Rightarrow> nat \<times> 'r GMPRuntime" where
  "steal_from tick p v rt =
     (let q = lp_LocalQueue (rt_AllPs rt ! v);
          stealCount = (length q + 1) div 2;
          stolen = drop (length q - stealCount) q;
          rt1 = upd_p v (\<lambda>x. x\<lparr>lp_LocalQueue := take (length q - stealCount) q\<rparr>) rt;
          rt2 = rt1\<lparr>rt_WorkStealEvents := rt_WorkStealEvents rt1 @
                  [WorkSteal tick (lp_PID (rt_AllPs rt1 ! p)) (int (length stolen))
                     (lp_PID (rt_AllPs rt1 ! v))]\<rparr>
      in (hd stolen, upd_p p (\<lambda>x. x\<lparr>lp_LocalQueue := lp_LocalQueue x @ tl stolen\<rparr>) rt2))"

fun steal_loop :: "int \<Rightarrow> nat \<Rightarrow> nat \<Rightarrow> nat list \<Rightarrow> 'r GMPRuntime \<Rightarrow> nat option \<times> 'r GMPRuntime" where
  "steal_loop tick p startIdx [] rt = (None, rt)"
| "steal_loop tick p startIdx (i # is) rt =
     (let v = (startIdx + i) mod length (rt_AllPs rt)
      in if lp_PID (rt_AllPs rt ! v) \<noteq> lp_PID (rt_AllPs rt ! p) \<and>
            0 < length (lp_LocalQueue (rt_AllPs rt ! v))
         then (case steal_from tick p v rt of (g, rt') \<Rightarrow> (Some g, rt'))
         else steal_loop tick p startIdx is rt)"

definition findRunnableG ::
  "(nat \<Rightarrow> 'r \<Rightarrow> nat \<times> 'r) \<Rightarrow> nat \<Rightarrow> int \<Rightarrow> 'r GMPRuntime \<Rightarrow> nat option \<times> 'r GMPRuntime" where
  "findRunnableG intn p tick rt =
     (let P = rt_AllPs rt ! p; G = rt_GlobalRunQueue rt; n = length (rt_AllPs rt)
      in if lp_TickCount P mod 61 = 0 \<and> 0 < length G
         then (Some (hd G), rt\<lparr>rt_GlobalRunQueue := tl G\<rparr>)
         else case lp_RunNext P of
           Some g \<Rightarrow> (Some g, upd_p p (\<lambda>x. x\<lparr>lp_RunNext := None\<rparr>) rt)
         | None \<Rightarrow>
             if 0 < length (lp_LocalQueue P)
             then (Some (hd (lp_LocalQueue P)),
                   upd_p p (\<lambda>x. x\<lparr>lp_LocalQueue := tl (lp_LocalQueue x)\<rparr>) rt)
             else if 0 < length G then (Some (hd G), rt\<lparr>rt_GlobalRunQueue := tl G\<rparr>)
             else if 1 < n
             then (case intn n (rt_rng rt) of (startIdx, r) \<Rightarrow>
                     steal_loop tick p startIdx [0..<n] (rt\<lparr>rt_rng := r\<rparr>))
             else (None, rt))"

section \<open>A step\<close>

definition bindM :: "nat \<Rightarrow> 'r GMPRuntime \<Rightarrow> nat option \<times> 'r GMPRuntime" where
  "bindM p rt =
     (case lp_BoundM (rt_AllPs rt ! p) of
        Some m \<Rightarrow> (Some m, rt)
      | None \<Rightarrow>
          let m = acquireM rt; rt1 = upd_p p (\<lambda>x. x\<lparr>lp_BoundM := m\<rparr>) rt
          in (m, case m of Some k \<Rightarrow> upd_m k (\<lambda>x. x\<lparr>th_BoundP := Some p\<rparr>) rt1 | None \<Rightarrow> rt1))"

definition enter_syscall :: "int \<Rightarrow> nat \<Rightarrow> nat \<Rightarrow> nat \<Rightarrow> 'r GMPRuntime \<Rightarrow> 'r GMPRuntime" where
  "enter_syscall tick p m g rt =
     (let rt1 = upd_m m (\<lambda>x. x\<lparr>th_IsBlocked := True\<rparr>) (upd_g g (\<lambda>x. x\<lparr>g_Status := GSyscall\<rparr>) rt);
          rt2 = rt1\<lparr>rt_HandoffEvents := rt_HandoffEvents rt1 @
                  [Handoff tick (g_GID (rt_AllGs rt1 ! g)) (th_MID (rt_AllMs rt1 ! m))
                     (lp_PID (rt_AllPs rt1 ! p))]\<rparr>;
          rt3 = upd_m m (\<lambda>x. x\<lparr>th_BoundP := None\<rparr>) (upd_p p (\<lambda>x. x\<lparr>lp_BoundM := None\<rparr>) rt2);
          k = length (rt_AllMs rt3);
          rt4 = rt3\<lparr>rt_AllMs := rt_AllMs rt3 @ [new_thread k p]\<rparr>
      in upd_p p (\<lambda>x. x\<lparr>lp_BoundM := Some k\<rparr>) rt4)"

definition execute :: "nat \<Rightarrow> nat \<Rightarrow> 'r GMPRuntime \<Rightarrow> 'r GMPRuntime" where
  "execute m g rt =
     (if g_Status (rt_AllGs rt ! g) = GRunning
      then let rt1 = upd_g g (\<lambda>x. x\<lparr>g_RemainingWork := g_RemainingWork x - 1\<rparr>) rt
           in if g_RemainingWork (rt_AllGs rt1 ! g) \<le> 0
              then let rt2 = upd_g g (\<lambda>x. x\<lparr>g_Status := GDead\<rparr>) rt1
                   in upd_m m (\<lambda>x. x\<lparr>th_CurG := None\<rparr>)
                        (rt2\<lparr>rt_CompletedGs := rt_CompletedGs rt2 @ [g]\<rparr>)
              else rt1
      else rt)"

definition find_work ::
  "(nat \<Rightarrow> 'r \<Rightarrow> nat \<times> 'r) \<Rightarrow> int \<Rightarrow> nat \<Rightarrow> 'r GMPRuntime \<Rightarrow> 'r GMPRuntime" where
  "find_work intn tick p rt =
     (case lp_BoundM (rt_AllPs rt ! p) of
        None \<Rightarrow> rt
      | Some m \<Rightarrow>
          if th_CurG (rt_AllMs rt ! m) = None
          then (case findRunnableG intn p tick rt of
                  (None, rt1) \<Rightarrow> rt1
                | (Some g, rt1) \<Rightarrow>
                    upd_m m (\<lambda>x. x\<lparr>th_CurG := Some g\<rparr>)
                      (upd_g g (\<lambda>x. x\<lparr>g_Status := GRunning, g_AssignedM := th_MID (rt_AllMs rt1 ! m),
                         g_AssignedP := lp_PID (rt_AllPs rt1 ! p)\<rparr>) rt1))
          else rt)"

definition step_P ::
  "(nat \<Rightarrow> 'r \<Rightarrow> nat \<times> 'r) \<Rightarrow> int \<Rightarrow> nat \<Rightarrow> 'r GMPRuntime \<Rightarrow> 'r GMPRuntime" where
  "step_P intn tick p rt =
     (case bindM p (upd_p p (\<lambda>x. x\<lparr>lp_TickCount := lp_TickCount x + 1\<rparr>) rt) of
        (None, rt1) \<Rightarrow> find_work intn tick p rt1
      | (Some m, rt1) \<Rightarrow>
          (case th_CurG (rt_AllMs rt1 ! m) of
             None \<Rightarrow> find_work intn tick p rt1
           | Some g \<Rightarrow>
               let G = rt_AllGs rt1 ! g
               in if g_IsSyscall G \<and> g_Status G = GRunning \<and> g_SyscallTicks G = 0
                  then enter_syscall tick p m g rt1
                  else find_work intn tick p (execute m g rt1)))"

fun run_Ps ::
  "(nat \<Rightarrow> 'r \<Rightarrow> nat \<times> 'r) \<Rightarrow> int \<Rightarrow> nat list \<Rightarrow> 'r GMPRuntime \<Rightarrow> 'r GMPRuntime" where
  "run_Ps intn tick [] rt = rt"
| "run_Ps intn tick (p # ps) rt = run_Ps intn tick ps (step_P intn tick p rt)"

definition wake_M :: "nat \<Rightarrow> 'r GMPRuntime \<Rightarrow> 'r GMPRuntime" where
  "wake_M m rt =
     (case th_CurG (rt_AllMs rt ! m) of
        Some g \<Rightarrow>
          if th_IsBlocked (rt_AllMs rt ! m)
          then let rt1 = upd_g g (\<lambda>x. x\<lparr>g_SyscallTicks := g_SyscallTicks x + 1\<rparr>) rt
               in if g_SyscallTicks (rt_AllGs rt1 ! g) \<ge> 3
                  then let rt2 = upd_g g (\<lambda>x. x\<lparr>g_Status := GRunnable, g_IsSyscall := False\<rparr>)
                                   (upd_m m (\<lambda>x. x\<lparr>th_IsBlocked := False\<rparr>) rt1);
                           rt3 = rt2\<lparr>rt_GlobalRunQueue := rt_GlobalRunQueue rt2 @ [g]\<rparr>
                       in upd_m m (\<lambda>x. x\<lparr>th_CurG := None\<rparr>) rt3
                  else rt1
          else rt
      | None \<Rightarrow> rt)"

fun wake_Ms :: "nat list \<Rightarrow> 'r GMPRuntime \<Rightarrow> 'r GMPRuntime" where
  "wake_Ms [] rt = rt"
| "wake_Ms (m # ms) rt = wake_Ms ms (wake_M m rt)"

definition GMP_Step :: "(nat \<Rightarrow> 'r \<Rightarrow> nat \<times> 'r) \<Rightarrow> 'r GMPRuntime \<Rightarrow> int \<Rightarrow> 'r GMPRuntime" where
  "GMP_Step intn rt tick =
     (let rt1 = run_Ps intn tick [0..<length (rt_AllPs rt)] rt
      in wake_Ms [0..<length (rt_AllMs rt1)] rt1)"

text \<open>Any use of the runtime: goroutines are spawned and steps are made in any order.\<close>

datatype gmp_op = Spawn string int bool | Tick int

fun gmp_run :: "(nat \<Rightarrow> 'r \<Rightarrow> nat \<times> 'r) \<Rightarrow> 'r GMPRuntime \<Rightarrow> gmp_op list \<Rightarrow> 'r GMPRuntime" where
  "gmp_run intn rt [] = rt"
| "gmp_run intn rt (Spawn name w sys # ops) = gmp_run intn (SpawnGoroutine rt name w sys) ops"
| "gmp_run intn rt (Tick t # ops) = gmp_run intn (GMP_Step intn rt t) ops"

section \<open>Where the goroutines are\<close>

definition curs :: "OSThread list \<Rightarrow> nat list" where
  "curs Ms = concat (map (\<lambda>m. case th_CurG m of Some g \<Rightarrow> [g] | None \<Rightarrow> []) Ms)"

definition queued :: "'r GMPRuntime \<Rightarrow> nat list" where
  "queued rt = concat (map lp_LocalQueue (rt_AllPs rt)) @ rt_GlobalRunQueue rt"

text \<open>The states of a goroutine in a queue, on a thread that runs and on one that is blocked.\<close>

definition g_waits :: "Goroutine \<Rightarrow> bool" where
  "g_waits g \<longleftrightarrow> g_Status g = GRunnable \<and> (g_IsSyscall g \<longrightarrow> g_SyscallTicks g = 0)"

definition g_runs :: "Goroutine \<Rightarrow> bool" where
  "g_runs g \<longleftrightarrow> g_Status g = GRunning \<and> (g_IsSyscall g \<longrightarrow> g_SyscallTicks g = 0)"

definition g_blocked :: "Goroutine \<Rightarrow> bool" where
  "g_blocked g \<longleftrightarrow> g_Status g = GSyscall \<and> g_IsSyscall g \<and> 0 \<le> g_SyscallTicks g \<and> g_SyscallTicks g < 3"

definition cur_ok :: "Goroutine list \<Rightarrow> OSThread \<Rightarrow> bool" where
  "cur_ok Gs m \<longleftrightarrow> (case th_CurG m of
     None \<Rightarrow> \<not> th_IsBlocked m
   | Some g \<Rightarrow> if th_IsBlocked m then g_blocked (Gs ! g) else g_runs (Gs ! g) \<and> th_BoundP m \<noteq> None)"

definition place_ok :: "Goroutine list \<Rightarrow> OSThread list \<Rightarrow> nat multiset \<Rightarrow> nat list \<Rightarrow> bool" where
  "place_ok Gs Ms Q D \<longleftrightarrow> Q + mset (curs Ms) + mset D = mset [0..<length Gs] \<and>
     (\<forall>g\<in>#Q. g_waits (Gs ! g)) \<and> (\<forall>g\<in>set D. g_Status (Gs ! g) = GDead) \<and>
     (\<forall>m<length Ms. cur_ok Gs (Ms ! m))"

text \<open>Processors and threads point at each other.\<close>

definition bind_ok :: "'r GMPRuntime \<Rightarrow> bool" where
  "bind_ok rt \<longleftrightarrow> rt_AllPs rt \<noteq> [] \<and>
     (\<forall>p<length (rt_AllPs rt). lp_PID (rt_AllPs rt ! p) = int p \<and> lp_RunNext (rt_AllPs rt ! p) = None \<and>
        (\<exists>m<length (rt_AllMs rt). lp_BoundM (rt_AllPs rt ! p) = Some m \<and>
           th_BoundP (rt_AllMs rt ! m) = Some p \<and> \<not> th_IsBlocked (rt_AllMs rt ! m))) \<and>
     (\<forall>m<length (rt_AllMs rt). \<forall>p. th_BoundP (rt_AllMs rt ! m) = Some p \<longrightarrow>
        p < length (rt_AllPs rt) \<and> lp_BoundM (rt_AllPs rt ! p) = Some m)"

definition GMP_inv :: "'r GMPRuntime \<Rightarrow> bool" where
  "GMP_inv rt \<longleftrightarrow> bind_ok rt \<and>
     place_ok (rt_AllGs rt) (rt_AllMs rt) (mset (queued rt)) (rt_CompletedGs rt)"

lemma mset_concat_map_update:
  "i < length xs \<Longrightarrow>
     mset (concat (map f (xs[i := y]))) + mset (f (xs ! i)) = mset (concat (map f xs)) + mset (f y)"
  by (induction xs arbitrary: i) (auto split: nat.split simp: ac_simps)

lemma curs_update:
  assumes "m < length Ms"
  shows "mset (curs (Ms[m := x])) + mset (case th_CurG (Ms ! m) of Some g \<Rightarrow> [g] | None \<Rightarrow> []) =
     mset (curs Ms) + mset (case th_CurG x of Some g \<Rightarrow> [g] | None \<Rightarrow> [])"
  unfolding curs_def by (rule mset_concat_map_update [OF assms])

lemma curs_update_same:
  assumes "m < length Ms" and "th_CurG x = th_CurG (Ms ! m)"
  shows "mset (curs (Ms[m := x])) = mset (curs Ms)"
  using curs_update [OF assms(1), of x] assms(2) by simp

lemma curs_append [simp]: "curs (Ms @ [x]) = curs Ms @ (case th_CurG x of Some g \<Rightarrow> [g] | None \<Rightarrow> [])"
  by (simp add: curs_def)

lemma in_curs: "m < length Ms \<Longrightarrow> th_CurG (Ms ! m) = Some g \<Longrightarrow> g \<in> set (curs Ms)"
  unfolding curs_def by (auto intro!: bexI [of _ "Ms ! m"])

lemma in_curs_iff: "g \<in> set (curs Ms) \<longleftrightarrow> (\<exists>m<length Ms. th_CurG (Ms ! m) = Some g)"
  unfolding curs_def by (force simp: in_set_conv_nth split: option.splits)

text \<open>Every goroutine is in one place only.\<close>

lemma place_distinct:
  assumes "place_ok Gs Ms Q D"
  shows "g \<in># Q + mset (curs Ms) + mset D \<longleftrightarrow> g < length Gs"
    and "count Q g + count (mset (curs Ms)) g + count (mset D) g \<le> 1"
proof -
  have eq: "Q + mset (curs Ms) + mset D = mset [0..<length Gs]" using assms by (simp add: place_ok_def)
  show "g \<in># Q + mset (curs Ms) + mset D \<longleftrightarrow> g < length Gs" unfolding eq by simp
  have "count (Q + mset (curs Ms) + mset D) g \<le> 1"
    unfolding eq using distinct_count_atmost_1 [of "[0..<length Gs]"] by simp
  then show "count Q g + count (mset (curs Ms)) g + count (mset D) g \<le> 1" by simp
qed

lemma curs_unique:
  assumes "m < length Ms" and "k < length Ms" and "m \<noteq> k"
    and "th_CurG (Ms ! m) = Some g" and "th_CurG (Ms ! k) = Some g"
  shows "2 \<le> count (mset (curs Ms)) g"
proof -
  let ?Ms = "Ms[m := (Ms ! m)\<lparr>th_CurG := None\<rparr>]"
  have "mset (curs ?Ms) + {#g#} = mset (curs Ms)"
    using curs_update [OF assms(1), of "(Ms ! m)\<lparr>th_CurG := None\<rparr>"] assms(4) by simp
  moreover have "g \<in> set (curs ?Ms)"
    using in_curs [of k ?Ms g] assms(2,3,5) by simp
  then have "0 < count (mset (curs ?Ms)) g" by (simp add: count_mset_gt_0)
  ultimately have "count (mset (curs Ms)) g = count (mset (curs ?Ms)) g + 1"
    by (metis count_union count_single)
  then show ?thesis using \<open>0 < count (mset (curs ?Ms)) g\<close> by simp
qed

lemma place_cur:
  assumes "place_ok Gs Ms Q D" and "m < length Ms" and "th_CurG (Ms ! m) = Some g"
  shows "g < length Gs" and "g \<notin># Q" and "g \<notin> set D"
    and "k < length Ms \<Longrightarrow> k \<noteq> m \<Longrightarrow> th_CurG (Ms ! k) \<noteq> Some g"
proof -
  have g: "g \<in> set (curs Ms)" by (rule in_curs [OF assms(2,3)])
  then have c: "0 < count (mset (curs Ms)) g" by (simp add: count_mset_gt_0)
  note d = place_distinct [OF assms(1), of g]
  show "g < length Gs" using d(1) g by simp
  have "count Q g = 0" "count (mset D) g = 0" using d(2) c by linarith+
  then show "g \<notin># Q" "g \<notin> set D" by (metis count_eq_zero_iff set_mset_mset)+
  show "k < length Ms \<Longrightarrow> k \<noteq> m \<Longrightarrow> th_CurG (Ms ! k) \<noteq> Some g"
    using curs_unique [OF assms(2) _ _ assms(3), of k] d(2) by fastforce
qed

lemma cur_ok_other:
  "th_CurG m \<noteq> Some g \<Longrightarrow> cur_ok (Gs[g := x]) m = cur_ok Gs m"
  unfolding cur_ok_def by (cases "th_CurG m") auto

text \<open>The moves: a queued goroutine is put on a thread.\<close>

lemma place_assign:
  assumes "place_ok Gs Ms (add_mset g Q) D" and "m < length Ms" and "th_CurG (Ms ! m) = None"
    and "\<not> th_IsBlocked (Ms ! m)" and "th_BoundP (Ms ! m) \<noteq> None" and "g_runs x"
  shows "place_ok (Gs[g := x]) (Ms[m := (Ms ! m)\<lparr>th_CurG := Some g\<rparr>]) Q D"
proof -
  let ?Ms = "Ms[m := (Ms ! m)\<lparr>th_CurG := Some g\<rparr>]"
  note d = place_distinct [OF assms(1), of g]
  have g: "g < length Gs" using d(1) by simp
  have "count Q g = 0" "count (mset (curs Ms)) g = 0" "count (mset D) g = 0" using d(2) by auto
  then have n: "g \<notin># Q" "g \<notin> set (curs Ms)" "g \<notin> set D"
    by (metis count_eq_zero_iff set_mset_mset)+
  have "mset (curs ?Ms) = mset (curs Ms) + {#g#}"
    using curs_update [OF assms(2), of "(Ms ! m)\<lparr>th_CurG := Some g\<rparr>"] assms(3) by simp
  then have "Q + mset (curs ?Ms) + mset D = mset [0..<length Gs]"
    using assms(1) by (simp add: place_ok_def)
  moreover have "cur_ok (Gs[g := x]) (?Ms ! k)" if "k < length Ms" for k
  proof (cases "k = m")
    case True
    then show ?thesis using g assms(2,4,5,6) by (simp add: cur_ok_def)
  next
    case False
    moreover have "th_CurG (Ms ! k) \<noteq> Some g" using n(2) in_curs [OF that] by auto
    ultimately show ?thesis using assms(1) that by (simp add: cur_ok_other place_ok_def)
  qed
  moreover have "g_waits (Gs[g := x] ! i)" if "i \<in># Q" for i
    using assms(1) that n(1) by (cases "i = g") (auto simp: place_ok_def)
  moreover have "g_Status (Gs[g := x] ! i) = GDead" if "i \<in> set D" for i
    using assms(1) that n(3) by (cases "i = g") (auto simp: place_ok_def)
  ultimately show ?thesis by (simp add: place_ok_def)
qed

text \<open>The goroutine on a thread changes its state and stays, or leaves for \<open>Q\<close> or \<open>D\<close>.\<close>

lemma place_change:
  assumes "place_ok Gs Ms Q D" and "m < length Ms" and "th_CurG (Ms ! m) = Some g"
    and "cur_ok (Gs[g := x]) y" and "th_CurG y \<noteq> None \<Longrightarrow> th_CurG y = Some g"
    and "Q' + mset (curs (Ms[m := y])) + mset D' = mset [0..<length Gs]"
    and "\<And>i. i \<in># Q' \<Longrightarrow> i \<in># Q \<or> i = g \<and> g_waits x"
    and "\<And>i. i \<in> set D' \<Longrightarrow> i \<in> set D \<or> i = g \<and> g_Status x = GDead"
  shows "place_ok (Gs[g := x]) (Ms[m := y]) Q' D'"
proof -
  note c = place_cur [OF assms(1-3)]
  have "cur_ok (Gs[g := x]) (Ms[m := y] ! k)" if "k < length Ms" for k
  proof (cases "k = m")
    case True
    then show ?thesis using assms(2,4) by simp
  next
    case False
    then show ?thesis using assms(1) that c(4) [OF that] by (simp add: cur_ok_other place_ok_def)
  qed
  moreover have "g_waits (Gs[g := x] ! i)" if "i \<in># Q'" for i
    using assms(1) assms(7) [OF that] c(1,2) by (cases "i = g") (auto simp: place_ok_def)
  moreover have "g_Status (Gs[g := x] ! i) = GDead" if "i \<in> set D'" for i
    using assms(1) assms(8) [OF that] c(1,3) by (cases "i = g") (auto simp: place_ok_def)
  ultimately show ?thesis using assms(6) by (simp add: place_ok_def)
qed

lemma place_stay:
  assumes "place_ok Gs Ms Q D" and "m < length Ms" and "th_CurG (Ms ! m) = Some g"
    and "cur_ok (Gs[g := x]) y" and "th_CurG y = Some g"
  shows "place_ok (Gs[g := x]) (Ms[m := y]) Q D"
proof (rule place_change [OF assms(1-4)])
  have "mset (curs (Ms[m := y])) = mset (curs Ms)"
    by (rule curs_update_same [OF assms(2)]) (simp add: assms(3,5))
  then show "Q + mset (curs (Ms[m := y])) + mset D = mset [0..<length Gs]"
    using assms(1) by (simp add: place_ok_def)
qed (simp_all add: assms(5))

lemma place_leave:
  assumes "place_ok Gs Ms Q D" and "m < length Ms" and "th_CurG (Ms ! m) = Some g"
    and "th_CurG y = None" and "\<not> th_IsBlocked y"
  shows "g_Status x = GDead \<Longrightarrow> place_ok (Gs[g := x]) (Ms[m := y]) Q (D @ [g])"
    and "g_waits x \<Longrightarrow> place_ok (Gs[g := x]) (Ms[m := y]) (add_mset g Q) D"
proof -
  have "mset (curs (Ms[m := y])) + {#g#} = mset (curs Ms)"
    using curs_update [OF assms(2), of y] assms(3,4) by simp
  then have eq: "Q + (mset (curs (Ms[m := y])) + {#g#}) + mset D = mset [0..<length Gs]"
    using assms(1) by (simp add: place_ok_def)
  have ok: "cur_ok (Gs[g := x]) y" using assms(4,5) by (simp add: cur_ok_def)
  show "g_Status x = GDead \<Longrightarrow> place_ok (Gs[g := x]) (Ms[m := y]) Q (D @ [g])"
    by (rule place_change [OF assms(1-3) ok]) (use assms(4) eq in \<open>auto simp: ac_simps\<close>)
  show "g_waits x \<Longrightarrow> place_ok (Gs[g := x]) (Ms[m := y]) (add_mset g Q) D"
    by (rule place_change [OF assms(1-3) ok]) (use assms(4) eq in \<open>auto simp: ac_simps\<close>)
qed

section \<open>Work that is left\<close>

text \<open>How many steps of the runtime a goroutine still needs, counted from its state.\<close>

definition g_rank :: "Goroutine \<Rightarrow> nat" where
  "g_rank g = (case g_Status g of
     GDead \<Rightarrow> 0
   | GRunning \<Rightarrow> nat (max 1 (g_RemainingWork g)) + (if g_IsSyscall g then 5 else 0)
   | GSyscall \<Rightarrow> nat (max 1 (g_RemainingWork g)) + 1 + nat (3 - g_SyscallTicks g)
   | _ \<Rightarrow> nat (max 1 (g_RemainingWork g)) + 1 + (if g_IsSyscall g then 5 else 0))"

definition g_work :: "'r GMPRuntime \<Rightarrow> nat" where
  "g_work rt = sum_list (map g_rank (rt_AllGs rt))"

lemma g_rank_0: "g_rank g = 0 \<longleftrightarrow> g_Status g = GDead"
  by (cases "g_Status g") (auto simp: g_rank_def)

lemma sum_list_update_rank:
  "i < length (gs::Goroutine list) \<Longrightarrow>
     sum_list (map g_rank (gs[i := x])) + g_rank (gs ! i) = sum_list (map g_rank gs) + g_rank x"
  by (induction gs arbitrary: i) (auto split: nat.split)

lemma rank_less:
  "i < length (gs::Goroutine list) \<Longrightarrow> g_rank x < g_rank (gs ! i) \<Longrightarrow>
     sum_list (map g_rank (gs[i := x])) < sum_list (map g_rank gs)"
  using sum_list_update_rank [of i gs x] by linarith

lemma g_work_0: "g_work rt = 0 \<longleftrightarrow> (\<forall>x\<in>set (rt_AllGs rt). g_Status x = GDead)"
  unfolding g_work_def sum_list_eq_0_iff by (simp add: g_rank_0)

text \<open>What one processor may change of the others.\<close>

definition keeps :: "nat \<Rightarrow> 'r GMPRuntime \<Rightarrow> 'r GMPRuntime \<Rightarrow> bool" where
  "keeps p rt rt' \<longleftrightarrow> length (rt_AllPs rt') = length (rt_AllPs rt) \<and>
     length (rt_AllMs rt) \<le> length (rt_AllMs rt') \<and>
     (\<forall>j<length (rt_AllPs rt). j \<noteq> p \<longrightarrow> lp_BoundM (rt_AllPs rt' ! j) = lp_BoundM (rt_AllPs rt ! j)) \<and>
     (\<forall>m<length (rt_AllMs rt). lp_BoundM (rt_AllPs rt ! p) \<noteq> Some m \<longrightarrow> rt_AllMs rt' ! m = rt_AllMs rt ! m)"

text \<open>Changes of the queues only.\<close>

definition same_but_queues :: "'r GMPRuntime \<Rightarrow> 'r GMPRuntime \<Rightarrow> bool" where
  "same_but_queues rt rt' \<longleftrightarrow> rt_AllGs rt' = rt_AllGs rt \<and> rt_AllMs rt' = rt_AllMs rt \<and>
     rt_CompletedGs rt' = rt_CompletedGs rt \<and> length (rt_AllPs rt') = length (rt_AllPs rt) \<and>
     (\<forall>p<length (rt_AllPs rt). lp_PID (rt_AllPs rt' ! p) = lp_PID (rt_AllPs rt ! p) \<and>
        lp_RunNext (rt_AllPs rt' ! p) = lp_RunNext (rt_AllPs rt ! p) \<and>
        lp_BoundM (rt_AllPs rt' ! p) = lp_BoundM (rt_AllPs rt ! p))"

lemma nth_update: "j < length xs \<Longrightarrow> xs[i := x] ! j = (if i = j then x else xs ! j)"
  by (cases "i = j") simp_all

lemma same_but_queues_trans:
  "same_but_queues a b \<Longrightarrow> same_but_queues b c \<Longrightarrow> same_but_queues a c"
  by (simp add: same_but_queues_def)

lemma same_but_queues_upd_p:
  assumes "\<And>x. lp_PID (f x) = lp_PID x" and "\<And>x. lp_RunNext (f x) = lp_RunNext x"
    and "\<And>x. lp_BoundM (f x) = lp_BoundM x"
  shows "same_but_queues rt (upd_p p f rt)"
  using assms by (auto simp: same_but_queues_def upd_p_def nth_update)

lemma same_but_queues_bind: "same_but_queues rt rt' \<Longrightarrow> bind_ok rt \<Longrightarrow> bind_ok rt'"
  unfolding bind_ok_def same_but_queues_def by auto

lemma queued_upd_p:
  assumes "p < length (rt_AllPs rt)"
  shows "mset (queued (upd_p p f rt)) + mset (lp_LocalQueue (rt_AllPs rt ! p)) =
     mset (queued rt) + mset (lp_LocalQueue (f (rt_AllPs rt ! p)))"
  using mset_concat_map_update [OF assms, of lp_LocalQueue "f (rt_AllPs rt ! p)"]
  by (simp add: queued_def upd_p_def ac_simps)

lemma upd_p_fields [simp]:
  "rt_AllGs (upd_p p f rt) = rt_AllGs rt" "rt_AllMs (upd_p p f rt) = rt_AllMs rt"
  "rt_CompletedGs (upd_p p f rt) = rt_CompletedGs rt" "rt_GlobalRunQueue (upd_p p f rt) = rt_GlobalRunQueue rt"
  "length (rt_AllPs (upd_p p f rt)) = length (rt_AllPs rt)"
  "rt_AllPs (upd_p p f rt) = (rt_AllPs rt)[p := f (rt_AllPs rt ! p)]"
  by (simp_all add: upd_p_def)

section \<open>Finding a goroutine\<close>

lemma steal_from_spec:
  assumes "p < length (rt_AllPs rt)" and "v < length (rt_AllPs rt)" and "v \<noteq> p"
    and "lp_LocalQueue (rt_AllPs rt ! v) \<noteq> []"
  shows "\<exists>g rt'. steal_from tick p v rt = (g, rt') \<and> same_but_queues rt rt' \<and>
     mset (queued rt) = add_mset g (mset (queued rt'))"
proof -
  define q where "q = lp_LocalQueue (rt_AllPs rt ! v)"
  define k where "k = length q - (length q + 1) div 2"
  define rt1 where "rt1 = upd_p v (\<lambda>x. x\<lparr>lp_LocalQueue := take k q\<rparr>) rt"
  define rt2 where "rt2 = rt1\<lparr>rt_WorkStealEvents := rt_WorkStealEvents rt1 @
      [WorkSteal tick (lp_PID (rt_AllPs rt1 ! p)) (int (length (drop k q))) (lp_PID (rt_AllPs rt1 ! v))]\<rparr>"
  define rt3 where "rt3 = upd_p p (\<lambda>x. x\<lparr>lp_LocalQueue := lp_LocalQueue x @ tl (drop k q)\<rparr>) rt2"
  have "q \<noteq> []" using assms(4) by (simp add: q_def)
  then have "k < length q" unfolding k_def by (cases q) simp_all
  then have st: "drop k q = hd (drop k q) # tl (drop k q)" by simp
  have "mset (queued rt1) + mset q = mset (queued rt) + mset (take k q)"
    using queued_upd_p [OF assms(2), of "\<lambda>x. x\<lparr>lp_LocalQueue := take k q\<rparr>"] by (simp add: rt1_def q_def)
  moreover have "mset q = mset (take k q) + mset (drop k q)" by (metis append_take_drop_id mset_append)
  ultimately have q1: "mset (queued rt) = mset (queued rt1) + mset (drop k q)" by simp
  have "queued rt2 = queued rt1" by (simp add: rt2_def queued_def)
  moreover have "mset (queued rt3) = mset (queued rt2) + mset (tl (drop k q))"
    using queued_upd_p [of p rt2 "\<lambda>x. x\<lparr>lp_LocalQueue := lp_LocalQueue x @ tl (drop k q)\<rparr>"] assms(1)
    by (simp add: rt3_def rt2_def rt1_def ac_simps)
  ultimately have "mset (queued rt) = add_mset (hd (drop k q)) (mset (queued rt3))"
    using q1 st by (metis add.commute mset.simps(2) union_mset_add_mset_right)
  moreover have "same_but_queues rt rt3"
  proof -
    have "same_but_queues rt rt1" unfolding rt1_def by (rule same_but_queues_upd_p) simp_all
    moreover have "same_but_queues rt1 rt2" by (simp add: same_but_queues_def rt2_def)
    moreover have "same_but_queues rt2 rt3" unfolding rt3_def by (rule same_but_queues_upd_p) simp_all
    ultimately show ?thesis using same_but_queues_trans by blast
  qed
  moreover have "steal_from tick p v rt = (hd (drop k q), rt3)"
    by (simp add: steal_from_def Let_def rt3_def rt2_def rt1_def k_def q_def)
  ultimately show ?thesis by blast
qed

lemma steal_loop_spec:
  assumes "p < length (rt_AllPs rt)" and "\<forall>j<length (rt_AllPs rt). lp_PID (rt_AllPs rt ! j) = int j"
  shows "(\<exists>g rt'. steal_loop tick p st is rt = (Some g, rt') \<and> same_but_queues rt rt' \<and>
       mset (queued rt) = add_mset g (mset (queued rt'))) \<or>
     steal_loop tick p st is rt = (None, rt) \<and>
       (\<forall>i\<in>set is. (st + i) mod length (rt_AllPs rt) = p \<or>
          lp_LocalQueue (rt_AllPs rt ! ((st + i) mod length (rt_AllPs rt))) = [])"
proof (induction "is")
  case (Cons i "is")
  define v where "v = (st + i) mod length (rt_AllPs rt)"
  have v: "v < length (rt_AllPs rt)" unfolding v_def by (rule mod_less_divisor) (use assms(1) in linarith)
  show ?case
  proof (cases "v \<noteq> p \<and> lp_LocalQueue (rt_AllPs rt ! v) \<noteq> []")
    case True
    then have "steal_loop tick p st (i # is) rt =
        (case steal_from tick p v rt of (g, rt') \<Rightarrow> (Some g, rt'))"
      using assms v by (simp add: v_def Let_def)
    with steal_from_spec [OF assms(1) v] True show ?thesis by (metis prod.case)
  next
    case False
    then have "steal_loop tick p st (i # is) rt = steal_loop tick p st is rt"
      using assms v by (auto simp: v_def Let_def)
    with Cons False show ?thesis by (auto simp: v_def)
  qed
qed simp

lemma mod_covers:
  assumes "v < (n::nat)"
  shows "\<exists>i\<in>set [0..<n]. (st + i) mod n = v"
proof -
  let ?i = "(v + (n - st mod n)) mod n"
  have "st mod n < n" by (rule mod_less_divisor) (use assms in linarith)
  have "(st + ?i) mod n = (st mod n + (v + (n - st mod n))) mod n" by (simp add: mod_simps)
  also have "st mod n + (v + (n - st mod n)) = v + n"
    using \<open>st mod n < n\<close> by linarith
  finally have "(st + ?i) mod n = v" using assms by simp
  then show ?thesis using assms by (intro bexI [of _ ?i]) auto
qed

lemma findRunnableG_spec:
  assumes "bind_ok rt" and "p < length (rt_AllPs rt)"
  shows "(\<exists>g rt'. findRunnableG intn p tick rt = (Some g, rt') \<and> same_but_queues rt rt' \<and>
       mset (queued rt) = add_mset g (mset (queued rt'))) \<or>
     (\<exists>rt'. findRunnableG intn p tick rt = (None, rt') \<and> same_but_queues rt rt' \<and>
       queued rt = [] \<and> queued rt' = [])" (is "?some \<or> ?none")
proof -
  let ?P = "rt_AllPs rt ! p" and ?G = "rt_GlobalRunQueue rt" and ?n = "length (rt_AllPs rt)"
  have rn: "lp_RunNext ?P = None" and pid: "\<forall>j<?n. lp_PID (rt_AllPs rt ! j) = int j"
    using assms by (auto simp: bind_ok_def)
  have sg: "same_but_queues rt (rt\<lparr>rt_GlobalRunQueue := tl ?G\<rparr>)" by (simp add: same_but_queues_def)
  have qg: "mset (queued rt) = add_mset (hd ?G) (mset (queued (rt\<lparr>rt_GlobalRunQueue := tl ?G\<rparr>)))"
    if "?G \<noteq> []" using that by (cases ?G) (simp_all add: queued_def)
  consider (global) "?G \<noteq> []" "lp_TickCount ?P mod 61 = 0 \<or> lp_LocalQueue ?P = []"
    | (loc) "\<not> (lp_TickCount ?P mod 61 = 0 \<and> ?G \<noteq> [])" "lp_LocalQueue ?P \<noteq> []"
    | (steal) "?G = []" "lp_LocalQueue ?P = []" by blast
  then show ?thesis
  proof cases
    case global
    then have "findRunnableG intn p tick rt = (Some (hd ?G), rt\<lparr>rt_GlobalRunQueue := tl ?G\<rparr>)"
      using rn by (auto simp: findRunnableG_def Let_def)
    with sg qg [OF global(1)] show ?thesis by blast
  next
    case loc
    let ?rt = "upd_p p (\<lambda>x. x\<lparr>lp_LocalQueue := tl (lp_LocalQueue x)\<rparr>) rt"
    have "findRunnableG intn p tick rt = (Some (hd (lp_LocalQueue ?P)), ?rt)"
      using loc rn by (auto simp: findRunnableG_def Let_def)
    moreover have "same_but_queues rt ?rt" by (rule same_but_queues_upd_p) simp_all
    moreover have "mset (queued rt) = add_mset (hd (lp_LocalQueue ?P)) (mset (queued ?rt))"
      using queued_upd_p [OF assms(2), of "\<lambda>x. x\<lparr>lp_LocalQueue := tl (lp_LocalQueue x)\<rparr>"] loc(2)
      by (cases "lp_LocalQueue ?P") simp_all
    ultimately show ?thesis by blast
  next
    case steal
    have empty: "queued rt = []" if "\<forall>j<?n. j = p \<or> lp_LocalQueue (rt_AllPs rt ! j) = []"
      using that steal by (auto simp: queued_def in_set_conv_nth)
    show ?thesis
    proof (cases "1 < ?n")
      case False
      then have "findRunnableG intn p tick rt = (None, rt)"
        using steal rn by (simp add: findRunnableG_def Let_def)
      moreover have "queued rt = []" by (rule empty) (use False assms(2) in auto)
      ultimately show ?thesis by (simp add: same_but_queues_def)
    next
      case True
      obtain st r where st: "intn ?n (rt_rng rt) = (st, r)" by fastforce
      let ?rt = "rt\<lparr>rt_rng := r\<rparr>"
      have f: "findRunnableG intn p tick rt = steal_loop tick p st [0..<?n] ?rt"
        using steal rn True st by (simp add: findRunnableG_def Let_def)
      have q: "queued ?rt = queued rt" "same_but_queues rt ?rt" by (simp_all add: queued_def same_but_queues_def)
      have "p < length (rt_AllPs ?rt)" "\<forall>j<length (rt_AllPs ?rt). lp_PID (rt_AllPs ?rt ! j) = int j"
        using assms(2) pid by simp_all
      from steal_loop_spec [OF this, of tick st "[0..<?n]"] show ?thesis
      proof
        assume "\<exists>g rt'. steal_loop tick p st [0..<?n] ?rt = (Some g, rt') \<and> same_but_queues ?rt rt' \<and>
          mset (queued ?rt) = add_mset g (mset (queued rt'))"
        then show ?thesis using f q same_but_queues_trans by metis
      next
        assume n: "steal_loop tick p st [0..<?n] ?rt = (None, ?rt) \<and>
          (\<forall>i\<in>set [0..<?n]. (st + i) mod length (rt_AllPs ?rt) = p \<or>
            lp_LocalQueue (rt_AllPs ?rt ! ((st + i) mod length (rt_AllPs ?rt))) = [])"
        have "queued rt = []"
        proof (rule empty, intro allI impI)
          fix j assume "j < ?n"
          from mod_covers [OF this, of st] n show "j = p \<or> lp_LocalQueue (rt_AllPs rt ! j) = []" by auto
        qed
        then show ?thesis using n f q by auto
      qed
    qed
  qed
qed

section \<open>One processor\<close>

lemma upd_g_fields [simp]:
  "rt_AllGs (upd_g g f rt) = (rt_AllGs rt)[g := f (rt_AllGs rt ! g)]" "rt_AllMs (upd_g g f rt) = rt_AllMs rt"
  "rt_AllPs (upd_g g f rt) = rt_AllPs rt" "rt_CompletedGs (upd_g g f rt) = rt_CompletedGs rt"
  "queued (upd_g g f rt) = queued rt" "rt_GlobalRunQueue (upd_g g f rt) = rt_GlobalRunQueue rt"
  by (simp_all add: upd_g_def queued_def)

lemma upd_m_fields [simp]:
  "rt_AllGs (upd_m m h rt) = rt_AllGs rt" "rt_AllMs (upd_m m h rt) = (rt_AllMs rt)[m := h (rt_AllMs rt ! m)]"
  "rt_AllPs (upd_m m h rt) = rt_AllPs rt" "rt_CompletedGs (upd_m m h rt) = rt_CompletedGs rt"
  "queued (upd_m m h rt) = queued rt" "rt_GlobalRunQueue (upd_m m h rt) = rt_GlobalRunQueue rt"
  by (simp_all add: upd_m_def queued_def)

lemma bound_thread:
  assumes "bind_ok rt" and "p < length (rt_AllPs rt)"
  obtains m where "lp_BoundM (rt_AllPs rt ! p) = Some m" "m < length (rt_AllMs rt)"
    "th_BoundP (rt_AllMs rt ! m) = Some p" "\<not> th_IsBlocked (rt_AllMs rt ! m)"
  using assms unfolding bind_ok_def by blast

lemma bound_threadD:
  assumes "bind_ok rt" and "p < length (rt_AllPs rt)" and "lp_BoundM (rt_AllPs rt ! p) = Some m"
  shows "m < length (rt_AllMs rt)" and "th_BoundP (rt_AllMs rt ! m) = Some p"
    and "\<not> th_IsBlocked (rt_AllMs rt ! m)"
proof -
  from assms(1,2) obtain k where "lp_BoundM (rt_AllPs rt ! p) = Some k" "k < length (rt_AllMs rt)"
    "th_BoundP (rt_AllMs rt ! k) = Some p" "\<not> th_IsBlocked (rt_AllMs rt ! k)" by (rule bound_thread)
  with assms(3) show "m < length (rt_AllMs rt)" "th_BoundP (rt_AllMs rt ! m) = Some p"
    "\<not> th_IsBlocked (rt_AllMs rt ! m)" by simp_all
qed

lemma bind_ok_thread:
  assumes "bind_ok rt" and "rt_AllPs rt' = rt_AllPs rt" and "rt_AllMs rt' = (rt_AllMs rt)[m := x]"
    and "th_BoundP x = th_BoundP (rt_AllMs rt ! m)" and "th_IsBlocked x \<Longrightarrow> th_IsBlocked (rt_AllMs rt ! m)"
  shows "bind_ok rt'"
proof -
  have B: "th_BoundP (rt_AllMs rt' ! k) = th_BoundP (rt_AllMs rt ! k)"
    "th_IsBlocked (rt_AllMs rt' ! k) \<Longrightarrow> th_IsBlocked (rt_AllMs rt ! k)"
    if "k < length (rt_AllMs rt)" for k
    using that assms(3,4,5) by (auto simp: nth_update split: if_splits)
  have "length (rt_AllMs rt') = length (rt_AllMs rt)" using assms(3) by simp
  then show ?thesis
    using assms(1) B unfolding bind_ok_def assms(2) by (metis (no_types, lifting))
qed

lemma find_work_spec:
  fixes rt p m intn tick
  assumes "GMP_inv rt" and "p < length (rt_AllPs rt)" and "lp_BoundM (rt_AllPs rt ! p) = Some m"
  defines "rt' \<equiv> find_work intn tick p rt"
  shows "GMP_inv rt' \<and> keeps p rt rt' \<and> g_work rt' \<le> g_work rt \<and>
     (th_CurG (rt_AllMs rt ! m) = None \<and> queued rt \<noteq> [] \<longrightarrow> g_work rt' < g_work rt)"
proof (cases "th_CurG (rt_AllMs rt ! m)")
  case (Some g)
  then have "rt' = rt" by (simp add: rt'_def find_work_def assms(3))
  then show ?thesis using assms(1) Some by (simp add: keeps_def)
next
  case None
  have b: "bind_ok rt" and pl: "place_ok (rt_AllGs rt) (rt_AllMs rt) (mset (queued rt)) (rt_CompletedGs rt)"
    using assms(1) by (simp_all add: GMP_inv_def)
  have m: "m < length (rt_AllMs rt)" "th_BoundP (rt_AllMs rt ! m) = Some p" "\<not> th_IsBlocked (rt_AllMs rt ! m)"
    by (rule bound_threadD [OF b assms(2,3)])+
  from findRunnableG_spec [OF b assms(2), of intn tick] show ?thesis
  proof (elim disjE exE conjE)
    fix rt1 assume f: "findRunnableG intn p tick rt = (None, rt1)" and s: "same_but_queues rt rt1"
      and q: "queued rt = []" "queued rt1 = []"
    have "rt' = rt1" using None f by (simp add: rt'_def find_work_def assms(3))
    moreover have "GMP_inv rt1"
      using s q pl same_but_queues_bind [OF s b] by (simp add: GMP_inv_def same_but_queues_def)
    ultimately show ?thesis using s q by (simp add: keeps_def same_but_queues_def g_work_def)
  next
    fix g rt1 assume f: "findRunnableG intn p tick rt = (Some g, rt1)" and s: "same_but_queues rt rt1"
      and q: "mset (queued rt) = add_mset g (mset (queued rt1))"
    define h where "h = (\<lambda>x::Goroutine. x\<lparr>g_Status := GRunning, g_AssignedM := th_MID (rt_AllMs rt1 ! m),
        g_AssignedP := lp_PID (rt_AllPs rt1 ! p)\<rparr>)"
    define x where "x = h (rt_AllGs rt ! g)"
    have rt': "rt' = upd_m m (\<lambda>x. x\<lparr>th_CurG := Some g\<rparr>) (upd_g g h rt1)"
      using None f by (simp add: rt'_def find_work_def assms(3) h_def)
    have eq: "rt_AllGs rt1 = rt_AllGs rt" "rt_AllMs rt1 = rt_AllMs rt" "rt_CompletedGs rt1 = rt_CompletedGs rt"
      using s by (simp_all add: same_but_queues_def)
    have "g \<in># mset (queued rt)" unfolding q by simp
    then have w: "g_waits (rt_AllGs rt ! g)" "g < length (rt_AllGs rt)"
      using pl place_distinct(1) [OF pl, of g] by (simp add: place_ok_def, simp)
    have x: "g_runs x" "g_rank x < g_rank (rt_AllGs rt ! g)"
      using w(1) by (auto simp: x_def h_def g_waits_def g_runs_def g_rank_def)
    have "place_ok (rt_AllGs rt') (rt_AllMs rt') (mset (queued rt')) (rt_CompletedGs rt')"
      using place_assign [OF pl [unfolded q] m(1) None m(3) _ x(1)] m(2) by (simp add: rt' eq x_def)
    moreover have "bind_ok rt'"
      by (rule bind_ok_thread [OF same_but_queues_bind [OF s b], of _ m "(rt_AllMs rt1 ! m)\<lparr>th_CurG := Some g\<rparr>"])
         (simp_all add: rt')
    moreover have "keeps p rt rt'"
      using s m(1) assms(3) by (auto simp: keeps_def rt' eq same_but_queues_def nth_update)
    moreover have "g_work rt' < g_work rt"
      using rank_less [OF w(2) x(2)] by (simp add: g_work_def rt' eq x_def)
    ultimately show ?thesis by (simp add: GMP_inv_def)
  qed
qed

lemma execute_spec:
  fixes rt p m g
  assumes "GMP_inv rt" and "p < length (rt_AllPs rt)" and "lp_BoundM (rt_AllPs rt ! p) = Some m"
    and "th_CurG (rt_AllMs rt ! m) = Some g" and "\<not> g_IsSyscall (rt_AllGs rt ! g)"
  defines "rt' \<equiv> execute m g rt"
  shows "GMP_inv rt' \<and> keeps p rt rt' \<and> g_work rt' < g_work rt \<and> rt_AllPs rt' = rt_AllPs rt"
proof -
  have b: "bind_ok rt" and pl: "place_ok (rt_AllGs rt) (rt_AllMs rt) (mset (queued rt)) (rt_CompletedGs rt)"
    using assms(1) by (simp_all add: GMP_inv_def)
  have m: "m < length (rt_AllMs rt)" "th_BoundP (rt_AllMs rt ! m) = Some p" "\<not> th_IsBlocked (rt_AllMs rt ! m)"
    by (rule bound_threadD [OF b assms(2,3)])+
  have g: "g < length (rt_AllGs rt)" by (rule place_cur(1) [OF pl m(1) assms(4)])
  have "cur_ok (rt_AllGs rt) (rt_AllMs rt ! m)" using pl m(1) by (simp add: place_ok_def)
  then have r: "g_Status (rt_AllGs rt ! g) = GRunning" "g_runs (rt_AllGs rt ! g)"
    using m(3) assms(4) by (simp_all add: cur_ok_def g_runs_def)
  define x where "x = (rt_AllGs rt ! g)\<lparr>g_RemainingWork := g_RemainingWork (rt_AllGs rt ! g) - 1\<rparr>"
  show ?thesis
  proof (cases "g_RemainingWork x \<le> 0")
    case True
    let ?y = "(rt_AllMs rt ! m)\<lparr>th_CurG := None\<rparr>"
    have f: "rt_AllGs rt' = (rt_AllGs rt)[g := x\<lparr>g_Status := GDead\<rparr>]" "rt_AllMs rt' = (rt_AllMs rt)[m := ?y]"
      "rt_AllPs rt' = rt_AllPs rt" "rt_CompletedGs rt' = rt_CompletedGs rt @ [g]" "queued rt' = queued rt"
      using True r(1) g by (simp_all add: rt'_def execute_def x_def queued_def upd_g_def upd_m_def)
    have "place_ok (rt_AllGs rt') (rt_AllMs rt') (mset (queued rt')) (rt_CompletedGs rt')"
      unfolding f by (rule place_leave(1) [OF pl m(1) assms(4)]) (simp_all add: m(3))
    moreover have "bind_ok rt'" by (rule bind_ok_thread [OF b f(3,2)]) simp_all
    moreover have "keeps p rt rt'" using m(1) assms(3) by (auto simp: keeps_def f nth_update)
    moreover have "g_rank (x\<lparr>g_Status := GDead\<rparr>) < g_rank (rt_AllGs rt ! g)"
      using r(1) by (simp add: g_rank_def max_def)
    then have "g_work rt' < g_work rt" unfolding g_work_def f by (rule rank_less [OF g])
    ultimately show ?thesis using f(3) by (simp add: GMP_inv_def)
  next
    case False
    have f: "rt_AllGs rt' = (rt_AllGs rt)[g := x]" "rt_AllMs rt' = (rt_AllMs rt)[m := rt_AllMs rt ! m]"
      "rt_AllPs rt' = rt_AllPs rt" "rt_CompletedGs rt' = rt_CompletedGs rt" "queued rt' = queued rt"
      using False r(1) g by (simp_all add: rt'_def execute_def x_def)
    have "g_runs x" using r(2) by (simp add: g_runs_def x_def)
    then have "cur_ok ((rt_AllGs rt)[g := x]) (rt_AllMs rt ! m)"
      using m g assms(4) by (simp add: cur_ok_def)
    then have "place_ok (rt_AllGs rt') (rt_AllMs rt') (mset (queued rt')) (rt_CompletedGs rt')"
      unfolding f by (rule place_stay [OF pl m(1) assms(4) _ assms(4)])
    moreover have "bind_ok rt'" by (rule bind_ok_thread [OF b f(3,2)]) simp_all
    moreover have "keeps p rt rt'" by (simp add: keeps_def f)
    moreover have "g_rank x < g_rank (rt_AllGs rt ! g)"
      using r(1) assms(5) False by (simp add: g_rank_def x_def)
    then have "g_work rt' < g_work rt" unfolding g_work_def f by (rule rank_less [OF g])
    ultimately show ?thesis using f(3) by (simp add: GMP_inv_def)
  qed
qed

lemma place_append:
  assumes "place_ok Gs Ms Q D" and "th_CurG x = None" and "\<not> th_IsBlocked x"
  shows "place_ok Gs (Ms @ [x]) Q D"
  using assms by (auto simp: place_ok_def cur_ok_def nth_append less_Suc_eq)

lemma enter_syscall_spec:
  fixes rt p m g tick
  assumes "GMP_inv rt" and "p < length (rt_AllPs rt)" and "lp_BoundM (rt_AllPs rt ! p) = Some m"
    and "th_CurG (rt_AllMs rt ! m) = Some g" and "g_IsSyscall (rt_AllGs rt ! g)"
  defines "rt' \<equiv> enter_syscall tick p m g rt"
  shows "GMP_inv rt' \<and> keeps p rt rt' \<and> g_work rt' < g_work rt"
proof -
  have b: "bind_ok rt" and pl: "place_ok (rt_AllGs rt) (rt_AllMs rt) (mset (queued rt)) (rt_CompletedGs rt)"
    using assms(1) by (simp_all add: GMP_inv_def)
  have m: "m < length (rt_AllMs rt)" "th_BoundP (rt_AllMs rt ! m) = Some p" "\<not> th_IsBlocked (rt_AllMs rt ! m)"
    by (rule bound_threadD [OF b assms(2,3)])+
  have g: "g < length (rt_AllGs rt)" by (rule place_cur(1) [OF pl m(1) assms(4)])
  have "cur_ok (rt_AllGs rt) (rt_AllMs rt ! m)" using pl m(1) by (simp add: place_ok_def)
  then have r: "g_Status (rt_AllGs rt ! g) = GRunning" "g_SyscallTicks (rt_AllGs rt ! g) = 0"
    using m(3) assms(4,5) by (simp_all add: cur_ok_def g_runs_def)
  let ?k = "length (rt_AllMs rt)"
  define x where "x = (rt_AllGs rt ! g)\<lparr>g_Status := GSyscall\<rparr>"
  define y where "y = (rt_AllMs rt ! m)\<lparr>th_IsBlocked := True, th_BoundP := None\<rparr>"
  define z where "z = (rt_AllPs rt ! p)\<lparr>lp_BoundM := Some ?k\<rparr>"
  have f: "rt_AllGs rt' = (rt_AllGs rt)[g := x]"
    "rt_AllMs rt' = (rt_AllMs rt)[m := y] @ [new_thread ?k p]"
    "rt_AllPs rt' = (rt_AllPs rt)[p := z]" "rt_CompletedGs rt' = rt_CompletedGs rt"
    "rt_GlobalRunQueue rt' = rt_GlobalRunQueue rt"
    using m(1) assms(2)
    by (simp_all add: rt'_def enter_syscall_def Let_def x_def y_def z_def upd_m_def upd_g_def upd_p_def)
  have q: "mset (queued rt') = mset (queued rt)"
    using mset_concat_map_update [OF assms(2), of lp_LocalQueue z] by (simp add: queued_def f z_def)
  have "cur_ok ((rt_AllGs rt)[g := x]) y"
    using g r(2) assms(4,5) by (simp add: cur_ok_def y_def x_def g_blocked_def)
  then have "place_ok ((rt_AllGs rt)[g := x]) ((rt_AllMs rt)[m := y]) (mset (queued rt)) (rt_CompletedGs rt)"
    by (rule place_stay [OF pl m(1) assms(4)]) (simp add: y_def assms(4))
  then have "place_ok (rt_AllGs rt') (rt_AllMs rt') (mset (queued rt')) (rt_CompletedGs rt')"
    unfolding f q by (rule place_append) (simp_all add: new_thread_def)
  moreover have "bind_ok rt'"
  proof -
    have own: "lp_BoundM (rt_AllPs rt ! j) = Some k \<Longrightarrow> k = m \<Longrightarrow> j = p" if "j < length (rt_AllPs rt)" for j k
      using bound_threadD(2) [OF b that, of k] m(2) by simp
    have P: "\<exists>k<length (rt_AllMs rt'). lp_BoundM (rt_AllPs rt' ! j) = Some k \<and>
        th_BoundP (rt_AllMs rt' ! k) = Some j \<and> \<not> th_IsBlocked (rt_AllMs rt' ! k)"
      if j: "j < length (rt_AllPs rt)" for j
    proof (cases "j = p")
      case True
      then show ?thesis using assms(2) by (intro exI [of _ ?k]) (simp add: f z_def nth_append new_thread_def)
    next
      case False
      from b j obtain k where k: "lp_BoundM (rt_AllPs rt ! j) = Some k" "k < ?k"
        "th_BoundP (rt_AllMs rt ! k) = Some j" "\<not> th_IsBlocked (rt_AllMs rt ! k)" by (rule bound_thread)
      then show ?thesis using False own [OF j k(1)] by (intro exI [of _ k]) (auto simp: f nth_append nth_update)
    qed
    have M: "j < length (rt_AllPs rt) \<and> lp_BoundM (rt_AllPs rt' ! j) = Some k"
      if k: "k < length (rt_AllMs rt')" and t: "th_BoundP (rt_AllMs rt' ! k) = Some j" for k j
    proof (cases "k = ?k")
      case True
      then show ?thesis using t assms(2) by (simp add: f z_def nth_append new_thread_def)
    next
      case False
      then have k': "k < ?k" "k \<noteq> m" "th_BoundP (rt_AllMs rt ! k) = Some j"
        using k t by (auto simp: f y_def nth_append nth_update split: if_splits)
      with b have "j < length (rt_AllPs rt)" "lp_BoundM (rt_AllPs rt ! j) = Some k"
        by (auto simp: bind_ok_def)
      then show ?thesis using k'(2) assms(3) by (auto simp: f nth_update)
    qed
    have "lp_PID z = lp_PID (rt_AllPs rt ! p)" "lp_RunNext z = lp_RunNext (rt_AllPs rt ! p)"
      by (simp_all add: z_def)
    then have "lp_PID (rt_AllPs rt' ! j) = int j \<and> lp_RunNext (rt_AllPs rt' ! j) = None"
      if "j < length (rt_AllPs rt)" for j
      using b that by (auto simp: f nth_update bind_ok_def)
    moreover have "length (rt_AllPs rt') = length (rt_AllPs rt)" "rt_AllPs rt' \<noteq> []"
      using assms(2) by (auto simp: f)
    ultimately show ?thesis using P M unfolding bind_ok_def by simp
  qed
  moreover have "keeps p rt rt'"
    using m(1) assms(3) by (auto simp: keeps_def f nth_append nth_update)
  moreover have "g_rank x < g_rank (rt_AllGs rt ! g)"
    using r assms(5) by (simp add: g_rank_def x_def)
  then have "g_work rt' < g_work rt" unfolding g_work_def f by (rule rank_less [OF g])
  ultimately show ?thesis by (simp add: GMP_inv_def)
qed

definition busy_P :: "nat \<Rightarrow> 'r GMPRuntime \<Rightarrow> bool" where
  "busy_P p rt \<longleftrightarrow> (\<exists>m. lp_BoundM (rt_AllPs rt ! p) = Some m \<and> th_CurG (rt_AllMs rt ! m) \<noteq> None)"

lemma keeps_trans:
  assumes "keeps p a b" and "keeps p b c" and "lp_BoundM (rt_AllPs b ! p) = lp_BoundM (rt_AllPs a ! p)"
  shows "keeps p a c"
  using assms unfolding keeps_def by auto

lemma step_P_spec:
  fixes rt p intn tick
  assumes "GMP_inv rt" and "p < length (rt_AllPs rt)"
  defines "rt' \<equiv> step_P intn tick p rt"
  shows "GMP_inv rt' \<and> keeps p rt rt' \<and> g_work rt' \<le> g_work rt \<and>
     (busy_P p rt \<or> queued rt \<noteq> [] \<longrightarrow> g_work rt' < g_work rt)"
proof -
  define rt0 where "rt0 = upd_p p (\<lambda>x. x\<lparr>lp_TickCount := lp_TickCount x + 1\<rparr>) rt"
  have s: "same_but_queues rt rt0" unfolding rt0_def by (rule same_but_queues_upd_p) simp_all
  have mq: "mset (queued rt0) = mset (queued rt)"
    using queued_upd_p [OF assms(2), of "\<lambda>x. x\<lparr>lp_TickCount := lp_TickCount x + 1\<rparr>"] by (simp add: rt0_def)
  then have q: "queued rt0 = [] \<longleftrightarrow> queued rt = []" by (metis mset_zero_iff)
  have eq: "rt_AllGs rt0 = rt_AllGs rt" "rt_AllMs rt0 = rt_AllMs rt" "rt_CompletedGs rt0 = rt_CompletedGs rt"
    "length (rt_AllPs rt0) = length (rt_AllPs rt)"
    "\<And>j. j < length (rt_AllPs rt) \<Longrightarrow> lp_BoundM (rt_AllPs rt0 ! j) = lp_BoundM (rt_AllPs rt ! j)"
    using s by (simp_all add: same_but_queues_def)
  have b: "bind_ok rt" using assms(1) by (simp add: GMP_inv_def)
  have i0: "GMP_inv rt0" using assms(1) same_but_queues_bind [OF s b] by (simp add: GMP_inv_def eq mq)
  have p0: "p < length (rt_AllPs rt0)" using assms(2) eq by simp
  have w0: "g_work rt0 = g_work rt" by (simp add: g_work_def eq)
  from b assms(2) obtain m where m: "lp_BoundM (rt_AllPs rt ! p) = Some m" by (rule bound_thread)
  then have m0: "lp_BoundM (rt_AllPs rt0 ! p) = Some m" using eq(5) assms(2) by simp
  have bd: "bindM p rt0 = (Some m, rt0)" by (simp add: bindM_def m0)
  have k0: "keeps p rt c" if "keeps p rt0 c" for c
    using that eq m m0 by (simp add: keeps_def)
  have busy: "busy_P p rt \<longleftrightarrow> th_CurG (rt_AllMs rt0 ! m) \<noteq> None" by (simp add: busy_P_def m eq)
  show ?thesis
  proof (cases "th_CurG (rt_AllMs rt0 ! m)")
    case None
    then have "rt' = find_work intn tick p rt0" by (simp add: rt'_def step_P_def rt0_def [symmetric] bd)
    with find_work_spec [OF i0 p0 m0, of intn tick] None k0 q busy w0 show ?thesis by simp
  next
    case (Some g)
    let ?G = "rt_AllGs rt0 ! g"
    have "m < length (rt_AllMs rt0)" "\<not> th_IsBlocked (rt_AllMs rt0 ! m)"
      using bound_threadD(1,3) [of rt0 p m] i0 p0 m0 by (simp_all add: GMP_inv_def)
    then have r: "g_runs ?G" using i0 Some by (auto simp: GMP_inv_def place_ok_def cur_ok_def)
    show ?thesis
    proof (cases "g_IsSyscall ?G")
      case True
      then have "rt' = enter_syscall tick p m g rt0"
        using r Some by (simp add: rt'_def step_P_def rt0_def [symmetric] bd g_runs_def Let_def)
      with enter_syscall_spec [OF i0 p0 m0 Some True, of tick] k0 w0 show ?thesis by simp
    next
      case False
      let ?e = "execute m g rt0"
      note E = execute_spec [OF i0 p0 m0 Some False]
      have "rt' = find_work intn tick p ?e"
        using Some False by (simp add: rt'_def step_P_def rt0_def [symmetric] bd Let_def)
      moreover have "GMP_inv ?e" "p < length (rt_AllPs ?e)" "lp_BoundM (rt_AllPs ?e ! p) = Some m"
        using E p0 m0 by simp_all
      note F = find_work_spec [OF this, of intn tick]
      have "keeps p rt0 (find_work intn tick p ?e)"
        by (rule keeps_trans [of p rt0 ?e]) (use E F in simp_all)
      ultimately show ?thesis using E F k0 w0 by simp
    qed
  qed
qed

lemma keeps_busy:
  assumes "bind_ok rt" and "keeps p rt rt'" and "j < length (rt_AllPs rt)" and "j \<noteq> p"
    and "p < length (rt_AllPs rt)" and "busy_P j rt"
  shows "busy_P j rt'"
proof -
  from assms(1,3) obtain m where m: "lp_BoundM (rt_AllPs rt ! j) = Some m" "m < length (rt_AllMs rt)"
    "th_BoundP (rt_AllMs rt ! m) = Some j" by (rule bound_thread)
  have "lp_BoundM (rt_AllPs rt ! p) \<noteq> Some m"
    using bound_threadD(2) [OF assms(1,5), of m] m(3) assms(4) by auto
  then show ?thesis using assms(2,3,4,6) m(1,2) by (simp add: keeps_def busy_P_def)
qed

lemma keeps_blocked:
  assumes "bind_ok rt" and "keeps p rt rt'" and "p < length (rt_AllPs rt)"
    and "m < length (rt_AllMs rt)" and "th_IsBlocked (rt_AllMs rt ! m)"
  shows "rt_AllMs rt' ! m = rt_AllMs rt ! m"
  using assms(2,4,5) bound_threadD(3) [OF assms(1,3), of m] by (simp add: keeps_def) blast

lemma run_Ps_spec:
  fixes rt intn tick ps
  assumes "GMP_inv rt" and "distinct ps" and "set ps \<subseteq> {..<length (rt_AllPs rt)}"
  defines "rt' \<equiv> run_Ps intn tick ps rt"
  shows "GMP_inv rt' \<and> length (rt_AllPs rt') = length (rt_AllPs rt) \<and>
     length (rt_AllMs rt) \<le> length (rt_AllMs rt') \<and> g_work rt' \<le> g_work rt \<and>
     ((\<exists>p\<in>set ps. busy_P p rt) \<or> ps \<noteq> [] \<and> queued rt \<noteq> [] \<longrightarrow> g_work rt' < g_work rt) \<and>
     (\<forall>m<length (rt_AllMs rt). th_IsBlocked (rt_AllMs rt ! m) \<longrightarrow> rt_AllMs rt' ! m = rt_AllMs rt ! m)"
  using assms(1-3) unfolding rt'_def
proof (induction ps arbitrary: rt)
  case (Cons p ps)
  let ?s = "step_P intn tick p rt"
  have p: "p < length (rt_AllPs rt)" using Cons.prems(3) by simp
  have b: "bind_ok rt" using Cons.prems(1) by (simp add: GMP_inv_def)
  note S = step_P_spec [OF Cons.prems(1) p, of intn tick]
  then have k: "keeps p rt ?s" by blast
  then have len: "length (rt_AllPs ?s) = length (rt_AllPs rt)" "length (rt_AllMs rt) \<le> length (rt_AllMs ?s)"
    by (simp_all add: keeps_def)
  have "GMP_inv ?s" "distinct ps" "set ps \<subseteq> {..<length (rt_AllPs ?s)}" using S Cons.prems len by auto
  note R = Cons.IH [OF this]
  have "(\<exists>j\<in>set ps. busy_P j ?s)" if "\<exists>j\<in>set ps. busy_P j rt"
    using that keeps_busy [OF b k _ _ p] Cons.prems(2,3) by (auto intro!: bexI)
  then have "g_work (run_Ps intn tick ps ?s) < g_work rt"
    if "(\<exists>j\<in>set (p # ps). busy_P j rt) \<or> p # ps \<noteq> [] \<and> queued rt \<noteq> []"
    using that S R by fastforce
  moreover have "rt_AllMs (run_Ps intn tick ps ?s) ! m = rt_AllMs rt ! m"
    if "m < length (rt_AllMs rt)" "th_IsBlocked (rt_AllMs rt ! m)" for m
    using R keeps_blocked [OF b k p that] that len(2) by simp
  ultimately show ?case using S R len by auto
qed simp

section \<open>Waking up\<close>

lemma wake_M_spec:
  fixes rt m
  assumes "GMP_inv rt" and "m < length (rt_AllMs rt)"
  defines "rt' \<equiv> wake_M m rt"
  shows "GMP_inv rt' \<and> length (rt_AllMs rt') = length (rt_AllMs rt) \<and> g_work rt' \<le> g_work rt \<and>
     (th_IsBlocked (rt_AllMs rt ! m) \<longrightarrow> g_work rt' < g_work rt) \<and>
     (\<forall>k<length (rt_AllMs rt). k \<noteq> m \<longrightarrow> rt_AllMs rt' ! k = rt_AllMs rt ! k)"
proof (cases "th_IsBlocked (rt_AllMs rt ! m)")
  case False
  then have "rt' = rt" by (simp add: rt'_def wake_M_def split: option.split)
  then show ?thesis using assms(1) False by simp
next
  case True
  have b: "bind_ok rt" and pl: "place_ok (rt_AllGs rt) (rt_AllMs rt) (mset (queued rt)) (rt_CompletedGs rt)"
    using assms(1) by (simp_all add: GMP_inv_def)
  have "cur_ok (rt_AllGs rt) (rt_AllMs rt ! m)" using pl assms(2) by (simp add: place_ok_def)
  then obtain g where c: "th_CurG (rt_AllMs rt ! m) = Some g" and gb: "g_blocked (rt_AllGs rt ! g)"
    using True by (auto simp: cur_ok_def split: option.splits)
  have g: "g < length (rt_AllGs rt)" by (rule place_cur(1) [OF pl assms(2) c])
  define x where "x = (rt_AllGs rt ! g)\<lparr>g_SyscallTicks := g_SyscallTicks (rt_AllGs rt ! g) + 1\<rparr>"
  show ?thesis
  proof (cases "3 \<le> g_SyscallTicks x")
    case False
    have f: "rt_AllGs rt' = (rt_AllGs rt)[g := x]" "rt_AllMs rt' = (rt_AllMs rt)[m := rt_AllMs rt ! m]"
      "rt_AllPs rt' = rt_AllPs rt" "rt_CompletedGs rt' = rt_CompletedGs rt" "queued rt' = queued rt"
      using False True c g by (simp_all add: rt'_def wake_M_def x_def Let_def)
    have "g_blocked x" using gb False by (simp add: g_blocked_def x_def)
    then have "cur_ok ((rt_AllGs rt)[g := x]) (rt_AllMs rt ! m)" using True g c by (simp add: cur_ok_def)
    then have "place_ok (rt_AllGs rt') (rt_AllMs rt') (mset (queued rt')) (rt_CompletedGs rt')"
      unfolding f by (rule place_stay [OF pl assms(2) c _ c])
    moreover have "bind_ok rt'" by (rule bind_ok_thread [OF b f(3,2)]) simp_all
    moreover have "g_rank x < g_rank (rt_AllGs rt ! g)"
      using gb by (simp add: g_rank_def x_def g_blocked_def)
    then have "g_work rt' < g_work rt" unfolding g_work_def f by (rule rank_less [OF g])
    ultimately show ?thesis using f(2) by (simp add: GMP_inv_def)
  next
    case fin: True
    let ?x = "x\<lparr>g_Status := GRunnable, g_IsSyscall := False\<rparr>"
    let ?y = "(rt_AllMs rt ! m)\<lparr>th_IsBlocked := False, th_CurG := None\<rparr>"
    have f: "rt_AllGs rt' = (rt_AllGs rt)[g := ?x]" "rt_AllMs rt' = (rt_AllMs rt)[m := ?y]"
      "rt_AllPs rt' = rt_AllPs rt" "rt_CompletedGs rt' = rt_CompletedGs rt" "queued rt' = queued rt @ [g]"
      using fin True c g assms(2)
      by (simp_all add: rt'_def wake_M_def x_def Let_def queued_def upd_g_def upd_m_def)
    have "place_ok ((rt_AllGs rt)[g := ?x]) ((rt_AllMs rt)[m := ?y]) (add_mset g (mset (queued rt)))
        (rt_CompletedGs rt)"
      by (rule place_leave(2) [OF pl assms(2) c]) (simp_all add: g_waits_def)
    then have "place_ok (rt_AllGs rt') (rt_AllMs rt') (mset (queued rt')) (rt_CompletedGs rt')"
      by (simp add: f)
    moreover have "bind_ok rt'" by (rule bind_ok_thread [OF b f(3,2)]) simp_all
    moreover have "g_rank ?x < g_rank (rt_AllGs rt ! g)"
      using gb by (simp add: g_rank_def x_def g_blocked_def)
    then have "g_work rt' < g_work rt" unfolding g_work_def f by (rule rank_less [OF g])
    ultimately show ?thesis using f(2) by (simp add: GMP_inv_def)
  qed
qed

lemma wake_Ms_spec:
  fixes rt ms
  assumes "GMP_inv rt" and "distinct ms" and "set ms \<subseteq> {..<length (rt_AllMs rt)}"
  shows "GMP_inv (wake_Ms ms rt) \<and> g_work (wake_Ms ms rt) \<le> g_work rt \<and>
     ((\<exists>m\<in>set ms. th_IsBlocked (rt_AllMs rt ! m)) \<longrightarrow> g_work (wake_Ms ms rt) < g_work rt)"
  using assms
proof (induction ms arbitrary: rt)
  case (Cons m ms)
  have m: "m < length (rt_AllMs rt)" using Cons.prems(3) by simp
  note W = wake_M_spec [OF Cons.prems(1) m]
  have "GMP_inv (wake_M m rt)" "distinct ms" "set ms \<subseteq> {..<length (rt_AllMs (wake_M m rt))}"
    using W Cons.prems by auto
  note R = Cons.IH [OF this]
  have "\<exists>k\<in>set ms. th_IsBlocked (rt_AllMs (wake_M m rt) ! k)"
    if "k \<in> set ms" "th_IsBlocked (rt_AllMs rt ! k)" for k
    using that W Cons.prems(2,3) by (intro bexI [of _ k]) auto
  then have "g_work (wake_Ms ms (wake_M m rt)) < g_work rt"
    if "\<exists>k\<in>set (m # ms). th_IsBlocked (rt_AllMs rt ! k)"
    using that W R by fastforce
  then show ?case using W R by auto
qed simp

section \<open>The runtime as a whole\<close>

lemma GMP_Step_spec:
  fixes rt intn tick
  assumes "GMP_inv rt"
  defines "rt' \<equiv> GMP_Step intn rt tick"
  shows "GMP_inv rt' \<and> g_work rt' \<le> g_work rt \<and> (0 < g_work rt \<longrightarrow> g_work rt' < g_work rt)"
proof -
  define rt1 where "rt1 = run_Ps intn tick [0..<length (rt_AllPs rt)] rt"
  have b: "bind_ok rt" and pl: "place_ok (rt_AllGs rt) (rt_AllMs rt) (mset (queued rt)) (rt_CompletedGs rt)"
    using assms(1) by (simp_all add: GMP_inv_def)
  have "set [0..<length (rt_AllPs rt)] \<subseteq> {..<length (rt_AllPs rt)}" by auto
  note P = run_Ps_spec [OF assms(1) distinct_upt this, of intn tick, folded rt1_def]
  have "set [0..<length (rt_AllMs rt1)] \<subseteq> {..<length (rt_AllMs rt1)}" by auto
  note W = wake_Ms_spec [OF P [THEN conjunct1] distinct_upt this]
  have rt': "rt' = wake_Ms [0..<length (rt_AllMs rt1)] rt1" by (simp add: rt'_def GMP_Step_def rt1_def Let_def)
  have "g_work rt' < g_work rt" if pos: "0 < g_work rt"
  proof -
    obtain g where g: "g < length (rt_AllGs rt)" "g_Status (rt_AllGs rt ! g) \<noteq> GDead"
      using pos g_work_0 [of rt] by (auto simp: in_set_conv_nth)
    have "g \<notin> set (rt_CompletedGs rt)" using pl g(2) by (auto simp: place_ok_def)
    then have "g \<in> set (queued rt) \<or> g \<in> set (curs (rt_AllMs rt))"
      using place_distinct(1) [OF pl, of g] g(1) by simp
    then show ?thesis
    proof
      assume "g \<in> set (queued rt)"
      then have "queued rt \<noteq> []" by auto
      moreover have "rt_AllPs rt \<noteq> []" using b by (simp add: bind_ok_def)
      ultimately have "g_work rt1 < g_work rt" using P by simp
      then show ?thesis using W rt' by simp
    next
      assume "g \<in> set (curs (rt_AllMs rt))"
      then obtain m where m: "m < length (rt_AllMs rt)" "th_CurG (rt_AllMs rt ! m) = Some g"
        by (auto simp: in_curs_iff)
      show ?thesis
      proof (cases "th_IsBlocked (rt_AllMs rt ! m)")
        case True
        then have "th_IsBlocked (rt_AllMs rt1 ! m)" "m < length (rt_AllMs rt1)" using P m(1) by auto
        then have "g_work rt' < g_work rt1" using W rt' by (auto intro!: bexI [of _ m])
        then show ?thesis using P by simp
      next
        case False
        have "cur_ok (rt_AllGs rt) (rt_AllMs rt ! m)" using pl m(1) by (simp add: place_ok_def)
        then obtain p where "th_BoundP (rt_AllMs rt ! m) = Some p" using False m(2) by (auto simp: cur_ok_def)
        then have "p < length (rt_AllPs rt)" "lp_BoundM (rt_AllPs rt ! p) = Some m"
          using b m(1) by (simp_all add: bind_ok_def)
        then have "\<exists>p\<in>set [0..<length (rt_AllPs rt)]. busy_P p rt"
          using m(2) by (intro bexI [of _ p]) (simp_all add: busy_P_def)
        then have "g_work rt1 < g_work rt" using P by blast
        then show ?thesis using W rt' by simp
      qed
    qed
  qed
  then show ?thesis using P W rt' by simp
qed

definition spawn_cost :: "int \<Rightarrow> bool \<Rightarrow> nat" where
  "spawn_cost w sys = nat (max 1 w) + 1 + (if sys then 5 else 0)"

lemma place_spawn:
  assumes "place_ok Gs Ms Q D" and "g_waits x"
  shows "place_ok (Gs @ [x]) Ms (add_mset (length Gs) Q) D"
proof -
  have lt: "i \<in># Q \<Longrightarrow> i < length Gs" "i \<in> set (curs Ms) \<Longrightarrow> i < length Gs"
    "i \<in> set D \<Longrightarrow> i < length Gs" for i
    using place_distinct(1) [OF assms(1), of i] by simp_all
  have "cur_ok (Gs @ [x]) (Ms ! m)" if "m < length Ms" for m
  proof (cases "th_CurG (Ms ! m)")
    case None
    then show ?thesis using assms(1) that by (auto simp: place_ok_def cur_ok_def)
  next
    case (Some g)
    then have "g < length Gs" using lt(2) in_curs [OF that] by blast
    then show ?thesis using assms(1) that Some by (auto simp: place_ok_def cur_ok_def nth_append)
  qed
  moreover have "g_waits ((Gs @ [x]) ! i)" if "i \<in># add_mset (length Gs) Q" for i
    using that assms lt(1) [of i] by (auto simp: place_ok_def nth_append)
  moreover have "g_Status ((Gs @ [x]) ! i) = GDead" if "i \<in> set D" for i
    using that assms lt(3) [of i] by (auto simp: place_ok_def nth_append)
  moreover have "add_mset (length Gs) Q + mset (curs Ms) + mset D = mset [0..<length (Gs @ [x])]"
    using assms(1) by (simp add: place_ok_def)
  ultimately show ?thesis by (simp add: place_ok_def)
qed

lemma Spawn_spec:
  fixes rt name w sys
  assumes "GMP_inv rt"
  defines "rt' \<equiv> SpawnGoroutine rt name w sys"
  shows "GMP_inv rt' \<and> g_work rt' = g_work rt + spawn_cost w sys \<and>
     length (rt_AllGs rt') = Suc (length (rt_AllGs rt))"
proof -
  have b: "bind_ok rt" and pl: "place_ok (rt_AllGs rt) (rt_AllMs rt) (mset (queued rt)) (rt_CompletedGs rt)"
    using assms(1) by (simp_all add: GMP_inv_def)
  define g where "g = \<lparr>g_GID = rt_GCount rt + 1, g_Name = name, g_Status = GRunnable, g_StackSize = 2048,
      g_PC = 0, g_SP = 0, g_RemainingWork = w, g_AssignedM = -1, g_AssignedP = -1,
      g_IsSyscall = sys, g_SyscallTicks = 0\<rparr>"
  define k where "k = length (rt_AllGs rt)"
  define rt2 where "rt2 = rt\<lparr>rt_GCount := rt_GCount rt + 1, rt_AllGs := rt_AllGs rt @ [g]\<rparr>"
  define p where "p = nat (rt_GCount rt2 mod int (length (rt_AllPs rt2)))"
  have n: "0 < length (rt_AllPs rt)" using b by (simp add: bind_ok_def)
  then have p: "p < length (rt_AllPs rt2)" by (simp add: p_def rt2_def nat_less_iff)
  have x: "g_waits g" "g_rank g = spawn_cost w sys"
    by (simp_all add: g_def g_waits_def g_rank_def spawn_cost_def)
  have b2: "bind_ok rt2" using b by (simp add: bind_ok_def rt2_def)
  let ?f = "\<lambda>q. q\<lparr>lp_LocalQueue := lp_LocalQueue q @ [k]\<rparr>"
  have rt': "rt' = (if length (lp_LocalQueue (rt_AllPs rt2 ! p)) < 256 then upd_p p ?f rt2
      else rt2\<lparr>rt_GlobalRunQueue := rt_GlobalRunQueue rt2 @ [k]\<rparr>)"
    by (simp add: rt'_def SpawnGoroutine_def Let_def rt2_def p_def g_def k_def)
  have s: "same_but_queues rt2 rt'"
    using same_but_queues_upd_p [of ?f rt2 p] by (simp add: rt' same_but_queues_def)
  have q2: "queued rt2 = queued rt" by (simp add: queued_def rt2_def)
  have q: "mset (queued rt') = add_mset k (mset (queued rt))"
  proof (cases "length (lp_LocalQueue (rt_AllPs rt2 ! p)) < 256")
    case True
    then show ?thesis using queued_upd_p [OF p, of ?f] by (simp add: rt' q2)
  next
    case False
    then have "queued rt' = queued rt2 @ [k]" by (simp add: rt' queued_def)
    then show ?thesis using q2 by simp
  qed
  have f: "rt_AllGs rt' = rt_AllGs rt @ [g]" "rt_AllMs rt' = rt_AllMs rt" "rt_CompletedGs rt' = rt_CompletedGs rt"
    using s by (simp_all add: same_but_queues_def rt2_def)
  have "place_ok (rt_AllGs rt') (rt_AllMs rt') (mset (queued rt')) (rt_CompletedGs rt')"
    using place_spawn [OF pl x(1)] by (simp add: f q k_def)
  then show ?thesis
    using same_but_queues_bind [OF s b2] x(2) by (simp add: GMP_inv_def f g_work_def)
qed

lemma New_inv: "GMP_inv (NewGMPRuntime n r)" and New_work: "g_work (NewGMPRuntime n r) = 0"
proof -
  have "concat (map (\<lambda>i. []) xs) = []" for xs :: "nat list" by (induction xs) auto
  then show "GMP_inv (NewGMPRuntime n r)"
    by (auto simp: GMP_inv_def bind_ok_def place_ok_def NewGMPRuntime_def Let_def queued_def curs_def
        cur_ok_def new_thread_def comp_def)
  show "g_work (NewGMPRuntime n r) = 0" by (simp add: g_work_def NewGMPRuntime_def Let_def)
qed

fun ops_cost :: "gmp_op list \<Rightarrow> nat" where
  "ops_cost [] = 0"
| "ops_cost (Spawn _ w sys # ops) = spawn_cost w sys + ops_cost ops"
| "ops_cost (Tick _ # ops) = ops_cost ops"

lemma gmp_run_spec:
  "GMP_inv rt \<Longrightarrow> GMP_inv (gmp_run intn rt ops) \<and> g_work (gmp_run intn rt ops) \<le> g_work rt + ops_cost ops"
proof (induction intn rt ops rule: gmp_run.induct)
  case (2 intn rt name w sys ops)
  then show ?case using Spawn_spec [OF 2(2), of name w sys] by simp
next
  case (3 intn rt t ops)
  then show ?case using GMP_Step_spec [OF 3(2), of intn t] by fastforce
qed simp

lemma gmp_run_append: "gmp_run intn rt (xs @ ys) = gmp_run intn (gmp_run intn rt xs) ys"
  by (induction intn rt xs rule: gmp_run.induct) simp_all

lemma ticks_finish:
  "GMP_inv rt \<Longrightarrow> g_work rt \<le> length ts \<Longrightarrow>
     GMP_inv (gmp_run intn rt (map Tick ts)) \<and> g_work (gmp_run intn rt (map Tick ts)) = 0"
proof (induction ts arbitrary: rt)
  case (Cons t ts)
  then show ?case using GMP_Step_spec [OF Cons.prems(1), of intn t] Cons.IH [of "GMP_Step intn rt t"] by force
qed simp

text \<open>
  C14: no goroutine is ever lost or duplicated. Whatever goroutines are spawned and however many
  steps are made, for every number of processors and every random source, each goroutine is in
  exactly one of the run queues, the current slots of the threads and the completed list, and
  its status says which.
\<close>

theorem GMP_conserves:
  fixes intn gomaxprocs rng ops
  defines "rt \<equiv> gmp_run intn (NewGMPRuntime gomaxprocs rng) ops"
  shows "mset (queued rt @ curs (rt_AllMs rt) @ rt_CompletedGs rt) = mset [0..<length (rt_AllGs rt)] \<and>
     list_all (\<lambda>g. g_Status (rt_AllGs rt ! g) = GRunnable) (queued rt) \<and>
     list_all (\<lambda>g. g_Status (rt_AllGs rt ! g) = GDead) (rt_CompletedGs rt) \<and>
     list_all (\<lambda>m. case th_CurG m of None \<Rightarrow> \<not> th_IsBlocked m
        | Some g \<Rightarrow> g_Status (rt_AllGs rt ! g) = (if th_IsBlocked m then GSyscall else GRunning))
       (rt_AllMs rt)"
proof -
  have "GMP_inv rt" unfolding rt_def by (rule gmp_run_spec [OF New_inv, THEN conjunct1])
  then have pl: "place_ok (rt_AllGs rt) (rt_AllMs rt) (mset (queued rt)) (rt_CompletedGs rt)"
    by (simp add: GMP_inv_def)
  have "case th_CurG m of None \<Rightarrow> \<not> th_IsBlocked m
      | Some g \<Rightarrow> g_Status (rt_AllGs rt ! g) = (if th_IsBlocked m then GSyscall else GRunning)"
    if "m \<in> set (rt_AllMs rt)" for m
  proof -
    have "cur_ok (rt_AllGs rt) m" using pl that by (auto simp: place_ok_def in_set_conv_nth)
    then show ?thesis by (auto simp: cur_ok_def g_runs_def g_blocked_def split: option.splits)
  qed
  with pl show ?thesis by (simp add: place_ok_def list_all_iff g_waits_def add.assoc)
qed

text \<open>
  C13: every goroutine finishes. After any spawns and steps, as many further steps as the spawned
  goroutines cost (their work, one dispatch, and five for a system call) leave every goroutine
  dead and exactly once in the completed list; the work search of the idle processors, with the
  stealing from every victim, never leaves a runnable goroutine aside forever.
\<close>

theorem GMP_completes:
  fixes intn gomaxprocs rng ops ts
  assumes "ops_cost ops \<le> length (ts :: int list)"
  defines "rt \<equiv> gmp_run intn (NewGMPRuntime gomaxprocs rng) (ops @ map Tick ts)"
  shows "list_all (\<lambda>g. g_Status g = GDead) (rt_AllGs rt) \<and>
     mset (rt_CompletedGs rt) = mset [0..<length (rt_AllGs rt)]"
proof -
  let ?a = "gmp_run intn (NewGMPRuntime gomaxprocs rng) ops"
  have "GMP_inv ?a" "g_work ?a \<le> length ts"
    using gmp_run_spec [OF New_inv, of intn gomaxprocs rng ops] assms(1) by (auto simp: New_work)
  from ticks_finish [OF this, of intn] have i: "GMP_inv rt" "g_work rt = 0"
    by (simp_all add: rt_def gmp_run_append)
  have d: "g_Status x = GDead" if "x \<in> set (rt_AllGs rt)" for x
    using i(2) that by (simp add: g_work_0)
  have pl: "place_ok (rt_AllGs rt) (rt_AllMs rt) (mset (queued rt)) (rt_CompletedGs rt)"
    using i(1) by (simp add: GMP_inv_def)
  have dead: "g_Status (rt_AllGs rt ! g) = GDead" if "g < length (rt_AllGs rt)" for g using d that by simp
  have "g \<notin> set (queued rt)" "g \<notin> set (curs (rt_AllMs rt))" for g
  proof -
    have lt: "g < length (rt_AllGs rt)" if "g \<in> set (queued rt) \<or> g \<in> set (curs (rt_AllMs rt))"
      using place_distinct(1) [OF pl, of g] that by auto
    show "g \<notin> set (queued rt)" using pl dead lt by (auto simp: place_ok_def g_waits_def)
    show "g \<notin> set (curs (rt_AllMs rt))"
    proof
      assume c: "g \<in> set (curs (rt_AllMs rt))"
      then obtain m where m: "m < length (rt_AllMs rt)" "th_CurG (rt_AllMs rt ! m) = Some g"
        by (auto simp: in_curs_iff)
      then have "cur_ok (rt_AllGs rt) (rt_AllMs rt ! m)" using pl by (simp add: place_ok_def)
      then show False using dead lt c m(2) by (auto simp: cur_ok_def g_runs_def g_blocked_def split: if_splits)
    qed
  qed
  then have "queued rt = []" "curs (rt_AllMs rt) = []" by (metis list.set_intros(1) neq_Nil_conv)+
  then show ?thesis using pl d by (simp add: place_ok_def list_all_iff)
qed

theorem GMP_completes_witness:
  "list_all (\<lambda>g. g_Status g = GDead)
     (rt_AllGs (gmp_run (\<lambda>n r. (r mod n, r + 1)) (NewGMPRuntime 2 7)
        ([Spawn ''a'' 3 False, Tick 0, Spawn ''b'' 2 True] @ map Tick [1..12])))"
proof -
  have c: "ops_cost [Spawn ''a'' 3 False, Tick 0, Spawn ''b'' 2 True] \<le> length [1..(12::int)]"
    by code_simp
  show ?thesis
    using GMP_completes [OF c, of "\<lambda>n r. (r mod n, r + 1)" 2 "7::nat"] by blast
qed

text \<open>
  A thread whose system call has returned is never used again: a processor is never without a
  thread, so that \<open>acquireM\<close> is not called, and each system call creates a new thread.
\<close>

lemma bindM_never_acquires:
  assumes "GMP_inv rt" and "p < length (rt_AllPs rt)"
  shows "\<exists>m. bindM p rt = (Some m, rt)"
proof -
  from assms obtain m where "lp_BoundM (rt_AllPs rt ! p) = Some m"
    by (auto simp: GMP_inv_def elim: bound_thread)
  then show ?thesis by (simp add: bindM_def)
qed

end
