(* ===== verification/Bounded_Buffer.thy ===== *)
theory Bounded_Buffer
  imports Sync_Cond
begin

text \<open>
  \<open>pkg/concurrency/condvar.go\<close>: the condition variable \<open>CondVar\<close>, which keeps its own queue of
  channels, and the bounded buffer of the producer-consumer problem built on two of them. \<open>Put\<close>
  and \<open>Get\<close> hold the mutex \<open>mu\<close> from their start to their return except inside \<open>Wait\<close>, so a method
  runs from one of these points to the next as one step. A channel is named by the goroutine that
  waits on it. The step of a goroutine that has been woken is the return of \<open>Wait\<close> with the lock
  and the new test of the loop.
\<close>

section \<open>The condition variable\<close>

record CondVar =
  cv_waiters :: "nat list"

definition NewCondVar :: CondVar where
  "NewCondVar = \<lparr>cv_waiters = []\<rparr>"

text \<open>\<open>Wait\<close> up to the release of the lock, by goroutine \<open>i\<close>.\<close>

definition CV_Wait :: "nat \<Rightarrow> CondVar \<Rightarrow> CondVar" where
  "CV_Wait i cv = cv\<lparr>cv_waiters := cv_waiters cv @ [i]\<rparr>"

text \<open>\<open>Signal\<close> and \<open>Broadcast\<close> with the channels that they close.\<close>

definition CV_Signal :: "CondVar \<Rightarrow> CondVar \<times> nat list" where
  "CV_Signal cv =
     (if 0 < length (cv_waiters cv)
      then (cv\<lparr>cv_waiters := tl (cv_waiters cv)\<rparr>, [hd (cv_waiters cv)]) else (cv, []))"

definition CV_Broadcast :: "CondVar \<Rightarrow> CondVar \<times> nat list" where
  "CV_Broadcast cv = (cv\<lparr>cv_waiters := []\<rparr>, cv_waiters cv)"

section \<open>The bounded buffer\<close>

record BoundedBuffer =
  bb_capacity :: int
  bb_buffer :: "int list"
  bb_notFull :: CondVar
  bb_notEmpty :: CondVar

text \<open>A negative capacity makes \<open>make([]int, 0, capacity)\<close> panic.\<close>

definition NewBoundedBuffer :: "int \<Rightarrow> BoundedBuffer option" where
  "NewBoundedBuffer capacity =
     (if capacity < 0 then None
      else Some \<lparr>bb_capacity = capacity, bb_buffer = [], bb_notFull = NewCondVar,
                 bb_notEmpty = NewCondVar\<rparr>)"

text \<open>
  From the test of the loop to the return, or to the wait: the new buffer, the channels closed and
  whether the method has returned.
\<close>

definition Put :: "nat \<Rightarrow> int \<Rightarrow> BoundedBuffer \<Rightarrow> BoundedBuffer \<times> nat list \<times> bool" where
  "Put i item bb =
     (if int (length (bb_buffer bb)) = bb_capacity bb
      then (bb\<lparr>bb_notFull := CV_Wait i (bb_notFull bb)\<rparr>, [], False)
      else let bb1 = bb\<lparr>bb_buffer := bb_buffer bb @ [item]\<rparr>
           in case CV_Signal (bb_notEmpty bb1) of
                (cv, woken) \<Rightarrow> (bb1\<lparr>bb_notEmpty := cv\<rparr>, woken, True))"

definition Get :: "nat \<Rightarrow> BoundedBuffer \<Rightarrow> BoundedBuffer \<times> nat list \<times> int option" where
  "Get i bb =
     (if length (bb_buffer bb) = 0
      then (bb\<lparr>bb_notEmpty := CV_Wait i (bb_notEmpty bb)\<rparr>, [], None)
      else let item = hd (bb_buffer bb);
               bb1 = bb\<lparr>bb_buffer := tl (bb_buffer bb)\<rparr>
           in case CV_Signal (bb_notFull bb1) of
                (cv, woken) \<Rightarrow> (bb1\<lparr>bb_notFull := cv\<rparr>, woken, Some item))"

section \<open>Goroutines\<close>

datatype bb_thread =
  PStart int | PWait int | PAwake int | PDone | GStart | GWait | GAwake | GDone int

record bb_system =
  bs_bb :: BoundedBuffer
  bs_threads :: "bb_thread list"
  bs_in :: "int list"
  bs_out :: "int list"

fun bb_wake :: "bb_thread \<Rightarrow> bb_thread" where
  "bb_wake (PWait x) = PAwake x"
| "bb_wake GWait = GAwake"
| "bb_wake t = t"

definition close_chans :: "nat list \<Rightarrow> bb_thread list \<Rightarrow> bb_thread list" where
  "close_chans cs ts = foldl (\<lambda>ts i. ts[i := bb_wake (ts ! i)]) ts cs"

definition run_put :: "nat \<Rightarrow> int \<Rightarrow> bb_system \<Rightarrow> bb_system" where
  "run_put i x s = (case Put i x (bs_bb s) of (bb, woken, done) \<Rightarrow>
     s\<lparr>bs_bb := bb,
       bs_threads := close_chans woken ((bs_threads s)[i := (if done then PDone else PWait x)]),
       bs_in := (if done then bs_in s @ [x] else bs_in s)\<rparr>)"

definition run_get :: "nat \<Rightarrow> bb_system \<Rightarrow> bb_system" where
  "run_get i s = (case Get i (bs_bb s) of (bb, woken, r) \<Rightarrow>
     s\<lparr>bs_bb := bb,
       bs_threads := close_chans woken
         ((bs_threads s)[i := (case r of Some x \<Rightarrow> GDone x | None \<Rightarrow> GWait)]),
       bs_out := (case r of Some x \<Rightarrow> bs_out s @ [x] | None \<Rightarrow> bs_out s)\<rparr>)"

text \<open>A step of goroutine \<open>i\<close>; \<^const>\<open>None\<close> when it waits or has returned.\<close>

definition bb_step :: "nat \<Rightarrow> bb_system \<Rightarrow> bb_system option" where
  "bb_step i s =
     (if i < length (bs_threads s)
      then case bs_threads s ! i of
             PStart x \<Rightarrow> Some (run_put i x s)
           | PAwake x \<Rightarrow> Some (run_put i x s)
           | GStart \<Rightarrow> Some (run_get i s)
           | GAwake \<Rightarrow> Some (run_get i s)
           | _ \<Rightarrow> None
      else None)"

fun bb_exec :: "nat list \<Rightarrow> bb_system \<Rightarrow> bb_system option" where
  "bb_exec [] s = Some s"
| "bb_exec (i # is) s = (case bb_step i s of None \<Rightarrow> None | Some s' \<Rightarrow> bb_exec is s')"

definition bb_init :: "BoundedBuffer \<Rightarrow> bb_thread list \<Rightarrow> bb_system" where
  "bb_init bb ts = \<lparr>bs_bb = bb, bs_threads = ts, bs_in = [], bs_out = []\<rparr>"

fun bb_fresh :: "bb_thread \<Rightarrow> bool" where
  "bb_fresh (PStart x) = True"
| "bb_fresh GStart = True"
| "bb_fresh _ = False"

fun put_waits :: "bb_thread \<Rightarrow> bool" where
  "put_waits (PWait x) = True"
| "put_waits _ = False"

fun get_waits :: "bb_thread \<Rightarrow> bool" where
  "get_waits GWait = True"
| "get_waits _ = False"

fun put_awake :: "bb_thread \<Rightarrow> bool" where
  "put_awake (PAwake x) = True"
| "put_awake _ = False"

fun get_awake :: "bb_thread \<Rightarrow> bool" where
  "get_awake GAwake = True"
| "get_awake _ = False"

section \<open>No signal is lost\<close>

text \<open>
  \<open>Signal\<close> is one of the choices that the contract of a condition variable leaves open, so the
  counting lemmas of the contract apply to the two queues.
\<close>

interpretation bbEmpty: cond_var get_waits bb_wake get_awake
  by unfold_locales (auto elim: get_waits.elims)

interpretation bbFull: cond_var put_waits bb_wake put_awake
  by unfold_locales (auto elim: put_waits.elims)

text \<open>The queue of a condition variable holds the goroutines that wait on it, each once.\<close>

definition waiters_ok :: "(bb_thread \<Rightarrow> bool) \<Rightarrow> CondVar \<Rightarrow> bb_thread list \<Rightarrow> bool" where
  "waiters_ok w cv ts \<longleftrightarrow> distinct (cv_waiters cv) \<and>
     (\<forall>i. i \<in> set (cv_waiters cv) \<longleftrightarrow> i < length ts \<and> w (ts ! i))"

lemma CV_Signal_spec:
  assumes "waiters_ok w cv ts" and "CV_Signal cv = (cv', cs)"
    and wake: "\<And>t. w t \<Longrightarrow> \<not> w (bb_wake t)"
  shows "waiters_ok w cv' (close_chans cs ts)" and "signals w bb_wake 1 ts (close_chans cs ts)"
proof -
  have d: "distinct (cv_waiters cv)" and m: "\<And>i. i \<in> set (cv_waiters cv) \<longleftrightarrow> i < length ts \<and> w (ts ! i)"
    using assms(1) by (simp_all add: waiters_ok_def)
  show "waiters_ok w cv' (close_chans cs ts)"
  proof (cases "cv_waiters cv")
    case Nil
    then show ?thesis using assms(1,2) by (simp add: CV_Signal_def close_chans_def)
  next
    case (Cons i q)
    then have e: "cv_waiters cv' = q" "cs = [i]" using assms(2) by (auto simp: CV_Signal_def)
    have "i < length ts" "w (ts ! i)" using m [of i] Cons by auto
    moreover have "k \<in> set q \<longleftrightarrow> k < length ts \<and> w (ts[i := bb_wake (ts ! i)] ! k)" for k
      using m [of k] d Cons wake calculation by (cases "k = i") auto
    ultimately show ?thesis using d Cons e by (simp add: waiters_ok_def close_chans_def)
  qed
  show "signals w bb_wake 1 ts (close_chans cs ts)"
  proof (cases "cv_waiters cv")
    case Nil
    then have "\<forall>t\<in>set ts. \<not> w t" using m by (auto simp: in_set_conv_nth)
    moreover have "cs = []" using assms(2) Nil by (simp add: CV_Signal_def)
    ultimately show ?thesis by (simp add: close_chans_def signals_nobody)
  next
    case (Cons i q)
    then have "cs = [i]" using assms(2) by (auto simp: CV_Signal_def)
    moreover have "i < length ts" "w (ts ! i)" using m [of i] Cons by auto
    ultimately show ?thesis
      using signals_wake [of i ts w bb_wake 0, OF _ _ signals_zero] by (simp add: close_chans_def)
  qed
qed

lemma CV_Wait_ok:
  assumes "waiters_ok w cv ts" and "i < length ts" and "\<not> w (ts ! i)" and "w t"
  shows "waiters_ok w (CV_Wait i cv) (ts[i := t])"
proof -
  have m: "\<And>k. k \<in> set (cv_waiters cv) \<longleftrightarrow> k < length ts \<and> w (ts ! k)"
    and d: "distinct (cv_waiters cv)" using assms(1) by (simp_all add: waiters_ok_def)
  have "k \<in> set (cv_waiters cv @ [i]) \<longleftrightarrow> k < length ts \<and> w (ts[i := t] ! k)" for k
    using m [of k] assms(2-4) by (cases "k = i") auto
  with d m [of i] assms(3) show ?thesis by (simp add: waiters_ok_def CV_Wait_def)
qed

lemma waiters_other:
  assumes "waiters_ok w cv ts" and "i < length ts" and "w (ts ! i) = w t"
  shows "waiters_ok w cv (ts[i := t])"
proof -
  have "k < length ts \<Longrightarrow> w (ts[i := t] ! k) = w (ts ! k)" for k
    using assms(3) by (cases "k = i") auto
  with assms(1) show ?thesis by (auto simp: waiters_ok_def)
qed

lemma CV_Signal_other:
  assumes "waiters_ok w' cv' ts" and "CV_Signal cv' = (cv1, cs)" and "waiters_ok w cv ts"
    and "\<And>t. w' t \<Longrightarrow> w (bb_wake t) = w t"
  shows "waiters_ok w cv (close_chans cs ts)"
proof (cases "cv_waiters cv'")
  case Nil
  then show ?thesis using assms(2,3) by (simp add: CV_Signal_def close_chans_def)
next
  case (Cons i q)
  then have "cs = [i]" using assms(2) by (auto simp: CV_Signal_def)
  moreover have "i < length ts" "w' (ts ! i)" using assms(1) Cons by (auto simp: waiters_ok_def)
  ultimately show ?thesis
    using waiters_other [OF assms(3), of i] assms(4) by (simp add: close_chans_def)
qed

definition bb_ok :: "bb_system \<Rightarrow> bool" where
  "bb_ok s \<longleftrightarrow>
     (let bb = bs_bb s; ts = bs_threads s; n = int (length (bb_buffer bb))
      in n \<le> bb_capacity bb \<and> bs_in s = bs_out s @ bb_buffer bb \<and>
         waiters_ok put_waits (bb_notFull bb) ts \<and> waiters_ok get_waits (bb_notEmpty bb) ts \<and>
         (0 < cnt get_waits ts \<longrightarrow> n \<le> int (cnt get_awake ts)) \<and>
         (0 < cnt put_waits ts \<longrightarrow> bb_capacity bb - n \<le> int (cnt put_awake ts)))"

lemma wake_kinds:
  "get_waits t \<Longrightarrow> put_waits (bb_wake t) = put_waits t" "get_waits t \<Longrightarrow> put_awake (bb_wake t) = put_awake t"
  "put_waits t \<Longrightarrow> get_waits (bb_wake t) = get_waits t" "put_waits t \<Longrightarrow> get_awake (bb_wake t) = get_awake t"
  "get_waits t \<Longrightarrow> \<not> get_waits (bb_wake t)" "put_waits t \<Longrightarrow> \<not> put_waits (bb_wake t)"
  by (auto elim: get_waits.elims put_waits.elims)

lemma run_put_ok:
  assumes "bb_ok s" and i: "i < length (bs_threads s)"
    and t: "bs_threads s ! i = PStart x \<or> bs_threads s ! i = PAwake x"
  shows "bb_ok (run_put i x s)"
proof -
  let ?bb = "bs_bb s" and ?ts = "bs_threads s"
  note inv = assms(1) [unfolded bb_ok_def Let_def]
  have k: "\<not> put_waits (?ts ! i)" "\<not> get_waits (?ts ! i)" "\<not> get_awake (?ts ! i)" using t by auto
  show ?thesis
  proof (cases "int (length (bb_buffer ?bb)) = bb_capacity ?bb")
    case True
    let ?u = "?ts[i := PWait x]"
    have "cnt get_waits ?u = cnt get_waits ?ts" "cnt get_awake ?u = cnt get_awake ?ts"
      using cnt_update [OF i, of get_waits "PWait x"] cnt_update [OF i, of get_awake "PWait x"] k by auto
    moreover have "waiters_ok put_waits (CV_Wait i (bb_notFull ?bb)) ?u"
      using CV_Wait_ok [of put_waits "bb_notFull ?bb" ?ts i "PWait x"] i k inv by simp
    moreover have "waiters_ok get_waits (bb_notEmpty ?bb) ?u" using waiters_other [OF _ i] inv k by simp
    moreover have "run_put i x s = s\<lparr>bs_bb := ?bb\<lparr>bb_notFull := CV_Wait i (bb_notFull ?bb)\<rparr>, bs_threads := ?u\<rparr>"
      using True by (simp add: run_put_def Put_def close_chans_def)
    ultimately show ?thesis using inv True by (auto simp: bb_ok_def Let_def)
  next
    case False
    let ?u = "?ts[i := PDone]"
    obtain cv cs where cv: "CV_Signal (bb_notEmpty ?bb) = (cv, cs)" by fastforce
    let ?v = "close_chans cs ?u"
    have w: "waiters_ok get_waits (bb_notEmpty ?bb) ?u" "waiters_ok put_waits (bb_notFull ?bb) ?u"
      using waiters_other [OF _ i] inv k by simp_all
    note S = CV_Signal_spec [OF w(1) cv wake_kinds(5)]
    have run: "run_put i x s = s\<lparr>bs_bb := ?bb\<lparr>bb_buffer := bb_buffer ?bb @ [x], bb_notEmpty := cv\<rparr>,
        bs_threads := ?v, bs_in := bs_in s @ [x]\<rparr>"
      using False cv by (simp add: run_put_def Put_def Let_def)
    have put: "cnt put_waits ?v = cnt put_waits ?ts" "cnt put_awake ?ts \<le> cnt put_awake ?v + 1"
      using signals_keep [OF S(2), of put_waits] signals_keep [OF S(2), of put_awake] wake_kinds(1,2)
        cnt_update [OF i, of put_waits PDone] cnt_update [OF i, of put_awake PDone] k by (auto split: if_splits)
    have get: "cnt get_awake ?v = cnt get_awake ?ts + 1 \<and> 0 < cnt get_waits ?ts" if "0 < cnt get_waits ?v"
      using bbEmpty.signals_woken [OF S(2) that] bbEmpty.signals_fewer [OF S(2)] that
        cnt_update [OF i, of get_awake PDone] cnt_update [OF i, of get_waits PDone] k by simp
    have "waiters_ok put_waits (bb_notFull ?bb) ?v"
      by (rule CV_Signal_other [OF w(1) cv w(2) wake_kinds(1)])
    then show ?thesis using inv False S(1) put get by (auto simp: bb_ok_def Let_def run)
  qed
qed

lemma run_get_ok:
  assumes "bb_ok s" and i: "i < length (bs_threads s)"
    and t: "bs_threads s ! i = GStart \<or> bs_threads s ! i = GAwake"
  shows "bb_ok (run_get i s)"
proof -
  let ?bb = "bs_bb s" and ?ts = "bs_threads s"
  note inv = assms(1) [unfolded bb_ok_def Let_def]
  have k: "\<not> get_waits (?ts ! i)" "\<not> put_waits (?ts ! i)" "\<not> put_awake (?ts ! i)" using t by auto
  show ?thesis
  proof (cases "bb_buffer ?bb")
    case Nil
    let ?u = "?ts[i := GWait]"
    have "cnt put_waits ?u = cnt put_waits ?ts" "cnt put_awake ?u = cnt put_awake ?ts"
      using cnt_update [OF i, of put_waits GWait] cnt_update [OF i, of put_awake GWait] k by auto
    moreover have "waiters_ok get_waits (CV_Wait i (bb_notEmpty ?bb)) ?u"
      using CV_Wait_ok [of get_waits "bb_notEmpty ?bb" ?ts i GWait] i k inv by simp
    moreover have "waiters_ok put_waits (bb_notFull ?bb) ?u" using waiters_other [OF _ i] inv k by simp
    moreover have "run_get i s = s\<lparr>bs_bb := ?bb\<lparr>bb_notEmpty := CV_Wait i (bb_notEmpty ?bb)\<rparr>, bs_threads := ?u\<rparr>"
      using Nil by (simp add: run_get_def Get_def close_chans_def)
    ultimately show ?thesis using inv Nil by (simp add: bb_ok_def Let_def)
  next
    case (Cons x q)
    let ?u = "?ts[i := GDone x]"
    obtain cv cs where cv: "CV_Signal (bb_notFull ?bb) = (cv, cs)" by fastforce
    let ?v = "close_chans cs ?u"
    have w: "waiters_ok put_waits (bb_notFull ?bb) ?u" "waiters_ok get_waits (bb_notEmpty ?bb) ?u"
      using waiters_other [OF _ i] inv k by simp_all
    note S = CV_Signal_spec [OF w(1) cv wake_kinds(6)]
    have run: "run_get i s = s\<lparr>bs_bb := ?bb\<lparr>bb_buffer := q, bb_notFull := cv\<rparr>,
        bs_threads := ?v, bs_out := bs_out s @ [x]\<rparr>"
      using Cons cv by (simp add: run_get_def Get_def Let_def)
    have get: "cnt get_waits ?v = cnt get_waits ?ts" "cnt get_awake ?ts \<le> cnt get_awake ?v + 1"
      using signals_keep [OF S(2), of get_waits] signals_keep [OF S(2), of get_awake] wake_kinds(3,4)
        cnt_update [OF i, of get_waits "GDone x"] cnt_update [OF i, of get_awake "GDone x"] k
      by (auto split: if_splits)
    have put: "cnt put_awake ?v = cnt put_awake ?ts + 1 \<and> 0 < cnt put_waits ?ts" if "0 < cnt put_waits ?v"
      using bbFull.signals_woken [OF S(2) that] bbFull.signals_fewer [OF S(2)] that
        cnt_update [OF i, of put_awake "GDone x"] cnt_update [OF i, of put_waits "GDone x"] k by simp
    have "waiters_ok get_waits (bb_notEmpty ?bb) ?v"
      by (rule CV_Signal_other [OF w(1) cv w(2) wake_kinds(3)])
    then show ?thesis using inv Cons S(1) put get by (auto simp: bb_ok_def Let_def run)
  qed
qed

lemma bb_step_ok:
  assumes "bb_ok s" and "bb_step i s = Some s'"
  shows "bb_ok s' \<and> bb_capacity (bs_bb s') = bb_capacity (bs_bb s)"
proof -
  have c: "bb_capacity (bs_bb (run_put i x s)) = bb_capacity (bs_bb s)"
    "bb_capacity (bs_bb (run_get i s)) = bb_capacity (bs_bb s)" for x
    by (simp_all add: run_put_def run_get_def Put_def Get_def Let_def split: prod.split)
  have "i < length (bs_threads s)" using assms(2) by (simp add: bb_step_def split: if_splits)
  with assms run_put_ok [OF assms(1), of i] run_get_ok [OF assms(1), of i] c show ?thesis
    by (auto simp: bb_step_def split: bb_thread.splits)
qed

lemma bb_exec_ok:
  "bb_exec is s = Some s' \<Longrightarrow> bb_ok s \<Longrightarrow> bb_ok s' \<and> bb_capacity (bs_bb s') = bb_capacity (bs_bb s)"
proof (induction "is" arbitrary: s)
  case (Cons i "is")
  then obtain s1 where s1: "bb_step i s = Some s1" "bb_exec is s1 = Some s'"
    by (auto split: option.splits)
  from Cons.IH [OF s1(2)] bb_step_ok [OF Cons.prems(2) s1(1)] show ?case by simp
qed simp

lemma bb_init_ok:
  assumes "NewBoundedBuffer c = Some bb" and "list_all bb_fresh ts"
  shows "bb_ok (bb_init bb ts)"
proof -
  have t: "\<not> put_waits t \<and> \<not> get_waits t" if "t \<in> set ts" for t
    using assms(2) that by (cases t) (auto simp: list_all_iff)
  then have "cnt put_waits ts = 0" "cnt get_waits ts = 0" by (auto simp: cnt_zero)
  moreover have "waiters_ok put_waits NewCondVar ts" "waiters_ok get_waits NewCondVar ts"
    using t by (auto simp: waiters_ok_def NewCondVar_def)
  moreover have "bb = \<lparr>bb_capacity = c, bb_buffer = [], bb_notFull = NewCondVar, bb_notEmpty = NewCondVar\<rparr>"
    "0 \<le> c" using assms(1) by (auto simp: NewBoundedBuffer_def split: if_splits)
  ultimately show ?thesis by (simp add: bb_ok_def Let_def bb_init_def)
qed

text \<open>A goroutine that is at its start or has been woken can move.\<close>

lemma bb_stuckD:
  assumes "\<forall>i. bb_step i s = None" and "i < length (bs_threads s)"
  shows "\<not> put_awake (bs_threads s ! i)" and "\<not> get_awake (bs_threads s ! i)"
  using assms(1) [THEN spec, of i] assms(2)
  by (auto simp: bb_step_def split: bb_thread.splits)



end
