(* ===== verification/Race_Demo.thy ===== *)
theory Race_Demo
  imports Go_Prelude
begin

text \<open>
  \<open>pkg/concurrency/race_demo.go\<close>: goroutines that increment a shared counter without and with an
  atomic instruction, and the counters of \<open>pkg/parallelism/comparison.go\<close>, which are incremented
  under a mutex and atomically. A schedule is the list of the goroutines in the order in which they
  make their steps: the load and the store of an unsynchronised increment are two steps, an atomic
  increment and a critical section are one. \<open>wg.Wait\<close> returns when every goroutine has made all
  its iterations.
\<close>

section \<open>The demonstration\<close>

record RaceResult =
  rr_IterationsPerGoroutine :: int
  rr_NumGoroutines :: int
  rr_ExpectedValue :: int
  rr_UnsafeActualValue :: int
  rr_SafeActualValue :: int
  rr_LostUpdates :: int

text \<open>The iterations done and the local variable \<open>temp\<close>, which is set between load and store.\<close>

record racer =
  rc_done :: int
  rc_temp :: "int option"

record race_state =
  rs_counter :: int
  rs_racers :: "racer list"

definition race_start :: "int \<Rightarrow> race_state" where
  "race_start n = \<lparr>rs_counter = 0, rs_racers = replicate (nat n) \<lparr>rc_done = 0, rc_temp = None\<rparr>\<rparr>"

definition unsafe_step :: "int \<Rightarrow> nat \<Rightarrow> race_state \<Rightarrow> race_state option" where
  "unsafe_step iters i s =
     (if i < length (rs_racers s) \<and> rc_done (rs_racers s ! i) < iters
      then let r = rs_racers s ! i
           in Some (case rc_temp r of
                None \<Rightarrow> s\<lparr>rs_racers := (rs_racers s)[i := r\<lparr>rc_temp := Some (rs_counter s)\<rparr>]\<rparr>
              | Some temp \<Rightarrow>
                  s\<lparr>rs_counter := go_int (temp + 1),
                    rs_racers := (rs_racers s)[i := \<lparr>rc_done = rc_done r + 1, rc_temp = None\<rparr>]\<rparr>)
      else None)"

text \<open>An increment that nothing can interleave with.\<close>

definition safe_step :: "int \<Rightarrow> nat \<Rightarrow> race_state \<Rightarrow> race_state option" where
  "safe_step iters i s =
     (if i < length (rs_racers s) \<and> rc_done (rs_racers s ! i) < iters
      then let r = rs_racers s ! i
           in Some (s\<lparr>rs_counter := go_int (rs_counter s + 1),
                      rs_racers := (rs_racers s)[i := r\<lparr>rc_done := rc_done r + 1\<rparr>]\<rparr>)
      else None)"

fun race_run :: "(nat \<Rightarrow> race_state \<Rightarrow> race_state option) \<Rightarrow> nat list \<Rightarrow> race_state \<Rightarrow> race_state option" where
  "race_run step [] s = Some s"
| "race_run step (i # is) s = (case step i s of None \<Rightarrow> None | Some s' \<Rightarrow> race_run step is s')"

definition race_over :: "int \<Rightarrow> race_state \<Rightarrow> bool" where
  "race_over iters s \<longleftrightarrow> list_all (\<lambda>r. iters \<le> rc_done r) (rs_racers s)"

text \<open>
  The counter after \<open>wg.Wait()\<close>; \<^const>\<open>None\<close> if the schedule is not one of a complete run. A
  negative number of goroutines makes \<open>wg.Add\<close> panic.
\<close>

definition race_counter ::
  "(int \<Rightarrow> nat \<Rightarrow> race_state \<Rightarrow> race_state option) \<Rightarrow> int \<Rightarrow> int \<Rightarrow> nat list \<Rightarrow> int option" where
  "race_counter step n iters sched =
     (if n < 0 then None
      else case race_run (step iters) sched (race_start n) of
        None \<Rightarrow> None
      | Some s \<Rightarrow> if race_over iters s then Some (rs_counter s) else None)"

definition RunDataRaceDemo :: "int \<Rightarrow> int \<Rightarrow> nat list \<Rightarrow> nat list \<Rightarrow> RaceResult option" where
  "RunDataRaceDemo numGoroutines iters sched1 sched2 =
     (case race_counter unsafe_step numGoroutines iters sched1 of
        None \<Rightarrow> None
      | Some unsafeCounter \<Rightarrow>
          (case race_counter safe_step numGoroutines iters sched2 of
             None \<Rightarrow> None
           | Some safeCounter \<Rightarrow>
               let expected = go_int (numGoroutines * iters); lost = go_int (expected - unsafeCounter)
               in Some \<lparr>rr_IterationsPerGoroutine = iters, rr_NumGoroutines = numGoroutines,
                        rr_ExpectedValue = expected, rr_UnsafeActualValue = unsafeCounter,
                        rr_SafeActualValue = safeCounter, rr_LostUpdates = lost\<rparr>))"

text \<open>The two counters of the comparison benchmark; \<open>iters/10\<close> truncates towards zero.\<close>

definition contendedCounter :: "int \<Rightarrow> int \<Rightarrow> nat list \<Rightarrow> int option" where
  "contendedCounter taskCount iters sched =
     race_counter safe_step taskCount (if iters < 0 then - (- iters div 10) else iters div 10) sched"

definition atomicCounter :: "int \<Rightarrow> int \<Rightarrow> nat list \<Rightarrow> int option" where
  "atomicCounter taskCount iters sched =
     race_counter safe_step taskCount (if iters < 0 then - (- iters div 10) else iters div 10) sched"

section \<open>What the schedules can do\<close>

definition total_done :: "race_state \<Rightarrow> int" where
  "total_done s = (\<Sum>r\<leftarrow>rs_racers s. rc_done r)"

lemma go_int_add_left: "go_int (go_int x + y) = go_int (x + y)"
proof -
  have "(go_int x + y + 2 ^ 63) mod 2 ^ 64 = (x + y + 2 ^ 63) mod 2 ^ 64"
    unfolding go_int_def by (simp add: mod_simps) (simp add: algebra_simps)
  then show ?thesis by (simp only: go_int_def)
qed

lemma sum_list_update_done:
  "i < length rs \<Longrightarrow>
     (\<Sum>r\<leftarrow>rs[i := x]. rc_done r) = (\<Sum>r\<leftarrow>rs. rc_done r) - rc_done (rs ! i) + rc_done x"
  by (induction rs arbitrary: i) (auto split: nat.split)

lemma race_run_invariant:
  assumes "race_run step is s = Some s'" and "P s"
    and "\<And>i s s'. P s \<Longrightarrow> step i s = Some s' \<Longrightarrow> P s'"
  shows "P s'"
  using assms(1,2)
proof (induction "is" arbitrary: s)
  case (Cons i "is")
  then obtain s1 where "step i s = Some s1" "race_run step is s1 = Some s'"
    by (auto split: option.splits)
  with Cons assms(3) show ?case by blast
qed simp

text \<open>
  The store of a goroutine that has made an iteration before writes at least two, because the
  counter is never zero again after a store; and nothing ever exceeds the iterations made.
\<close>

definition racer_ok :: "int \<Rightarrow> int \<Rightarrow> racer \<Rightarrow> bool" where
  "racer_ok iters n r \<longleftrightarrow> 0 \<le> rc_done r \<and> rc_done r \<le> iters \<and>
     (case rc_temp r of None \<Rightarrow> True | Some v \<Rightarrow> 0 \<le> v \<and> v \<le> n \<and> (0 < rc_done r \<longrightarrow> 0 < v))"

definition unsafe_inv :: "int \<Rightarrow> nat \<Rightarrow> race_state \<Rightarrow> bool" where
  "unsafe_inv iters n s \<longleftrightarrow> int n * iters < 2 ^ 63 \<and> length (rs_racers s) = n \<and> 0 \<le> rs_counter s \<and> rs_counter s \<le> total_done s \<and>
     (\<forall>r\<in>set (rs_racers s). racer_ok iters (total_done s) r) \<and>
     (0 < total_done s \<longrightarrow> 0 < rs_counter s) \<and>
     (2 \<le> rs_counter s \<or> n = 0 \<or> (\<exists>r\<in>set (rs_racers s). rc_done r \<le> 1))"

lemma done_le_total:
  assumes "\<forall>r\<in>set rs. 0 \<le> rc_done r" and "(r::racer) \<in> set rs"
  shows "rc_done r \<le> (\<Sum>r\<leftarrow>rs. rc_done r)"
  using assms
proof (induction rs)
  case (Cons a rs)
  have "0 \<le> (\<Sum>r\<leftarrow>rs. rc_done r)" using Cons.prems(1) by (intro sum_list_nonneg) auto
  with Cons show ?case by fastforce
qed simp

lemma total_le:
  assumes "\<forall>r\<in>set (rs_racers s). rc_done r \<le> iters"
  shows "total_done s \<le> int (length (rs_racers s)) * iters"
proof -
  have "(\<Sum>r\<leftarrow>rs. rc_done r) \<le> int (length rs) * iters" if "\<forall>r\<in>set rs. rc_done r \<le> iters" for rs
    using that by (induction rs) (auto simp: algebra_simps)
  with assms show ?thesis by (simp add: total_done_def)
qed

lemma racer_ok_mono: "racer_ok iters t r \<Longrightarrow> t \<le> t' \<Longrightarrow> racer_ok iters t' r"
  by (auto simp: racer_ok_def split: option.splits)

lemma racers_update:
  "\<forall>r\<in>set rs. racer_ok iters t r \<Longrightarrow> t \<le> t' \<Longrightarrow> racer_ok iters t' x \<Longrightarrow>
     \<forall>r\<in>set (rs[i := x]). racer_ok iters t' r"
  using set_update_subset_insert [of rs i x] racer_ok_mono by blast

lemma unsafe_step_inv:
  assumes "unsafe_inv iters n s" and "unsafe_step iters i s = Some s'"
  shows "unsafe_inv iters n s'"
proof -
  define r where "r = rs_racers s ! i"
  have i: "i < length (rs_racers s)" "rc_done r < iters"
    using assms(2) by (auto simp: unsafe_step_def r_def split: if_splits)
  have r: "r \<in> set (rs_racers s)" using i(1) by (simp add: r_def)
  note inv = assms(1) [unfolded unsafe_inv_def]
  have ok: "\<forall>r\<in>set (rs_racers s). racer_ok iters (total_done s) r" using inv by blast
  then have rr: "racer_ok iters (total_done s) r" using r by blast
  have tot: "total_done (s\<lparr>rs_racers := (rs_racers s)[i := x]\<rparr>) = total_done s - rc_done r + rc_done x" for x
    using sum_list_update_done [OF i(1)] by (simp add: total_done_def r_def)
  show ?thesis
  proof (cases "rc_temp r")
    case None
    let ?x = "r\<lparr>rc_temp := Some (rs_counter s)\<rparr>"
    have s': "s' = s\<lparr>rs_racers := (rs_racers s)[i := ?x]\<rparr>"
      using assms(2) None i by (simp add: unsafe_step_def r_def)
    have t: "total_done s' = total_done s" using tot [of ?x] by (simp add: s')
    have "rc_done r \<le> total_done s"
      unfolding total_done_def by (rule done_le_total) (use ok r in \<open>auto simp: racer_ok_def\<close>)
    then have "racer_ok iters (total_done s) ?x" using inv rr by (simp add: racer_ok_def)
    then have all: "\<forall>q\<in>set (rs_racers s'). racer_ok iters (total_done s) q"
      unfolding s' using racers_update [OF ok order_refl] by simp
    have low: "2 \<le> rs_counter s \<or> n = 0 \<or> (\<exists>q\<in>set (rs_racers s'). rc_done q \<le> 1)"
    proof -
      have "\<exists>q\<in>set (rs_racers s'). rc_done q \<le> 1" if q: "q \<in> set (rs_racers s)" "rc_done q \<le> 1" for q
      proof -
        obtain k where k: "k < length (rs_racers s)" "rs_racers s ! k = q" using q(1) by (auto simp: in_set_conv_nth)
        have "rc_done (rs_racers s' ! k) = rc_done q"
          using k i(1) by (cases "k = i") (simp_all add: s' r_def)
        then show ?thesis using k q(2) by (intro bexI [of _ "rs_racers s' ! k"]) (simp_all add: s')
      qed
      then show ?thesis using inv by blast
    qed
    show ?thesis using inv low t all by (simp add: unsafe_inv_def s')
  next
    case (Some v)
    let ?x = "\<lparr>rc_done = rc_done r + 1, rc_temp = None\<rparr>"
    have v: "0 \<le> v" "v \<le> total_done s" "0 < rc_done r \<longrightarrow> 0 < v" "0 \<le> rc_done r"
      using rr Some by (auto simp: racer_ok_def)
    have "rc_done q \<le> iters" if "q \<in> set ((rs_racers s)[i := ?x])" for q
      using set_update_subset_insert [of "rs_racers s" i ?x] that ok i(2) by (auto simp: racer_ok_def)
    then have "total_done (s\<lparr>rs_racers := (rs_racers s)[i := ?x]\<rparr>) \<le> int n * iters"
      using total_le [of "s\<lparr>rs_racers := (rs_racers s)[i := ?x]\<rparr>" iters] inv by simp
    then have "go_int (v + 1) = v + 1" using tot [of ?x] v inv by (intro go_int_exact) (simp add: int64_def)
    then have s': "s' = s\<lparr>rs_counter := v + 1, rs_racers := (rs_racers s)[i := ?x]\<rparr>"
      using assms(2) Some i by (simp add: unsafe_step_def r_def)
    have t: "total_done s' = total_done s + 1" using tot [of ?x] by (simp add: s' total_done_def)
    have x: "?x \<in> set (rs_racers s')" using i(1) by (simp add: s' set_update_memI)
    have "2 \<le> v + 1 \<or> n = 0 \<or> (\<exists>q\<in>set (rs_racers s'). rc_done q \<le> 1)"
    proof (cases "rc_done r = 0")
      case True
      then show ?thesis using x by (intro disjI2 bexI [of _ ?x]) simp_all
    next
      case False
      then show ?thesis using v by auto
    qed
    moreover have "racer_ok iters (total_done s + 1) ?x" using v(4) i(2) by (simp add: racer_ok_def)
    then have "\<forall>q\<in>set (rs_racers s'). racer_ok iters (total_done s + 1) q"
      unfolding s' using racers_update [OF ok, of "total_done s + 1"] by simp
    ultimately show ?thesis using inv t v by (simp add: unsafe_inv_def s')
  qed
qed

lemma unsafe_inv_start: "0 \<le> iters \<Longrightarrow> int (nat n) * iters < 2 ^ 63 \<Longrightarrow> unsafe_inv iters (nat n) (race_start n)"
  by (auto simp: unsafe_inv_def racer_ok_def race_start_def total_done_def sum_list_replicate)

lemma unsafe_counter_bounds:
  assumes "race_counter unsafe_step n iters sched = Some c" and "0 \<le> iters" and "n * iters < 2 ^ 63"
  shows "0 \<le> n" and "c \<le> n * iters" and "2 \<le> iters \<Longrightarrow> 0 < n \<Longrightarrow> 2 \<le> c"
proof -
  show n: "0 \<le> n" using assms(1) by (auto simp: race_counter_def split: if_splits)
  obtain s where s: "race_run (unsafe_step iters) sched (race_start n) = Some s" "race_over iters s"
    "c = rs_counter s"
    using assms(1) by (auto simp: race_counter_def split: if_splits option.splits)
  have start: "unsafe_inv iters (nat n) (race_start n)"
    using unsafe_inv_start [OF assms(2), of n] n assms(3) by simp
  have "unsafe_inv iters (nat n) s"
    using race_run_invariant [OF s(1), of "unsafe_inv iters (nat n)"] start unsafe_step_inv by blast
  note inv = this [unfolded unsafe_inv_def]
  have "\<forall>r\<in>set (rs_racers s). rc_done r = iters"
    using inv s(2) by (auto simp: race_over_def list_all_iff racer_ok_def intro: order.antisym)
  then have d: "map rc_done (rs_racers s) = replicate (nat n) iters"
    using inv by (intro replicate_eqI) auto
  have "total_done s = n * iters" unfolding total_done_def d using n by (simp add: sum_list_replicate)
  then show "c \<le> n * iters" using inv s(3) by simp
  show "2 \<le> iters \<Longrightarrow> 0 < n \<Longrightarrow> 2 \<le> c"
    using inv s(3) \<open>\<forall>r\<in>set (rs_racers s). rc_done r = iters\<close> by fastforce
qed

definition safe_inv :: "int \<Rightarrow> nat \<Rightarrow> race_state \<Rightarrow> bool" where
  "safe_inv iters n s \<longleftrightarrow> length (rs_racers s) = n \<and> rs_counter s = go_int (total_done s) \<and>
     (\<forall>r\<in>set (rs_racers s). rc_done r \<le> iters)"

lemma safe_step_inv:
  assumes "safe_inv iters n s" and "safe_step iters i s = Some s'"
  shows "safe_inv iters n s'"
proof -
  let ?x = "(rs_racers s ! i)\<lparr>rc_done := rc_done (rs_racers s ! i) + 1\<rparr>"
  have i: "i < length (rs_racers s)" "rc_done (rs_racers s ! i) < iters"
    and s': "s' = s\<lparr>rs_counter := go_int (rs_counter s + 1), rs_racers := (rs_racers s)[i := ?x]\<rparr>"
    using assms(2) by (auto simp: safe_step_def Let_def split: if_splits)
  have "total_done s' = total_done s + 1" using sum_list_update_done [OF i(1), of ?x] by (simp add: total_done_def s')
  moreover have "\<forall>r\<in>set (rs_racers s'). rc_done r \<le> iters"
    using assms(1) i(2) set_update_subset_insert [of "rs_racers s" i ?x] by (auto simp: s' safe_inv_def)
  ultimately show ?thesis using assms(1) by (simp add: safe_inv_def s' go_int_add_left)
qed

lemma safe_counter_exact:
  assumes "race_counter safe_step n iters sched = Some c" and "0 \<le> iters"
  shows "c = go_int (n * iters)"
proof -
  have n: "0 \<le> n" using assms(1) by (auto simp: race_counter_def split: if_splits)
  obtain s where s: "race_run (safe_step iters) sched (race_start n) = Some s" "race_over iters s"
    "c = rs_counter s"
    using assms(1) by (auto simp: race_counter_def split: if_splits option.splits)
  have "safe_inv iters (nat n) (race_start n)"
    using assms(2) by (auto simp: safe_inv_def race_start_def total_done_def sum_list_replicate go_int_def)
  then have "safe_inv iters (nat n) s"
    using race_run_invariant [OF s(1), of "safe_inv iters (nat n)"] safe_step_inv by blast
  note inv = this [unfolded safe_inv_def]
  have "map rc_done (rs_racers s) = replicate (nat n) iters"
    using inv s(2) by (intro replicate_eqI) (auto simp: race_over_def list_all_iff intro: order.antisym)
  then show ?thesis using inv s(3) n by (simp add: total_done_def sum_list_replicate)
qed

section \<open>The worst schedule\<close>

lemma race_run_append: "race_run step (xs @ ys) s = Option.bind (race_run step xs s) (race_run step ys)"
  by (induction xs arbitrary: s) (auto split: option.splits)

text \<open>A goroutine that is alone makes its increments, two steps each without and one with synchronisation.\<close>

definition at_work :: "nat \<Rightarrow> int \<Rightarrow> race_state \<Rightarrow> bool" where
  "at_work i d s \<longleftrightarrow> i < length (rs_racers s) \<and> rs_racers s ! i = \<lparr>rc_done = d, rc_temp = None\<rparr>"

definition advanced :: "nat \<Rightarrow> int \<Rightarrow> int \<Rightarrow> race_state \<Rightarrow> race_state" where
  "advanced i d m s = s\<lparr>rs_counter := rs_counter s + m,
     rs_racers := (rs_racers s)[i := \<lparr>rc_done = d + m, rc_temp = None\<rparr>]\<rparr>"

lemma at_work_advanced: "at_work i d s \<Longrightarrow> at_work i (d + m) (advanced i d m s)"
  by (simp add: at_work_def advanced_def)

lemma advanced_advanced: "advanced i (d + m) k (advanced i d m s) = advanced i d (m + k) s"
  by (simp add: advanced_def add.assoc)

lemma solo_steps:
  assumes one: "\<And>d s. at_work i d s \<Longrightarrow> d < iters \<Longrightarrow> 0 \<le> rs_counter s \<Longrightarrow> rs_counter s + 1 < 2 ^ 63 \<Longrightarrow>
      race_run step (replicate w i) s = Some (advanced i d 1 s)"
    and "at_work i d s" and "d + int m \<le> iters" and "0 \<le> rs_counter s" and "rs_counter s + int m < 2 ^ 63"
  shows "race_run step (replicate (m * w) i) s = Some (advanced i d (int m) s)"
  using assms(2-5)
proof (induction m arbitrary: d s)
  case 0
  then have "(rs_racers s)[i := \<lparr>rc_done = d, rc_temp = None\<rparr>] = rs_racers s"
    using list_update_id [of "rs_racers s" i] by (simp add: at_work_def)
  then show ?case by (simp add: advanced_def)
next
  case (Suc m)
  have "race_run step (replicate w i) s = Some (advanced i d 1 s)"
    using one [OF Suc.prems(1)] Suc.prems by simp
  moreover have "race_run step (replicate (m * w) i) (advanced i d 1 s) = Some (advanced i (d + 1) (int m) (advanced i d 1 s))"
    using Suc.IH [OF at_work_advanced [OF Suc.prems(1)], of 1] Suc.prems by (simp add: advanced_def)
  ultimately show ?case by (simp add: replicate_add race_run_append advanced_advanced)
qed

lemma unsafe_one:
  assumes "at_work i d s" and "d < iters" and "0 \<le> rs_counter s" and "rs_counter s + 1 < 2 ^ 63"
  shows "race_run (unsafe_step iters) (replicate 2 i) s = Some (advanced i d 1 s)"
proof -
  have "go_int (rs_counter s + 1) = rs_counter s + 1" using assms by (intro go_int_exact) (simp add: int64_def)
  with assms show ?thesis by (simp add: numeral_2_eq_2 unsafe_step_def at_work_def advanced_def)
qed

lemma safe_one:
  assumes "at_work i d s" and "d < iters" and "0 \<le> rs_counter s" and "rs_counter s + 1 < 2 ^ 63"
  shows "race_run (safe_step iters) (replicate 1 i) s = Some (advanced i d 1 s)"
proof -
  have "go_int (rs_counter s + 1) = rs_counter s + 1" using assms by (intro go_int_exact) (simp add: int64_def)
  with assms show ?thesis by (simp add: safe_step_def at_work_def advanced_def)
qed

text \<open>Goroutines that run one after the other, each to its end.\<close>

lemma serial_run:
  assumes one: "\<And>i d s. at_work i d s \<Longrightarrow> d < int m \<Longrightarrow> 0 \<le> rs_counter s \<Longrightarrow> rs_counter s + 1 < 2 ^ 63 \<Longrightarrow>
      race_run step (replicate w i) s = Some (advanced i d 1 s)"
    and "distinct is" and "\<forall>i\<in>set is. at_work i 0 s" and "0 \<le> rs_counter s"
    and "rs_counter s + int (length is * m) < 2 ^ 63"
  shows "\<exists>s'. race_run step (concat (map (replicate (m * w)) is)) s = Some s' \<and>
     rs_counter s' = rs_counter s + int (length is * m) \<and> length (rs_racers s') = length (rs_racers s) \<and>
     (\<forall>j < length (rs_racers s). rs_racers s' ! j =
        (if j \<in> set is then \<lparr>rc_done = int m, rc_temp = None\<rparr> else rs_racers s ! j))"
  using assms(2-5)
proof (induction "is" arbitrary: s)
  case (Cons i "is")
  let ?s = "advanced i 0 (int m) s"
  have "int m \<le> int (length (i # is) * m)" by simp
  then have bound: "rs_counter s + int m < 2 ^ 63" using Cons.prems(4) by linarith
  have "race_run step (replicate (m * w) i) s = Some ?s"
    by (rule solo_steps [where iters = "int m", OF one]) (use Cons.prems bound in simp_all)
  moreover have "\<forall>j\<in>set is. at_work j 0 ?s" using Cons.prems by (auto simp: at_work_def advanced_def nth_list_update)
  with Cons.IH [of ?s] Cons.prems obtain s' where
    "race_run step (concat (map (replicate (m * w)) is)) ?s = Some s'"
    "rs_counter s' = rs_counter ?s + int (length is * m)" "length (rs_racers s') = length (rs_racers ?s)"
    "\<forall>j < length (rs_racers ?s). rs_racers s' ! j =
        (if j \<in> set is then \<lparr>rc_done = int m, rc_temp = None\<rparr> else rs_racers ?s ! j)"
    by (auto simp: advanced_def)
  ultimately show ?case using Cons.prems
    by (intro exI [of _ s']) (auto simp: race_run_append advanced_def nth_list_update)
qed simp

lemma safe_run_exists:
  assumes "0 \<le> n" and "n * int m < 2 ^ 63"
  shows "\<exists>sched c. race_counter safe_step n (int m) sched = Some c"
proof -
  let ?is = "[0..<nat n]"
  have "\<forall>i\<in>set ?is. at_work i 0 (race_start n)" by (simp add: at_work_def race_start_def)
  with serial_run [OF safe_one [where iters = "int m"], of m ?is "race_start n"] assms obtain s where
    s: "race_run (safe_step (int m)) (concat (map (replicate (m * 1)) ?is)) (race_start n) = Some s"
      "length (rs_racers s) = nat n" "\<forall>j < nat n. rs_racers s ! j = \<lparr>rc_done = int m, rc_temp = None\<rparr>"
    by (auto simp: race_start_def)
  then have "race_over (int m) s" by (auto simp: race_over_def list_all_iff in_set_conv_nth)
  with s(1) assms(1) have "race_counter safe_step n (int m) (concat (map (replicate (m * 1)) ?is)) = Some (rs_counter s)"
    by (simp add: race_counter_def)
  then show ?thesis by blast
qed

text \<open>
  Goroutine 0 loads zero; the others finish, but for the last iteration of goroutine 1; goroutine 0
  stores one, goroutine 1 loads it, goroutine 0 finishes and goroutine 1 stores two.
\<close>

definition worst_schedule :: "nat \<Rightarrow> nat \<Rightarrow> nat list" where
  "worst_schedule n m = [0] @ concat (map (replicate (m * 2)) [2..<n]) @ replicate ((m - 1) * 2) 1 @
     [0, 1] @ replicate ((m - 1) * 2) 0 @ [1]"

lemma worst_schedule_two:
  assumes "2 \<le> n" and "2 \<le> m" and "int n * int m < 2 ^ 63"
  shows "race_counter unsafe_step (int n) (int m) (worst_schedule n m) = Some 2"
proof -
  let ?fresh = "\<lparr>rc_done = 0, rc_temp = None\<rparr>" and ?fin = "\<lparr>rc_done = int m, rc_temp = None\<rparr>"
  let ?run = "race_run (unsafe_step (int m))"
  have n: "0 < n" "1 < n" and m: "1 < int m" "int (m - 1) = int m - 1" using assms(1,2) by auto
  have "int (n - 2) * int m + int (2 * m) = int n * int m" using n by (simp add: of_nat_diff algebra_simps)
  moreover have "0 \<le> int (n - 2) * int m" by simp
  ultimately have b: "int (n - 2) * int m + int m < 2 ^ 63" "int m < 2 ^ 63" using assms(3) by linarith+
  define s1 where "s1 = \<lparr>rs_counter = 0, rs_racers = (replicate n ?fresh)[0 := \<lparr>rc_done = 0, rc_temp = Some 0\<rparr>]\<rparr>"
  have 1: "?run [0] (race_start (int n)) = Some s1"
    using n m by (simp add: unsafe_step_def race_start_def s1_def)
  have "\<forall>i\<in>set [2..<n]. at_work i 0 s1" by (auto simp: at_work_def s1_def nth_list_update)
  with serial_run [OF unsafe_one [where iters = "int m"], of m "[2..<n]" s1] b obtain s2 where
    2: "?run (concat (map (replicate (m * 2)) [2..<n])) s1 = Some s2" "rs_counter s2 = int (n - 2) * int m"
      "length (rs_racers s2) = n"
      "\<forall>j < n. rs_racers s2 ! j = (if j \<in> set [2..<n] then ?fin else rs_racers s1 ! j)"
    by (auto simp: s1_def)
  have "at_work 1 0 s2" using 2 n by (simp add: at_work_def s1_def)
  from solo_steps [where iters = "int m" and m = "m - 1", OF unsafe_one this] 2(2) b m
  have 3: "?run (replicate ((m - 1) * 2) 1) s2 = Some (advanced 1 0 (int m - 1) s2)" by simp
  define s4 where "s4 = \<lparr>rs_counter = 1, rs_racers = (rs_racers s2)[1 := \<lparr>rc_done = int m - 1, rc_temp = Some 1\<rparr>,
    0 := \<lparr>rc_done = 1, rc_temp = None\<rparr>]\<rparr>"
  have "rs_racers s2 ! 0 = \<lparr>rc_done = 0, rc_temp = Some 0\<rparr>" using 2 n by (simp add: s1_def)
  then have 4: "?run [0, 1] (advanced 1 0 (int m - 1) s2) = Some s4"
    using n m 2(3) by (simp add: unsafe_step_def advanced_def s4_def go_int_def list_update_swap)
  have "at_work 0 1 s4" using 2(3) n by (simp add: at_work_def s4_def)
  from solo_steps [where iters = "int m" and m = "m - 1", OF unsafe_one this] b m
  have 5: "?run (replicate ((m - 1) * 2) 0) s4 = Some (advanced 0 1 (int m - 1) s4)" by (simp add: s4_def)
  define s6 where "s6 = \<lparr>rs_counter = 2, rs_racers = (rs_racers s2)[1 := ?fin, 0 := ?fin]\<rparr>"
  have 6: "?run [1] (advanced 0 1 (int m - 1) s4) = Some s6"
    using n m 2(3) by (simp add: unsafe_step_def advanced_def s4_def s6_def go_int_def list_update_swap)
  have "rs_racers s6 ! j = ?fin" if "j < n" for j
    using that 2(3,4) by (cases "j = 0"; cases "j = 1") (simp_all add: s6_def)
  then have "race_over (int m) s6" using 2(3) by (auto simp: race_over_def list_all_iff in_set_conv_nth s6_def)
  moreover have "?run (worst_schedule n m) (race_start (int n)) = Some s6"
    unfolding worst_schedule_def race_run_append 1 Option.bind.bind_lunit 2(1) 3 4 5 6 ..
  ultimately show ?thesis by (simp add: race_counter_def s6_def)
qed



text \<open>The counters of the benchmark are exact up to the wrap of 64 bits, under the lock and with atomics.\<close>

lemma benchmark_counters:
  assumes "0 \<le> iters"
  shows "contendedCounter taskCount iters sched = Some c \<Longrightarrow> c = go_int (taskCount * (iters div 10))"
    and "atomicCounter taskCount iters sched = Some c \<Longrightarrow> c = go_int (taskCount * (iters div 10))"
  using assms safe_counter_exact [of taskCount "iters div 10" sched c]
  by (simp_all add: contendedCounter_def atomicCounter_def)

end
