(* ===== verification/Io_Poll.thy ===== *)
theory Io_Poll
  imports Go_Prelude
begin

text \<open>
  \<open>pkg/io\<close>: file descriptors, blocking reads, \<open>select\<close>/\<open>poll\<close>, \<open>epoll\<close> and the network poller of
  the Go runtime on top of it. A \<open>*FileDescriptor\<close> is an index into the list of the descriptors.
  The channel \<open>wakeCh\<close> has room for one token, so it is a Boolean. A method that holds a mutex
  throughout is one step; \<open>EpollWait\<close> has two, the look at the ready list and the \<open>select\<close>, and
  which case of the \<open>select\<close> runs is a parameter, because time is not modelled.
\<close>

section \<open>Descriptors, blocking reads and polling\<close>

record FileDescriptor =
  fd_FD :: int
  fd_Name :: string
  fd_DataBuffer :: "8 word list"
  fd_IsReady :: bool
  fd_IsNonBlock :: bool

record BlockingIO =
  bio_BlockedThreads :: int
  bio_TotalReads :: int

definition NewBlockingIO :: BlockingIO where
  "NewBlockingIO = \<lparr>bio_BlockedThreads = 0, bio_TotalReads = 0\<rparr>"

definition to_bytes :: "string \<Rightarrow> 8 word list" where
  "to_bytes s = map (\<lambda>c. of_nat (of_char c)) s"

text \<open>The two halves of \<open>Read\<close>, before and after the sleep.\<close>

definition Read_block :: "BlockingIO \<Rightarrow> BlockingIO" where
  "Read_block bio = bio\<lparr>bio_TotalReads := bio_TotalReads bio + 1,
     bio_BlockedThreads := bio_BlockedThreads bio + 1\<rparr>"

definition Read_return :: "FileDescriptor \<Rightarrow> BlockingIO \<Rightarrow> 8 word list \<times> BlockingIO" where
  "Read_return fd bio =
     (let bio' = bio\<lparr>bio_BlockedThreads := bio_BlockedThreads bio - 1\<rparr>
      in if length (fd_DataBuffer fd) = 0 then (to_bytes (''data-from-fd-'' @ itoa (fd_FD fd)), bio')
         else (fd_DataBuffer fd, bio'))"

record SelectPoll =
  sp_TotalChecks :: int

definition NewSelectPoll :: SelectPoll where
  "NewSelectPoll = \<lparr>sp_TotalChecks = 0\<rparr>"

fun poll_loop :: "FileDescriptor list \<Rightarrow> nat list \<Rightarrow> nat list \<Rightarrow> nat list" where
  "poll_loop store [] ready = ready"
| "poll_loop store (p # ps) ready =
     poll_loop store ps (if fd_IsReady (store ! p) then ready @ [p] else ready)"

definition Poll :: "FileDescriptor list \<Rightarrow> nat list \<Rightarrow> SelectPoll \<Rightarrow> nat list \<times> int \<times> SelectPoll" where
  "Poll store ps sp =
     (poll_loop store ps [], int (length ps), sp\<lparr>sp_TotalChecks := sp_TotalChecks sp + 1\<rparr>)"

section \<open>Epoll\<close>

type_synonym EpollEventType = "32 word"

definition EPOLLIN :: EpollEventType where "EPOLLIN = 0x001"
definition EPOLLOUT :: EpollEventType where "EPOLLOUT = 0x002"
definition EPOLLET :: EpollEventType where "EPOLLET = 0x004"
definition EPOLLONESHOT :: EpollEventType where "EPOLLONESHOT = 0x008"

record EpollEvent =
  ev_Events :: EpollEventType
  ev_FD :: nat

definition EPOLL_CTL_ADD :: int where "EPOLL_CTL_ADD = 1"
definition EPOLL_CTL_MOD :: int where "EPOLL_CTL_MOD = 2"
definition EPOLL_CTL_DEL :: int where "EPOLL_CTL_DEL = 3"

datatype epoll_error = EEXIST int | ENOENT int

text \<open>The values of \<open>InterestList\<close> are pointers and may be nil.\<close>

record Epoll =
  ep_InterestList :: "int \<rightharpoonup> EpollEvent option"
  ep_ReadyList :: "EpollEvent list"
  ep_wakeCh :: bool

definition NewEpoll :: Epoll where
  "NewEpoll = \<lparr>ep_InterestList = Map.empty, ep_ReadyList = [], ep_wakeCh = False\<rparr>"

definition EpollCtl :: "int \<Rightarrow> FileDescriptor \<Rightarrow> EpollEvent option \<Rightarrow> Epoll \<Rightarrow> epoll_error option \<times> Epoll" where
  "EpollCtl op fd event ep =
     (let k = fd_FD fd; exists = ep_InterestList ep k \<noteq> None
      in if op = EPOLL_CTL_ADD then
           (if exists then (Some (EEXIST k), ep)
            else (None, ep\<lparr>ep_InterestList := (ep_InterestList ep)(k \<mapsto> event)\<rparr>))
         else if op = EPOLL_CTL_MOD then
           (if \<not> exists then (Some (ENOENT k), ep)
            else (None, ep\<lparr>ep_InterestList := (ep_InterestList ep)(k \<mapsto> event)\<rparr>))
         else if op = EPOLL_CTL_DEL then
           (if \<not> exists then (Some (ENOENT k), ep)
            else (None, ep\<lparr>ep_InterestList := (ep_InterestList ep)(k := None)\<rparr>))
         else (None, ep))"

definition NotifyDeviceInterrupt ::
  "nat \<Rightarrow> EpollEventType \<Rightarrow> FileDescriptor list \<Rightarrow> Epoll \<Rightarrow> FileDescriptor list \<times> Epoll" where
  "NotifyDeviceInterrupt p events store ep =
     (if ep_InterestList ep (fd_FD (store ! p)) \<noteq> None
      then (store[p := (store ! p)\<lparr>fd_IsReady := True\<rparr>],
            ep\<lparr>ep_ReadyList := ep_ReadyList ep @ [\<lparr>ev_Events = events, ev_FD = p\<rparr>], ep_wakeCh := True\<rparr>)
      else (store, ep))"

text \<open>Taking events from the ready list; a negative bound makes the slice expression panic.\<close>

definition take_ready :: "int \<Rightarrow> Epoll \<Rightarrow> (EpollEvent list \<times> Epoll) option" where
  "take_ready maxEvents ep =
     (let n = int (length (ep_ReadyList ep)); count = (if n > maxEvents then maxEvents else n)
      in if count < 0 then None
         else Some (take (nat count) (ep_ReadyList ep),
                    ep\<lparr>ep_ReadyList := drop (nat count) (ep_ReadyList ep)\<rparr>))"

datatype wait_result = Returned "EpollEvent list" Epoll | MustSelect | WaitPanics

definition as_result :: "(EpollEvent list \<times> Epoll) option \<Rightarrow> wait_result" where
  "as_result r = (case r of None \<Rightarrow> WaitPanics | Some (evs, ep) \<Rightarrow> Returned evs ep)"

text \<open>The first half of \<open>EpollWait\<close>, up to the \<open>select\<close>.\<close>

definition EpollWait_enter :: "int \<Rightarrow> Epoll \<Rightarrow> wait_result" where
  "EpollWait_enter maxEvents ep =
     (if 0 < length (ep_ReadyList ep) then as_result (take_ready maxEvents ep) else MustSelect)"

text \<open>The \<open>select\<close>: the token has been received, or the timer has fired.\<close>

definition EpollWait_woken :: "int \<Rightarrow> Epoll \<Rightarrow> wait_result" where
  "EpollWait_woken maxEvents ep =
     (if ep_wakeCh ep then as_result (take_ready maxEvents (ep\<lparr>ep_wakeCh := False\<rparr>)) else MustSelect)"

definition EpollWait_timeout :: "Epoll \<Rightarrow> wait_result" where
  "EpollWait_timeout ep = Returned [] ep"

text \<open>A call during which nothing else happens; \<open>timer\<close> says which ready case the \<open>select\<close> takes.\<close>

definition EpollWait :: "int \<Rightarrow> bool \<Rightarrow> Epoll \<Rightarrow> wait_result" where
  "EpollWait maxEvents timer ep =
     (case EpollWait_enter maxEvents ep of
        MustSelect \<Rightarrow>
          if ep_wakeCh ep \<and> \<not> timer then EpollWait_woken maxEvents ep else EpollWait_timeout ep
      | r \<Rightarrow> r)"

section \<open>The network poller\<close>

record NetpollerGoroutine =
  ng_GID :: int
  ng_FD :: int

record GoNetpoller =
  np_EpollInstance :: Epoll
  np_ParkedGs :: "int \<rightharpoonup> NetpollerGoroutine"
  np_TotalParked :: int
  np_TotalWoken :: int

definition NewGoNetpoller :: GoNetpoller where
  "NewGoNetpoller = \<lparr>np_EpollInstance = NewEpoll, np_ParkedGs = Map.empty, np_TotalParked = 0,
     np_TotalWoken = 0\<rparr>"

text \<open>
  \<open>ReadNonBlocking\<close> in its three steps: the look at the descriptor, the parking under \<open>mu\<close>, and the
  registration, whose error is dropped.
\<close>

definition Read_check :: "nat \<Rightarrow> FileDescriptor list \<Rightarrow> (8 word list \<times> FileDescriptor list) option" where
  "Read_check p store =
     (let fd = store ! p
      in if fd_IsReady fd \<and> 0 < length (fd_DataBuffer fd)
         then Some (fd_DataBuffer fd, store[p := fd\<lparr>fd_DataBuffer := [], fd_IsReady := False\<rparr>])
         else None)"

definition Read_park :: "int \<Rightarrow> FileDescriptor \<Rightarrow> GoNetpoller \<Rightarrow> GoNetpoller" where
  "Read_park gid fd np =
     np\<lparr>np_TotalParked := np_TotalParked np + 1,
        np_ParkedGs := (np_ParkedGs np)(fd_FD fd \<mapsto> \<lparr>ng_GID = gid, ng_FD = fd_FD fd\<rparr>)\<rparr>"

definition Read_register :: "nat \<Rightarrow> FileDescriptor \<Rightarrow> GoNetpoller \<Rightarrow> GoNetpoller" where
  "Read_register p fd np =
     np\<lparr>np_EpollInstance := snd (EpollCtl EPOLL_CTL_ADD fd
          (Some \<lparr>ev_Events = EPOLLIN, ev_FD = p\<rparr>) (np_EpollInstance np))\<rparr>"

definition ReadNonBlocking ::
  "int \<Rightarrow> nat \<Rightarrow> FileDescriptor list \<Rightarrow> GoNetpoller \<Rightarrow>
     8 word list option \<times> FileDescriptor list \<times> GoNetpoller" where
  "ReadNonBlocking gid p store np =
     (case Read_check p store of
        Some (data, store') \<Rightarrow> (Some data, store', np)
      | None \<Rightarrow> (None, store, Read_register p (store ! p) (Read_park gid (store ! p) np)))"

text \<open>The goroutines that are woken, in order; waking is the closing of their channels.\<close>

fun wake_loop ::
  "FileDescriptor list \<Rightarrow> EpollEvent list \<Rightarrow> GoNetpoller \<Rightarrow> NetpollerGoroutine list \<Rightarrow>
     NetpollerGoroutine list \<times> GoNetpoller" where
  "wake_loop store [] np woken = (woken, np)"
| "wake_loop store (ev # evs) np woken =
     (let fd = store ! ev_FD ev
      in case np_ParkedGs np (fd_FD fd) of
           None \<Rightarrow> wake_loop store evs np woken
         | Some parked \<Rightarrow>
             wake_loop store evs
               (np\<lparr>np_TotalWoken := np_TotalWoken np + 1,
                   np_ParkedGs := (np_ParkedGs np)(fd_FD fd := None),
                   np_EpollInstance := snd (EpollCtl EPOLL_CTL_DEL fd None (np_EpollInstance np))\<rparr>)
               (woken @ [parked]))"

definition PollAndWakeup ::
  "FileDescriptor list \<Rightarrow> bool \<Rightarrow> GoNetpoller \<Rightarrow> NetpollerGoroutine list \<times> GoNetpoller" where
  "PollAndWakeup store timer np =
     (case EpollWait 64 timer (np_EpollInstance np) of
        Returned evs ep \<Rightarrow> wake_loop store evs (np\<lparr>np_EpollInstance := ep\<rparr>) []
      | _ \<Rightarrow> ([], np))"

section \<open>Polling\<close>

lemma poll_loop_filter: "poll_loop store ps ready = ready @ filter (\<lambda>p. fd_IsReady (store ! p)) ps"
  by (induction ps arbitrary: ready) auto

lemma Poll_exact:
  "fst (Poll store ps sp) = filter (\<lambda>p. fd_IsReady (store ! p)) ps" "fst (snd (Poll store ps sp)) = int (length ps)"
  by (simp_all add: Poll_def poll_loop_filter)

section \<open>The event stream\<close>

text \<open>
  Any interleaving of one poller with registrations and device interrupts. The poller is idle or
  between the two halves of \<open>EpollWait\<close>; the logs are the events that have been accepted and
  those that have been returned.
\<close>

datatype epoll_op =
  OpCtl int nat "EpollEvent option" | OpNotify nat EpollEventType | OpEnter int | OpWoken | OpTimeout

record epoll_sys =
  es_store :: "FileDescriptor list"
  es_ep :: Epoll
  es_select :: "int option"
  es_in :: "EpollEvent list"
  es_out :: "EpollEvent list"

definition deliver :: "wait_result \<Rightarrow> epoll_sys \<Rightarrow> epoll_sys option" where
  "deliver r s = (case r of
     Returned evs ep \<Rightarrow> Some (s\<lparr>es_ep := ep, es_select := None, es_out := es_out s @ evs\<rparr>)
   | _ \<Rightarrow> None)"

text \<open>\<^const>\<open>None\<close> when the operation cannot happen or panics.\<close>

fun epoll_step :: "epoll_op \<Rightarrow> epoll_sys \<Rightarrow> epoll_sys option" where
  "epoll_step (OpCtl op p e) s =
     (if p < length (es_store s) then Some (s\<lparr>es_ep := snd (EpollCtl op (es_store s ! p) e (es_ep s))\<rparr>)
      else None)"
| "epoll_step (OpNotify p events) s =
     (if p < length (es_store s)
      then case NotifyDeviceInterrupt p events (es_store s) (es_ep s) of
        (store, ep) \<Rightarrow> Some (s\<lparr>es_store := store, es_ep := ep,
          es_in := es_in s @ (if ep_InterestList (es_ep s) (fd_FD (es_store s ! p)) \<noteq> None
                              then [\<lparr>ev_Events = events, ev_FD = p\<rparr>] else [])\<rparr>)
      else None)"
| "epoll_step (OpEnter m) s =
     (if es_select s \<noteq> None then None
      else case EpollWait_enter m (es_ep s) of
        MustSelect \<Rightarrow> Some (s\<lparr>es_select := Some m\<rparr>)
      | r \<Rightarrow> deliver r s)"
| "epoll_step OpWoken s =
     (case es_select s of None \<Rightarrow> None | Some m \<Rightarrow> deliver (EpollWait_woken m (es_ep s)) s)"
| "epoll_step OpTimeout s =
     (case es_select s of None \<Rightarrow> None | Some m \<Rightarrow> deliver (EpollWait_timeout (es_ep s)) s)"

fun epoll_exec :: "epoll_op list \<Rightarrow> epoll_sys \<Rightarrow> epoll_sys option" where
  "epoll_exec [] s = Some s"
| "epoll_exec (op # ops) s = (case epoll_step op s of None \<Rightarrow> None | Some s' \<Rightarrow> epoll_exec ops s')"

definition epoll_init :: "FileDescriptor list \<Rightarrow> epoll_sys" where
  "epoll_init store = \<lparr>es_store = store, es_ep = NewEpoll, es_select = None, es_in = [], es_out = []\<rparr>"

definition epoll_inv :: "epoll_sys \<Rightarrow> bool" where
  "epoll_inv s \<longleftrightarrow> es_in s = es_out s @ ep_ReadyList (es_ep s) \<and>
     (es_select s \<noteq> None \<and> ep_ReadyList (es_ep s) \<noteq> [] \<longrightarrow> ep_wakeCh (es_ep s))"

lemma take_ready_spec:
  assumes "take_ready m ep = Some (evs, ep')"
  shows "ep_ReadyList ep = evs @ ep_ReadyList ep'" and "int (length evs) \<le> max 0 m"
    and "0 < m \<Longrightarrow> ep_ReadyList ep \<noteq> [] \<Longrightarrow> evs \<noteq> []"
  using assms by (auto simp: take_ready_def Let_def split: if_splits)

lemma take_ready_total: "0 \<le> m \<Longrightarrow> \<exists>evs ep'. take_ready m ep = Some (evs, ep')"
  by (simp add: take_ready_def Let_def)

lemma deliver_inv:
  assumes "epoll_inv s" and "deliver r s = Some s'"
    and "\<And>evs ep'. r = Returned evs ep' \<Longrightarrow> ep_ReadyList (es_ep s) = evs @ ep_ReadyList ep'"
  shows "epoll_inv s'"
proof -
  obtain evs ep' where r: "r = Returned evs ep'"
    and s': "s' = s\<lparr>es_ep := ep', es_select := None, es_out := es_out s @ evs\<rparr>"
    using assms(2) by (auto simp: deliver_def split: wait_result.splits)
  show ?thesis using assms(1) assms(3) [OF r] by (simp add: epoll_inv_def s')
qed

lemma as_result_Returned: "as_result r = Returned evs ep \<Longrightarrow> r = Some (evs, ep)"
  by (auto simp: as_result_def split: option.splits)

lemma EpollCtl_keeps:
  "ep_ReadyList (snd (EpollCtl op fd e ep)) = ep_ReadyList ep"
  "ep_wakeCh (snd (EpollCtl op fd e ep)) = ep_wakeCh ep"
  by (simp_all add: EpollCtl_def Let_def)

lemma epoll_step_inv: "epoll_inv s \<Longrightarrow> epoll_step op s = Some s' \<Longrightarrow> epoll_inv s'"
proof (induction op s rule: epoll_step.induct)
  case (1 op p e s)
  then show ?case by (auto simp: epoll_inv_def EpollCtl_keeps split: if_splits)
next
  case (2 p events s)
  then show ?case
    by (auto simp: epoll_inv_def NotifyDeviceInterrupt_def split: if_splits prod.splits)
next
  case (3 m s)
  show ?case
  proof (cases "ep_ReadyList (es_ep s)")
    case Nil
    then have "s' = s\<lparr>es_select := Some m\<rparr>"
      using 3(2) by (auto simp: EpollWait_enter_def split: if_splits)
    then show ?thesis using 3(1) Nil by (simp add: epoll_inv_def)
  next
    case (Cons e q)
    then have d: "deliver (as_result (take_ready m (es_ep s))) s = Some s'"
      using 3(2) by (auto simp: EpollWait_enter_def as_result_def split: if_splits option.splits)
    show ?thesis by (rule deliver_inv [OF 3(1) d]) (auto dest!: as_result_Returned take_ready_spec(1))
  qed
next
  case (4 s)
  then obtain m where m: "es_select s = Some m" "deliver (EpollWait_woken m (es_ep s)) s = Some s'"
    by (auto split: option.splits)
  have "ep_ReadyList (es_ep s) = evs @ ep_ReadyList ep'"
    if "EpollWait_woken m (es_ep s) = Returned evs ep'" for evs ep'
  proof -
    have "take_ready m ((es_ep s)\<lparr>ep_wakeCh := False\<rparr>) = Some (evs, ep')"
      using that by (auto simp: EpollWait_woken_def as_result_Returned split: if_splits)
    from take_ready_spec(1) [OF this] show ?thesis by simp
  qed
  then show ?case by (rule deliver_inv [OF 4(1) m(2)])
next
  case (5 s)
  then obtain m where m: "deliver (EpollWait_timeout (es_ep s)) s = Some s'" by (auto split: option.splits)
  show ?case by (rule deliver_inv [OF 5(1) m]) (simp add: EpollWait_timeout_def)
qed

lemma epoll_exec_inv: "epoll_exec ops s = Some s' \<Longrightarrow> epoll_inv s \<Longrightarrow> epoll_inv s'"
proof (induction ops arbitrary: s)
  case (Cons op ops)
  then obtain s1 where "epoll_step op s = Some s1" "epoll_exec ops s1 = Some s'"
    by (auto split: option.splits)
  with Cons epoll_step_inv show ?case by blast
qed simp

text \<open>
  C28: epoll delivers every event once and in order, and no poller sleeps on one. Under every
  interleaving of a poller with registrations and interrupts, the events returned so far followed
  by the ready list are the events accepted so far; and a poller that has seen an empty list and
  is about to block finds the token in the channel if an event has arrived in between, so that
  it returns at least one event.
\<close>

theorem epoll_stream:
  assumes "epoll_exec ops (epoll_init store) = Some s"
  shows "es_in s = es_out s @ ep_ReadyList (es_ep s) \<and>
     (\<forall>m. es_select s = Some m \<and> 0 < m \<and> ep_ReadyList (es_ep s) \<noteq> [] \<longrightarrow>
        (\<exists>evs ep. EpollWait_woken m (es_ep s) = Returned evs ep \<and> evs \<noteq> []))"
proof -
  have "epoll_inv (epoll_init store)" by (simp add: epoll_inv_def epoll_init_def NewEpoll_def)
  from epoll_exec_inv [OF assms this] have inv: "epoll_inv s" .
  have "\<exists>evs ep. EpollWait_woken m (es_ep s) = Returned evs ep \<and> evs \<noteq> []"
    if m: "es_select s = Some m" "0 < m" "ep_ReadyList (es_ep s) \<noteq> []" for m
  proof -
    have w: "ep_wakeCh (es_ep s)" using inv m by (simp add: epoll_inv_def)
    obtain evs ep where t: "take_ready m ((es_ep s)\<lparr>ep_wakeCh := False\<rparr>) = Some (evs, ep)"
      using m(2) take_ready_total [of m] by fastforce
    from take_ready_spec(3) [OF t] m have "evs \<noteq> []" by simp
    then show ?thesis using w t by (simp add: EpollWait_woken_def as_result_def)
  qed
  then show ?thesis using inv by (auto simp: epoll_inv_def)
qed

definition two_fds :: "FileDescriptor list" where
  "two_fds = [\<lparr>fd_FD = 3, fd_Name = ''a'', fd_DataBuffer = [], fd_IsReady = False, fd_IsNonBlock = True\<rparr>,
     \<lparr>fd_FD = 4, fd_Name = ''b'', fd_DataBuffer = [], fd_IsReady = False, fd_IsNonBlock = True\<rparr>]"

theorem epoll_stream_witness:
  "\<exists>s. epoll_exec [OpCtl 1 0 None, OpEnter 8, OpNotify 0 1, OpNotify 1 1] (epoll_init two_fds) = Some s \<and>
     (\<exists>evs ep. EpollWait_woken 8 (es_ep s) = Returned evs ep \<and> evs \<noteq> [])"
proof -
  have "map_option (\<lambda>s. (es_select s, ep_ReadyList (es_ep s) = []))
     (epoll_exec [OpCtl 1 0 None, OpEnter 8, OpNotify 0 1, OpNotify 1 1] (epoll_init two_fds)) = Some (Some 8, False)"
    by code_simp
  then obtain s where s: "epoll_exec [OpCtl 1 0 None, OpEnter 8, OpNotify 0 1, OpNotify 1 1] (epoll_init two_fds) = Some s"
    and v: "es_select s = Some 8" "ep_ReadyList (es_ep s) \<noteq> []" by auto
  from epoll_stream [OF s] v have "\<exists>evs ep. EpollWait_woken 8 (es_ep s) = Returned evs ep \<and> evs \<noteq> []" by simp
  with s show ?thesis by blast
qed

section \<open>Waking goroutines\<close>

text \<open>
  A use of the poller: goroutines read, data arrives in a descriptor, the device raises an
  interrupt, the background thread polls. \<open>ns_woken\<close> collects the goroutines woken.
\<close>

datatype np_op =
  NpRead int nat | NpData nat "8 word list" | NpInterrupt nat EpollEventType | NpPoll bool

record np_sys =
  ns_store :: "FileDescriptor list"
  ns_np :: GoNetpoller
  ns_woken :: "NetpollerGoroutine list"

fun np_step :: "np_op \<Rightarrow> np_sys \<Rightarrow> np_sys option" where
  "np_step (NpRead gid p) s =
     (if p < length (ns_store s)
      then case ReadNonBlocking gid p (ns_store s) (ns_np s) of
        (_, store, np) \<Rightarrow> Some (s\<lparr>ns_store := store, ns_np := np\<rparr>)
      else None)"
| "np_step (NpData p bs) s =
     (if p < length (ns_store s)
      then Some (s\<lparr>ns_store := (ns_store s)[p := (ns_store s ! p)\<lparr>fd_DataBuffer := bs\<rparr>]\<rparr>)
      else None)"
| "np_step (NpInterrupt p events) s =
     (if p < length (ns_store s)
      then case NotifyDeviceInterrupt p events (ns_store s) (np_EpollInstance (ns_np s)) of
        (store, ep) \<Rightarrow> Some (s\<lparr>ns_store := store, ns_np := (ns_np s)\<lparr>np_EpollInstance := ep\<rparr>\<rparr>)
      else None)"
| "np_step (NpPoll timer) s =
     (case PollAndWakeup (ns_store s) timer (ns_np s) of
        (woken, np) \<Rightarrow> Some (s\<lparr>ns_np := np, ns_woken := ns_woken s @ woken\<rparr>))"

fun np_exec :: "np_op list \<Rightarrow> np_sys \<Rightarrow> np_sys option" where
  "np_exec [] s = Some s"
| "np_exec (op # ops) s = (case np_step op s of None \<Rightarrow> None | Some s' \<Rightarrow> np_exec ops s')"

definition np_init :: "FileDescriptor list \<Rightarrow> np_sys" where
  "np_init store = \<lparr>ns_store = store, ns_np = NewGoNetpoller, ns_woken = []\<rparr>"

text \<open>A descriptor is registered exactly while a goroutine is parked on it.\<close>

definition np_inv :: "GoNetpoller \<Rightarrow> bool" where
  "np_inv np \<longleftrightarrow> (\<forall>k. np_ParkedGs np k = None \<longleftrightarrow> ep_InterestList (np_EpollInstance np) k = None)"

lemma wake_loop_spec:
  assumes "np_inv np"
  shows "\<exists>w np'. wake_loop store evs np woken = (woken @ w, np') \<and> np_inv np' \<and>
     np_TotalWoken np' = np_TotalWoken np + int (length w) \<and> np_TotalParked np' = np_TotalParked np \<and>
     ep_ReadyList (np_EpollInstance np') = ep_ReadyList (np_EpollInstance np) \<and>
     (\<forall>k. np_ParkedGs np' k =
        (if k \<in> (\<lambda>ev. fd_FD (store ! ev_FD ev)) ` set evs then None else np_ParkedGs np k)) \<and>
     (\<forall>g. g \<in> set w \<longleftrightarrow> (\<exists>ev\<in>set evs. np_ParkedGs np (fd_FD (store ! ev_FD ev)) = Some g))"
  using assms
proof (induction evs arbitrary: np woken)
  case (Cons ev evs)
  let ?fd = "store ! ev_FD ev"
  show ?case
  proof (cases "np_ParkedGs np (fd_FD ?fd)")
    case None
    then show ?thesis using Cons.IH [OF Cons.prems, of woken] by fastforce
  next
    case (Some g)
    let ?np = "np\<lparr>np_TotalWoken := np_TotalWoken np + 1, np_ParkedGs := (np_ParkedGs np)(fd_FD ?fd := None),
        np_EpollInstance := snd (EpollCtl EPOLL_CTL_DEL ?fd None (np_EpollInstance np))\<rparr>"
    have "ep_InterestList (np_EpollInstance np) (fd_FD ?fd) \<noteq> None"
      using Cons.prems Some by (metis np_inv_def option.distinct(1))
    then have il: "ep_InterestList (np_EpollInstance ?np) = (ep_InterestList (np_EpollInstance np))(fd_FD ?fd := None)"
      by (auto simp: EpollCtl_def Let_def EPOLL_CTL_ADD_def EPOLL_CTL_MOD_def EPOLL_CTL_DEL_def)
    have "np_inv ?np" using Cons.prems unfolding np_inv_def il by simp
    from Cons.IH [OF this, of "woken @ [g]"] obtain w np' where
      w: "wake_loop store evs ?np ((woken @ [g])) = ((woken @ [g]) @ w, np')" "np_inv np'"
      "np_TotalWoken np' = np_TotalWoken ?np + int (length w)" "np_TotalParked np' = np_TotalParked ?np"
      "ep_ReadyList (np_EpollInstance np') = ep_ReadyList (np_EpollInstance ?np)"
      "\<forall>k. np_ParkedGs np' k =
        (if k \<in> (\<lambda>ev. fd_FD (store ! ev_FD ev)) ` set evs then None else np_ParkedGs ?np k)"
      "\<forall>h. h \<in> set w \<longleftrightarrow> (\<exists>ev\<in>set evs. np_ParkedGs ?np (fd_FD (store ! ev_FD ev)) = Some h)"
      by blast
    have mem: "h \<in> set (g # w) \<longleftrightarrow> (\<exists>ev\<in>set (ev # evs). np_ParkedGs np (fd_FD (store ! ev_FD ev)) = Some h)" for h
    proof -
      have "h \<in> set w \<longleftrightarrow> (\<exists>e\<in>set evs. fd_FD (store ! ev_FD e) \<noteq> fd_FD ?fd \<and>
          np_ParkedGs np (fd_FD (store ! ev_FD e)) = Some h)"
        using w(7) by auto
      then show ?thesis using Some by (simp, metis option.inject)
    qed
    have "wake_loop store (ev # evs) np woken = (woken @ g # w, np')" using w(1) Some by simp
    moreover have "np_TotalWoken np' = np_TotalWoken np + int (length (g # w))" using w(3) by simp
    moreover have "ep_ReadyList (np_EpollInstance np') = ep_ReadyList (np_EpollInstance np)"
      using w(5) by (simp add: EpollCtl_keeps)
    moreover have "\<forall>k. np_ParkedGs np' k = (if k \<in> (\<lambda>ev. fd_FD (store ! ev_FD ev)) ` set (ev # evs)
        then None else np_ParkedGs np k)"
      using w(6) by simp
    ultimately show ?thesis using w(2,4) mem by (intro exI [of _ "g # w"] exI [of _ np']) simp
  qed
qed simp

text \<open>One poll handles the first 64 pending events.\<close>

lemma EpollWait_64:
  shows "\<exists>ep'. EpollWait 64 timer ep = Returned (take 64 (ep_ReadyList ep)) ep' \<and>
     ep_ReadyList ep' = drop 64 (ep_ReadyList ep) \<and> ep_InterestList ep' = ep_InterestList ep"
proof (cases "ep_ReadyList ep")
  case Nil
  then show ?thesis
    by (auto simp: EpollWait_def EpollWait_enter_def EpollWait_woken_def EpollWait_timeout_def
        as_result_def take_ready_def Let_def)
next
  case (Cons e q)
  have n: "nat (if 64 < int (length (ep_ReadyList ep)) then 64 else int (length (ep_ReadyList ep))) =
      min 64 (length (ep_ReadyList ep))" by auto
  have "take (min 64 (length r)) r = take 64 r" "drop (min 64 (length r)) r = drop 64 r" for r :: "EpollEvent list"
    by (simp_all add: min_def)
  then have "take_ready 64 ep = Some (take 64 (ep_ReadyList ep), ep\<lparr>ep_ReadyList := drop 64 (ep_ReadyList ep)\<rparr>)"
    unfolding take_ready_def Let_def n by simp
  then show ?thesis using Cons by (simp add: EpollWait_def EpollWait_enter_def as_result_def)
qed

lemma PollAndWakeup_spec:
  fixes store timer np
  assumes "np_inv np"
  defines "evs \<equiv> take 64 (ep_ReadyList (np_EpollInstance np))"
  shows "\<exists>w np'. PollAndWakeup store timer np = (w, np') \<and> np_inv np' \<and>
     np_TotalWoken np' = np_TotalWoken np + int (length w) \<and> np_TotalParked np' = np_TotalParked np \<and>
     ep_ReadyList (np_EpollInstance np') = drop 64 (ep_ReadyList (np_EpollInstance np)) \<and>
     (\<forall>k. np_ParkedGs np' k =
        (if k \<in> (\<lambda>ev. fd_FD (store ! ev_FD ev)) ` set evs then None else np_ParkedGs np k)) \<and>
     (\<forall>g. g \<in> set w \<longleftrightarrow> (\<exists>ev\<in>set evs. np_ParkedGs np (fd_FD (store ! ev_FD ev)) = Some g))"
proof -
  obtain ep' where ep': "EpollWait 64 timer (np_EpollInstance np) = Returned evs ep'"
    "ep_ReadyList ep' = drop 64 (ep_ReadyList (np_EpollInstance np))"
    "ep_InterestList ep' = ep_InterestList (np_EpollInstance np)"
    unfolding evs_def using EpollWait_64 by blast
  let ?np = "np\<lparr>np_EpollInstance := ep'\<rparr>"
  have "np_inv ?np" using assms(1) ep'(3) by (simp add: np_inv_def)
  from wake_loop_spec [OF this, of store evs "[]"] show ?thesis
    using ep'(1,2) by (auto simp: PollAndWakeup_def)
qed

lemma np_step_inv: "np_inv (ns_np s) \<Longrightarrow> np_step op s = Some s' \<Longrightarrow> np_inv (ns_np s')"
proof (induction op s rule: np_step.induct)
  case (1 gid p s)
  then show ?case
    by (auto simp: ReadNonBlocking_def Read_park_def Read_register_def EpollCtl_def Let_def np_inv_def
        EPOLL_CTL_ADD_def split: if_splits option.splits)
next
  case (2 p bs s)
  then show ?case by (auto split: if_splits)
next
  case (3 p events s)
  then show ?case by (auto simp: NotifyDeviceInterrupt_def np_inv_def split: if_splits)
next
  case (4 timer s)
  then show ?case using PollAndWakeup_spec [OF 4(1), of "ns_store s" timer] by auto
qed

lemma np_exec_inv: "np_exec ops s = Some s' \<Longrightarrow> np_inv (ns_np s) \<Longrightarrow> np_inv (ns_np s')"
proof (induction ops arbitrary: s)
  case (Cons op ops)
  then obtain s1 where "np_step op s = Some s1" "np_exec ops s1 = Some s'"
    by (auto split: option.splits)
  with Cons np_step_inv show ?case by blast
qed simp

text \<open>A number of polls with nothing in between.\<close>

fun np_polls :: "FileDescriptor list \<Rightarrow> bool list \<Rightarrow> GoNetpoller \<Rightarrow> NetpollerGoroutine list \<times> GoNetpoller" where
  "np_polls store [] np = ([], np)"
| "np_polls store (timer # ts) np =
     (case PollAndWakeup store timer np of (w, np1) \<Rightarrow>
        (case np_polls store ts np1 of (w', np2) \<Rightarrow> (w @ w', np2)))"

lemma np_polls_none:
  "np_inv np \<Longrightarrow> np_ParkedGs np k = None \<Longrightarrow> np_ParkedGs (snd (np_polls store ts np)) k = None"
proof (induction ts arbitrary: np)
  case (Cons timer ts)
  from PollAndWakeup_spec [OF Cons.prems(1), of store timer] obtain w np1 where
    p: "PollAndWakeup store timer np = (w, np1)" "np_inv np1" and "np_ParkedGs np1 k = None"
    using Cons.prems(2) by auto
  from Cons.IH [OF p(2) this(3)] p(1) show ?case by (auto split: prod.split)
qed simp

lemma np_polls_account:
  "np_inv np \<Longrightarrow> np_inv (snd (np_polls store ts np)) \<and>
     np_TotalWoken (snd (np_polls store ts np)) = np_TotalWoken np + int (length (fst (np_polls store ts np)))"
proof (induction ts arbitrary: np)
  case (Cons timer ts)
  from PollAndWakeup_spec [OF Cons.prems, of store timer] obtain w np1 where
    p: "PollAndWakeup store timer np = (w, np1)" "np_inv np1"
    "np_TotalWoken np1 = np_TotalWoken np + int (length w)" by blast
  from Cons.IH [OF p(2)] p(1,3) show ?case by (auto split: prod.split)
qed simp

lemma np_polls_wake:
  assumes "np_inv np" and "length (ep_ReadyList (np_EpollInstance np)) \<le> 64 * length ts"
    and "ev \<in> set (ep_ReadyList (np_EpollInstance np))"
  shows "np_ParkedGs (snd (np_polls store ts np)) (fd_FD (store ! ev_FD ev)) = None \<and>
     (\<forall>g. np_ParkedGs np (fd_FD (store ! ev_FD ev)) = Some g \<longrightarrow> g \<in> set (fst (np_polls store ts np)))"
  using assms
proof (induction ts arbitrary: np)
  case (Cons timer ts)
  let ?R = "ep_ReadyList (np_EpollInstance np)"
  let ?k = "fd_FD (store ! ev_FD ev)"
  let ?E = "(\<lambda>ev. fd_FD (store ! ev_FD ev)) ` set (take 64 ?R)"
  from PollAndWakeup_spec [OF Cons.prems(1), of store timer] obtain w np1 where
    p: "PollAndWakeup store timer np = (w, np1)" "np_inv np1"
    "ep_ReadyList (np_EpollInstance np1) = drop 64 ?R"
    "\<forall>k. np_ParkedGs np1 k = (if k \<in> ?E then None else np_ParkedGs np k)"
    "\<forall>g. g \<in> set w \<longleftrightarrow> (\<exists>ev\<in>set (take 64 ?R). np_ParkedGs np (fd_FD (store ! ev_FD ev)) = Some g)"
    by blast
  obtain w' np2 where q: "np_polls store ts np1 = (w', np2)" by fastforce
  have eq: "np_polls store (timer # ts) np = (w @ w', np2)" using p(1) q by simp
  show ?case
  proof (cases "?k \<in> ?E")
    case True
    then have "np_ParkedGs np1 ?k = None" using p(4) by simp
    from np_polls_none [OF p(2) this, of store ts] have "np_ParkedGs np2 ?k = None" using q by simp
    moreover have "g \<in> set w" if "np_ParkedGs np ?k = Some g" for g
      using True that p(5) by auto
    ultimately show ?thesis unfolding eq by simp
  next
    case False
    then have "ev \<notin> set (take 64 ?R)" by auto
    moreover have "set ?R = set (take 64 ?R) \<union> set (drop 64 ?R)" by (metis append_take_drop_id set_append)
    ultimately have "ev \<in> set (ep_ReadyList (np_EpollInstance np1))" using Cons.prems(3) p(3) by auto
    moreover have "length (ep_ReadyList (np_EpollInstance np1)) \<le> 64 * length ts"
      using Cons.prems(2) p(3) by simp
    ultimately have "np_ParkedGs np2 ?k = None \<and> (\<forall>g. np_ParkedGs np1 ?k = Some g \<longrightarrow> g \<in> set w')"
      using Cons.IH [OF p(2)] q by simp
    then show ?thesis unfolding eq using False p(4) by simp
  qed
qed simp


definition np_example :: "np_op list" where
  "np_example = [NpRead 7 0, NpRead 8 1, NpData 1 [1, 2], NpInterrupt 1 1]"


section \<open>What the poller misses\<close>

text \<open>A second goroutine that parks on a descriptor displaces the first, which nothing wakes.\<close>

lemma second_reader_displaces:
  assumes "p < length store" and "\<not> fd_IsReady (store ! p)"
  defines "np1 \<equiv> snd (snd (ReadNonBlocking 1 p store NewGoNetpoller))"
  defines "np2 \<equiv> snd (snd (ReadNonBlocking 2 p store np1))"
  shows "np_TotalParked np2 = 2"
    and "np_ParkedGs np2 = [fd_FD (store ! p) \<mapsto> \<lparr>ng_GID = 2, ng_FD = fd_FD (store ! p)\<rparr>]"
  using assms(2)
  by (simp_all add: np2_def np1_def ReadNonBlocking_def Read_check_def Read_park_def Read_register_def
      NewGoNetpoller_def EpollCtl_keeps)

text \<open>
  An interrupt between the look at the descriptor and its registration is dropped: the descriptor
  is not marked ready and no event is queued, so the goroutine parks on data that are there.
\<close>

lemma interrupt_before_registration:
  assumes "np_ParkedGs np k = None" and "np_inv np" and "fd_FD (store ! p) = k"
  shows "NotifyDeviceInterrupt p events store (np_EpollInstance (Read_park gid (store ! p) np)) =
     (store, np_EpollInstance np)"
  using assms by (simp add: NotifyDeviceInterrupt_def Read_park_def np_inv_def)

text \<open>
  A token that stays in the channel after its event was taken by the first half of \<open>EpollWait\<close>
  ends a later wait at once with no event; and an event stays in the ready list when its
  descriptor is removed.
\<close>

lemma stale_token:
  "\<exists>s. epoll_exec [OpCtl 1 0 None, OpNotify 0 1, OpEnter 8, OpEnter 8, OpWoken] (epoll_init two_fds) = Some s \<and>
     es_out s = es_in s \<and> length (es_out s) = 1"
proof -
  have "map_option (\<lambda>s. (map ev_FD (es_out s), map ev_FD (es_in s), map ev_Events (es_out s), map ev_Events (es_in s)))
     (epoll_exec [OpCtl 1 0 None, OpNotify 0 1, OpEnter 8, OpEnter 8, OpWoken] (epoll_init two_fds)) =
     Some ([0], [0], [1], [1])" by code_simp
  then show ?thesis by (auto simp: map_eq_Cons_conv)
qed

lemma removed_descriptor_reported:
  "\<exists>s. epoll_exec [OpCtl 1 0 None, OpNotify 0 1, OpCtl 3 0 None, OpEnter 8] (epoll_init two_fds) = Some s \<and>
     map ev_FD (es_out s) = [0] \<and> ep_InterestList (es_ep s) 3 = None"
proof -
  have "map_option (\<lambda>s. (map ev_FD (es_out s), ep_InterestList (es_ep s) 3 = None))
     (epoll_exec [OpCtl 1 0 None, OpNotify 0 1, OpCtl 3 0 None, OpEnter 8] (epoll_init two_fds)) = Some ([0], True)"
    by code_simp
  then show ?thesis by auto
qed

end
