(* ===== verification/Rendering.thy ===== *)
theory Rendering
  imports CPU_Process
begin

text \<open>
  \<open>pkg/visualizer\<close>: escape codes, banners and boxes (\<open>ansi.go\<close>), tables (\<open>table.go\<close>) and Gantt
  charts (\<open>gantt.go\<close>). A Go string is a list of bytes; the box drawing characters are written as
  their UTF-8 encodings, so that \<open>len\<close> counts as in Go. What a terminal shows of a string are
  the characters outside the escape sequences; its columns are the bytes that do not continue a
  UTF-8 character.
\<close>

section \<open>Escape codes\<close>

definition sgr :: "string \<Rightarrow> string" where
  "sgr n = CHR 0x1B # CHR ''['' # n @ ''m''"

definition Reset :: string where "Reset = sgr ''0''"
definition Bold :: string where "Bold = sgr ''1''"
definition Dim :: string where "Dim = sgr ''2''"
definition Italic :: string where "Italic = sgr ''3''"
definition Underline :: string where "Underline = sgr ''4''"
definition FgBlack :: string where "FgBlack = sgr ''30''"
definition FgRed :: string where "FgRed = sgr ''31''"
definition FgGreen :: string where "FgGreen = sgr ''32''"
definition FgYellow :: string where "FgYellow = sgr ''33''"
definition FgBlue :: string where "FgBlue = sgr ''34''"
definition FgMagenta :: string where "FgMagenta = sgr ''35''"
definition FgCyan :: string where "FgCyan = sgr ''36''"
definition FgWhite :: string where "FgWhite = sgr ''37''"
definition FgHiBlack :: string where "FgHiBlack = sgr ''90''"
definition FgHiRed :: string where "FgHiRed = sgr ''91''"
definition FgHiGreen :: string where "FgHiGreen = sgr ''92''"
definition FgHiYellow :: string where "FgHiYellow = sgr ''93''"
definition FgHiBlue :: string where "FgHiBlue = sgr ''94''"
definition FgHiMagenta :: string where "FgHiMagenta = sgr ''95''"
definition FgHiCyan :: string where "FgHiCyan = sgr ''96''"
definition FgHiWhite :: string where "FgHiWhite = sgr ''97''"
definition BgBlack :: string where "BgBlack = sgr ''40''"
definition BgRed :: string where "BgRed = sgr ''41''"
definition BgGreen :: string where "BgGreen = sgr ''42''"
definition BgYellow :: string where "BgYellow = sgr ''43''"
definition BgBlue :: string where "BgBlue = sgr ''44''"
definition BgMagenta :: string where "BgMagenta = sgr ''45''"
definition BgCyan :: string where "BgCyan = sgr ''46''"
definition BgWhite :: string where "BgWhite = sgr ''47''"

lemmas code_defs =
  Reset_def Bold_def Dim_def Italic_def Underline_def FgBlack_def
  FgRed_def FgGreen_def FgYellow_def FgBlue_def FgMagenta_def FgCyan_def
  FgWhite_def FgHiBlack_def FgHiRed_def FgHiGreen_def FgHiYellow_def FgHiBlue_def
  FgHiMagenta_def FgHiCyan_def FgHiWhite_def BgBlack_def BgRed_def BgGreen_def
  BgYellow_def BgBlue_def BgMagenta_def BgCyan_def BgWhite_def

definition bx_h :: string where "bx_h = [CHR 0xE2, CHR 0x94, CHR 0x80]"
definition bx_v :: string where "bx_v = [CHR 0xE2, CHR 0x94, CHR 0x82]"
definition bx_tl :: string where "bx_tl = [CHR 0xE2, CHR 0x94, CHR 0x8C]"
definition bx_tr :: string where "bx_tr = [CHR 0xE2, CHR 0x94, CHR 0x90]"
definition bx_bl :: string where "bx_bl = [CHR 0xE2, CHR 0x94, CHR 0x94]"
definition bx_br :: string where "bx_br = [CHR 0xE2, CHR 0x94, CHR 0x98]"
definition bx_lt :: string where "bx_lt = [CHR 0xE2, CHR 0x94, CHR 0x9C]"
definition bx_rt :: string where "bx_rt = [CHR 0xE2, CHR 0x94, CHR 0xA4]"
definition bx_tt :: string where "bx_tt = [CHR 0xE2, CHR 0x94, CHR 0xAC]"
definition bx_bt :: string where "bx_bt = [CHR 0xE2, CHR 0x94, CHR 0xB4]"
definition bx_x :: string where "bx_x = [CHR 0xE2, CHR 0x94, CHR 0xBC]"
definition bx_dh :: string where "bx_dh = [CHR 0xE2, CHR 0x95, CHR 0x90]"
definition bx_dv :: string where "bx_dv = [CHR 0xE2, CHR 0x95, CHR 0x91]"

lemmas box_defs =
  bx_h_def bx_v_def bx_tl_def bx_tr_def bx_bl_def bx_br_def bx_lt_def
  bx_rt_def bx_tt_def bx_bt_def bx_x_def bx_dh_def bx_dv_def

definition nl :: string where "nl = [CHR 0x0A]"

text \<open>\<open>strings.Repeat\<close>, which the program calls with counts that are not negative.\<close>

definition Repeat :: "string \<Rightarrow> int \<Rightarrow> string" where
  "Repeat s n = concat (replicate (nat n) s)"

fun strip_loop :: "bool \<Rightarrow> string \<Rightarrow> string" where
  "strip_loop inEscape [] = []"
| "strip_loop inEscape (c # cs) =
     (if c = CHR 0x1B then strip_loop True cs
      else if inEscape then strip_loop (c \<noteq> CHR ''m'') cs
      else c # strip_loop False cs)"

definition StripANSI :: "string \<Rightarrow> string" where
  "StripANSI str = strip_loop False str"

definition Colorize :: "string \<Rightarrow> string \<Rightarrow> string" where
  "Colorize color s = color @ s @ Reset"

definition Cyan :: "string \<Rightarrow> string" where "Cyan s = Colorize FgCyan s"
definition Green :: "string \<Rightarrow> string" where "Green s = Colorize FgGreen s"
definition Yellow :: "string \<Rightarrow> string" where "Yellow s = Colorize FgYellow s"
definition Red :: "string \<Rightarrow> string" where "Red s = Colorize FgRed s"
definition Blue :: "string \<Rightarrow> string" where "Blue s = Colorize FgBlue s"
definition Magenta :: "string \<Rightarrow> string" where "Magenta s = Colorize FgMagenta s"
definition Gray :: "string \<Rightarrow> string" where "Gray s = Colorize FgHiBlack s"
definition HiCyan :: "string \<Rightarrow> string" where "HiCyan s = Colorize FgHiCyan s"
definition HiGreen :: "string \<Rightarrow> string" where "HiGreen s = Colorize FgHiGreen s"
definition HiYellow :: "string \<Rightarrow> string" where "HiYellow s = Colorize FgHiYellow s"
definition HiRed :: "string \<Rightarrow> string" where "HiRed s = Colorize FgHiRed s"
definition HiMagenta :: "string \<Rightarrow> string" where "HiMagenta s = Colorize FgHiMagenta s"

section \<open>Banners and boxes\<close>

definition SectionHeader :: "string \<Rightarrow> string" where
  "SectionHeader title =
     (let width = 70;
          pad = width - int (length title) - 4;
          pad = (if pad < 2 then 2 else pad);
          leftPad = pad div 2;
          rightPad = pad - leftPad;
          border = Repeat bx_dh width;
          content = bx_dv @ '' '' @ Repeat '' '' leftPad @ (Bold @ FgHiCyan @ title @ Reset) @
                      Repeat '' '' rightPad @ '' '' @ bx_dv
      in nl @ (FgCyan @ border @ Reset) @ nl @ content @ nl @ (FgCyan @ border @ Reset) @ nl)"

definition SubHeader :: "string \<Rightarrow> string" where
  "SubHeader title =
     (let pad = 70 - int (length title);
          pad = (if pad < 4 then 4 else pad)
      in nl @ FgHiYellow @ bx_h @ bx_h @ '' '' @ (Bold @ FgHiWhite) @ title @ '' '' @
         (FgHiYellow @ Repeat bx_h pad @ Reset) @ nl)"

fun max_clean :: "nat \<Rightarrow> string list \<Rightarrow> nat" where
  "max_clean maxLen [] = maxLen"
| "max_clean maxLen (l # ls) =
     max_clean (if length (StripANSI l) > maxLen then length (StripANSI l) else maxLen) ls"

definition box_width :: "string \<Rightarrow> string list \<Rightarrow> int" where
  "box_width title ls =
     (let width = int (max_clean (length title) ls) + 4 in if width < 40 then 40 else width)"

definition box_top :: "int \<Rightarrow> string \<Rightarrow> string" where
  "box_top width title =
     (let titlePad = width - int (length title) - 4;
          titlePad = (if titlePad < 0 then 0 else titlePad)
      in FgCyan @ bx_tl @ bx_h @ '' '' @ (Bold @ FgHiWhite) @ title @ '' '' @
         (FgCyan @ Repeat bx_h titlePad) @ bx_tr @ Reset @ nl)"

definition box_line :: "int \<Rightarrow> string \<Rightarrow> string" where
  "box_line width l =
     (let cleanLen = int (length (StripANSI l));
          pad = width - cleanLen - 2;
          pad = (if pad < 0 then 0 else pad)
      in FgCyan @ bx_v @ Reset @ '' '' @ l @ Repeat '' '' pad @ FgCyan @ bx_v @ Reset @ nl)"

definition box_bottom :: "int \<Rightarrow> string" where
  "box_bottom width = FgCyan @ bx_bl @ Repeat bx_h width @ bx_br @ Reset @ nl"

definition Box :: "string \<Rightarrow> string list \<Rightarrow> string" where
  "Box title ls =
     (let width = box_width title ls
      in box_top width title @ concat (map (box_line width) ls) @ box_bottom width)"

definition Badge :: "string \<Rightarrow> string \<Rightarrow> string \<Rightarrow> string" where
  "Badge s bgColor fgColor = bgColor @ (fgColor @ Bold) @ '' '' @ s @ '' '' @ Reset"

section \<open>Tables\<close>

record Table =
  tb_Headers :: "string list"
  tb_Rows :: "string list list"
  tb_Align :: "string list"

definition NewTable :: "string list \<Rightarrow> Table" where
  "NewTable headers = \<lparr>tb_Headers = headers, tb_Rows = [], tb_Align = replicate (length headers) []\<rparr>"

definition AddRow :: "string list \<Rightarrow> Table \<Rightarrow> Table" where
  "AddRow cols t = t\<lparr>tb_Rows := tb_Rows t @ [cols]\<rparr>"

definition SetAlignment :: "string list \<Rightarrow> Table \<Rightarrow> Table" where
  "SetAlignment align t = t\<lparr>tb_Align := align\<rparr>"

definition padString :: "string \<Rightarrow> int \<Rightarrow> string \<Rightarrow> string" where
  "padString s width align =
     (let rawLen = int (length (StripANSI s))
      in if rawLen \<ge> width then s
         else let pad = width - rawLen
              in if align = ''right'' then Repeat '' '' pad @ s
                 else if align = ''center''
                 then let left = pad div 2; right = pad - left
                      in Repeat '' '' left @ s @ Repeat '' '' right
                 else s @ Repeat '' '' pad)"

fun widen_row :: "nat \<Rightarrow> string list \<Rightarrow> nat list \<Rightarrow> nat list" where
  "widen_row i [] ws = ws"
| "widen_row i (cell # cells) ws =
     widen_row (Suc i) cells
       (if i < length ws \<and> length (StripANSI cell) > ws ! i then ws[i := length (StripANSI cell)] else ws)"

definition colWidths :: "Table \<Rightarrow> nat list" where
  "colWidths t =
     foldl (\<lambda>ws row. widen_row 0 row ws) (map (\<lambda>h. length (StripANSI h)) (tb_Headers t)) (tb_Rows t)"

definition table_border :: "string \<Rightarrow> string \<Rightarrow> string \<Rightarrow> nat list \<Rightarrow> string" where
  "table_border l m r ws =
     FgCyan @ l @
     concat (map (\<lambda>i. Repeat bx_h (int (ws ! i) + 2) @ (if i + 1 < length ws then m else []))
       [0..<length ws]) @
     r @ nl @ Reset"

definition header_row :: "string list \<Rightarrow> nat list \<Rightarrow> string" where
  "header_row hs ws =
     FgCyan @ bx_v @ Reset @
     concat (map (\<lambda>i. '' '' @ Bold @ FgHiWhite @ padString (hs ! i) (int (ws ! i)) ''center'' @ Reset @
       '' '' @ FgCyan @ bx_v @ Reset) [0..<length hs]) @ nl"

definition table_row :: "string list \<Rightarrow> nat list \<Rightarrow> string list \<Rightarrow> string" where
  "table_row aligns ws row =
     FgCyan @ bx_v @ Reset @
     concat (map (\<lambda>i.
       let val = (if i < length row then row ! i else []);
           align = (if i < length aligns \<and> aligns ! i \<noteq> [] then aligns ! i else ''left'')
       in '' '' @ padString val (int (ws ! i)) align @ '' '' @ FgCyan @ bx_v @ Reset)
       [0..<length ws]) @ nl"

definition Render :: "Table \<Rightarrow> string" where
  "Render t =
     (let ws = colWidths t
      in table_border bx_tl bx_tt bx_tr ws @ header_row (tb_Headers t) ws @
         table_border bx_lt bx_x bx_rt ws @ concat (map (table_row (tb_Align t) ws) (tb_Rows t)) @
         table_border bx_bl bx_bt bx_br ws)"

section \<open>Gantt charts\<close>

fun merge_loop :: "GanttSegment list \<Rightarrow> GanttSegment list \<Rightarrow> GanttSegment list" where
  "merge_loop merged [] = merged"
| "merge_loop merged (seg # segs) =
     merge_loop
       (if length merged > 0 \<and> gs_EntityID (merged ! (length merged - 1)) = gs_EntityID seg \<and>
           gs_EndTime (merged ! (length merged - 1)) = gs_StartTime seg
        then merged[length merged - 1 := (merged ! (length merged - 1))\<lparr>gs_EndTime := gs_EndTime seg\<rparr>]
        else merged @ [seg]) segs"

definition palette :: "string list" where
  "palette = [FgHiGreen, FgHiYellow, FgHiCyan, FgHiMagenta, FgHiBlue, FgGreen, FgYellow, FgCyan]"

fun color_loop :: "GanttSegment list \<Rightarrow> nat \<Rightarrow> (string \<rightharpoonup> string) \<Rightarrow> (string \<rightharpoonup> string)" where
  "color_loop [] pIdx cm = cm"
| "color_loop (seg # segs) pIdx cm =
     (if gs_EntityID seg = ''IDLE'' then color_loop segs pIdx (cm(gs_EntityID seg \<mapsto> FgHiBlack))
      else if cm (gs_EntityID seg) = None
      then color_loop segs (pIdx + 1) (cm(gs_EntityID seg \<mapsto> palette ! (pIdx mod length palette)))
      else color_loop segs pIdx cm)"

definition seg_width :: "GanttSegment \<Rightarrow> int" where
  "seg_width seg =
     (let duration = gs_EndTime seg - gs_StartTime seg;
          width = duration * 3;
          width = (if width < 5 then 5 else width)
      in if width > 20 then 20 else width)"

definition seg_color :: "(string \<rightharpoonup> string) \<Rightarrow> GanttSegment \<Rightarrow> string" where
  "seg_color cm seg =
     (if gs_Color seg \<noteq> [] then gs_Color seg
      else case cm (gs_EntityID seg) of Some c \<Rightarrow> c | None \<Rightarrow> [])"

definition gantt_border :: "string \<Rightarrow> string \<Rightarrow> string \<Rightarrow> GanttSegment list \<Rightarrow> string" where
  "gantt_border l m r segs =
     FgCyan @ l @
     concat (map (\<lambda>i. Repeat bx_h (seg_width (segs ! i)) @ (if i + 1 < length segs then m else []))
       [0..<length segs]) @
     r @ Reset"

definition gantt_labels :: "(string \<rightharpoonup> string) \<Rightarrow> GanttSegment list \<Rightarrow> string" where
  "gantt_labels cm segs =
     FgCyan @ bx_v @ Reset @
     concat (map (\<lambda>seg. padString ((seg_color cm seg @ Bold) @ gs_EntityID seg @ Reset) (seg_width seg) ''center'' @
       FgCyan @ bx_v @ Reset) segs)"

text \<open>The format \<open>%-2d\<close>.\<close>

definition left2 :: "int \<Rightarrow> string" where
  "left2 n = itoa n @ Repeat '' '' (2 - int (length (itoa n)))"

fun time_loop :: "int \<Rightarrow> GanttSegment list \<Rightarrow> string" where
  "time_loop currentPos [] = []"
| "time_loop currentPos (seg # segs) =
     (let targetPos = currentPos + seg_width seg + 1;
          endStr = itoa (gs_EndTime seg);
          spacing = targetPos - currentPos - int (length endStr);
          spacing = (if spacing < 1 then 1 else spacing)
      in Repeat '' '' spacing @ endStr @ time_loop targetPos segs)"

definition RenderGanttChart :: "GanttSegment list \<Rightarrow> string" where
  "RenderGanttChart segments =
     (if length segments = 0 then ''No execution recorded.'' @ nl
      else let merged = merge_loop [] segments;
               colorMap = color_loop merged 0 Map.empty
           in gantt_border bx_tl bx_tt bx_tr merged @ nl @
              gantt_labels colorMap merged @ nl @
              gantt_border bx_bl bx_bt bx_br merged @ nl @
              (FgHiWhite @ left2 (gs_StartTime (merged ! 0)) @ time_loop 2 merged @ Reset) @ nl)"

section \<open>What the terminal shows\<close>

text \<open>Whether a string leaves an escape sequence open.\<close>

fun esc_end :: "bool \<Rightarrow> string \<Rightarrow> bool" where
  "esc_end b [] = b"
| "esc_end b (c # cs) = esc_end (c = CHR 0x1B \<or> (b \<and> c \<noteq> CHR ''m'')) cs"

definition cont_byte :: "char \<Rightarrow> bool" where
  "cont_byte c \<longleftrightarrow> (of_char c :: nat) div 64 = 2"

text \<open>The number of columns of each line of a string that a line feed ends.\<close>

fun line_cols :: "nat \<Rightarrow> string \<Rightarrow> nat list" where
  "line_cols k [] = []"
| "line_cols k (c # cs) =
     (if c = CHR 0x0A then k # line_cols 0 cs else line_cols (if cont_byte c then k else k + 1) cs)"

definition line_widths :: "string \<Rightarrow> nat list" where
  "line_widths s = line_cols 0 (StripANSI s)"

definition columns :: "string \<Rightarrow> nat" where
  "columns s = length (filter (\<lambda>c. \<not> cont_byte c) (StripANSI s))"

text \<open>A piece of a line of \<open>n\<close> columns, a page of lines, and text whose bytes are its columns.\<close>

definition wide :: "string \<Rightarrow> nat \<Rightarrow> bool" where
  "wide s n \<longleftrightarrow> \<not> esc_end False s \<and> CHR 0x0A \<notin> set (StripANSI s) \<and> columns s = n"

definition page :: "string \<Rightarrow> nat list \<Rightarrow> bool" where
  "page s ns \<longleftrightarrow> \<not> esc_end False s \<and> (\<forall>rest. line_cols 0 (StripANSI s @ rest) = ns @ line_cols 0 rest)"

definition plain_text :: "string \<Rightarrow> bool" where
  "plain_text s \<longleftrightarrow> \<not> esc_end False s \<and> (\<forall>c\<in>set (StripANSI s). c \<noteq> CHR 0x0A \<and> \<not> cont_byte c)"

abbreviation shown_len :: "string \<Rightarrow> nat" where
  "shown_len s \<equiv> length (StripANSI s)"

lemma strip_loop_append: "strip_loop b (s @ t) = strip_loop b s @ strip_loop (esc_end b s) t"
  by (induction b s rule: strip_loop.induct) auto

lemma esc_end_append [simp]: "esc_end b (s @ t) = esc_end (esc_end b s) t"
  by (induction s arbitrary: b) auto

lemma StripANSI_append: "\<not> esc_end False s \<Longrightarrow> StripANSI (s @ t) = StripANSI s @ StripANSI t"
  by (simp add: StripANSI_def strip_loop_append)

lemma StripANSI_clean: "CHR 0x1B \<notin> set (StripANSI s)"
proof -
  have "CHR 0x1B \<notin> set (strip_loop b s)" for b by (induction b s rule: strip_loop.induct) auto
  then show ?thesis by (simp add: StripANSI_def)
qed

lemma StripANSI_id: "CHR 0x1B \<notin> set s \<Longrightarrow> StripANSI s = s"
  by (induction s) (auto simp: StripANSI_def)

lemma esc_end_id: "CHR 0x1B \<notin> set s \<Longrightarrow> \<not> esc_end False s"
  by (induction s) auto

lemma StripANSI_idem: "StripANSI (StripANSI s) = StripANSI s"
  by (rule StripANSI_id [OF StripANSI_clean])

lemma wide_append [intro]: "wide s a \<Longrightarrow> wide t b \<Longrightarrow> wide (s @ t) (a + b)"
  by (simp add: wide_def columns_def StripANSI_append)

lemma wide_eq: "wide s a \<Longrightarrow> a = b \<Longrightarrow> wide s b"
  by simp

lemma wide_Nil: "wide [] 0"
  by (simp add: wide_def columns_def StripANSI_def)

lemma wide_concat:
  assumes "\<And>x. x \<in> set xs \<Longrightarrow> wide (f x) (g x)"
  shows "wide (concat (map f xs)) (\<Sum>x\<leftarrow>xs. g x)"
  using assms by (induction xs) (auto simp: wide_Nil)

lemma wide_Repeat: "wide s 1 \<Longrightarrow> wide (Repeat s n) (nat n)"
proof -
  assume s: "wide s 1"
  have "wide (concat (replicate k s)) k" for k
    by (induction k) (use wide_append [OF s] in \<open>auto simp: wide_Nil\<close>)
  then show ?thesis by (simp add: Repeat_def)
qed

lemma wide_codes:
  "wide Reset 0" "wide Bold 0" "wide FgCyan 0" "wide FgHiWhite 0" "wide FgHiCyan 0" "wide FgHiYellow 0"
  "wide FgHiBlack 0" "wide FgHiGreen 0" "wide FgHiMagenta 0" "wide FgHiBlue 0" "wide FgGreen 0" "wide FgYellow 0"
  by (simp_all add: code_defs sgr_def wide_def columns_def StripANSI_def)

lemma wide_boxes:
  "wide bx_h 1" "wide bx_v 1" "wide bx_tl 1" "wide bx_tr 1" "wide bx_bl 1" "wide bx_br 1" "wide bx_lt 1"
  "wide bx_rt 1" "wide bx_tt 1" "wide bx_bt 1" "wide bx_x 1" "wide bx_dh 1" "wide bx_dv 1" "wide '' '' 1"
  by (simp_all add: box_defs wide_def columns_def StripANSI_def cont_byte_def)

lemma wide_text: "plain_text s \<Longrightarrow> wide s (shown_len s)"
  by (auto simp: plain_text_def wide_def columns_def)

lemma wide_line_cols: "wide s n \<Longrightarrow> line_cols k (StripANSI s @ rest) = line_cols (k + n) rest"
proof -
  have "CHR 0x0A \<notin> set v \<Longrightarrow> line_cols k (v @ rest) = line_cols (k + length (filter (\<lambda>c. \<not> cont_byte c) v)) rest" for v k
    by (induction v arbitrary: k) auto
  then show "wide s n \<Longrightarrow> ?thesis" by (simp add: wide_def columns_def)
qed

lemma nl_facts: "StripANSI nl = [CHR 0x0A]" "\<not> esc_end False nl"
  by (simp_all add: nl_def StripANSI_def)

lemma page_line: "wide s n \<Longrightarrow> page (s @ nl) [n]"
  using wide_line_cols [of s n 0] by (auto simp: page_def StripANSI_append nl_facts wide_def)

lemma page_line_eq: "wide s n \<Longrightarrow> n = k \<Longrightarrow> t = s @ nl \<Longrightarrow> page t [k]"
  using page_line by simp

lemma page_after: "page s ns \<Longrightarrow> wide t 0 \<Longrightarrow> page (s @ t) ns"
  using wide_line_cols [of t 0 0] by (auto simp: page_def StripANSI_append wide_def)

lemma page_append: "page s a \<Longrightarrow> page t b \<Longrightarrow> page (s @ t) (a @ b)"
  by (auto simp: page_def StripANSI_append)

lemma page_Nil: "page [] []"
  by (simp add: page_def StripANSI_def)

lemma page_concat:
  assumes "\<And>x. x \<in> set xs \<Longrightarrow> page (f x) [n]"
  shows "page (concat (map f xs)) (replicate (length xs) n)"
  using assms
proof (induction xs)
  case (Cons x xs)
  from page_append [OF Cons.prems [of x] Cons.IH] Cons.prems show ?case by simp
qed (simp add: page_Nil)

lemma page_widths: "page s ns \<Longrightarrow> line_widths s = ns"
  unfolding page_def line_widths_def by (metis append.right_neutral line_cols.simps(1))

section \<open>Padding\<close>

lemma padString_wide:
  assumes "plain_text s"
  shows "wide (padString s w a) (max (shown_len s) (nat w))"
proof (cases "int (shown_len s) \<ge> w")
  case True
  then have "max (shown_len s) (nat w) = shown_len s" by simp
  with True show ?thesis using wide_text [OF assms] by (simp only: padString_def Let_def if_True)
next
  case False
  let ?p = "w - int (shown_len s)"
  note sp = wide_Repeat [OF wide_boxes(14)] and s = wide_text [OF assms]
  have e: "max (shown_len s) (nat w) = shown_len s + nat ?p" "nat ?p = nat (?p div 2) + nat (?p - ?p div 2)"
    using False by auto
  have "wide (Repeat '' '' ?p @ s) (shown_len s + nat ?p)" "wide (s @ Repeat '' '' ?p) (shown_len s + nat ?p)"
    "wide (Repeat '' '' (?p div 2) @ s @ Repeat '' '' (?p - ?p div 2)) (shown_len s + nat ?p)"
    using wide_append [OF sp s, of ?p] wide_append [OF s sp, of ?p]
      wide_append [OF sp wide_append [OF s sp], of "?p div 2" "?p - ?p div 2"] e(2)
    by (simp_all add: ac_simps)
  then show ?thesis using False by (simp add: padString_def Let_def e(1))
qed

section \<open>Tables\<close>

lemma widen_row_length [simp]: "length (widen_row i cells ws) = length ws"
  by (induction i cells ws rule: widen_row.induct) auto

lemma widen_row_mono: "k < length ws \<Longrightarrow> ws ! k \<le> widen_row i cells ws ! k"
proof (induction i cells ws rule: widen_row.induct)
  case (2 i cell cells ws)
  then show ?case by (fastforce simp: nth_list_update split: if_splits)
qed simp

lemma widen_row_fits:
  "j < length cells \<Longrightarrow> i + j < length ws \<Longrightarrow> shown_len (cells ! j) \<le> widen_row i cells ws ! (i + j)"
proof (induction i cells ws arbitrary: j rule: widen_row.induct)
  case (2 i cell cells ws)
  let ?ws = "if i < length ws \<and> length (StripANSI cell) > ws ! i then ws[i := length (StripANSI cell)] else ws"
  show ?case
  proof (cases j)
    case 0
    have "shown_len cell \<le> ?ws ! i" using 2(3) 0 by auto
    also have "\<dots> \<le> widen_row (Suc i) cells ?ws ! i" using 2(3) 0 by (intro widen_row_mono) auto
    finally show ?thesis using 0 by simp
  next
    case (Suc j')
    then show ?thesis using 2(1) [of j'] 2(2,3) by auto
  qed
qed simp

lemma widen_rows:
  defines "W ws rows \<equiv> foldl (\<lambda>ws row. widen_row 0 row ws) ws rows"
  shows "length (W ws rows) = length ws"
    and "k < length ws \<Longrightarrow> ws ! k \<le> W ws rows ! k"
    and "row \<in> set rows \<Longrightarrow> k < length row \<Longrightarrow> k < length ws \<Longrightarrow> shown_len (row ! k) \<le> W ws rows ! k"
proof -
  show l: "length (W ws rows) = length ws" for ws unfolding W_def by (induction rows arbitrary: ws) auto
  show m: "k < length ws \<Longrightarrow> ws ! k \<le> W ws rows ! k" for k ws rows unfolding W_def
  proof (induction rows arbitrary: ws)
    case (Cons r rows)
    from Cons.IH [of "widen_row 0 r ws"] widen_row_mono [OF Cons.prems, of 0 r] Cons.prems show ?case by simp
  qed simp
  show "row \<in> set rows \<Longrightarrow> k < length row \<Longrightarrow> k < length ws \<Longrightarrow> shown_len (row ! k) \<le> W ws rows ! k"
  proof (induction rows arbitrary: ws)
    case (Cons r rows)
    have "shown_len (row ! k) \<le> widen_row 0 r ws ! k" if "row = r"
      using widen_row_fits [of k r 0 ws] Cons.prems that by simp
    then show ?case
      using Cons.IH [of "widen_row 0 r ws"] m [of k "widen_row 0 r ws" rows] Cons.prems
      by (auto simp: W_def intro: order_trans)
  qed simp
qed

lemma colWidths_length [simp]: "length (colWidths t) = length (tb_Headers t)"
  by (simp add: colWidths_def widen_rows(1))

lemma colWidths_header: "k < length (tb_Headers t) \<Longrightarrow> shown_len (tb_Headers t ! k) \<le> colWidths t ! k"
  using widen_rows(2) [of k "map (\<lambda>h. length (StripANSI h)) (tb_Headers t)" "tb_Rows t"] by (simp add: colWidths_def)

lemma colWidths_cell:
  "row \<in> set (tb_Rows t) \<Longrightarrow> k < length row \<Longrightarrow> k < length (tb_Headers t) \<Longrightarrow> shown_len (row ! k) \<le> colWidths t ! k"
  using widen_rows(3) [of row "tb_Rows t" k "map (\<lambda>h. length (StripANSI h)) (tb_Headers t)"] by (simp add: colWidths_def)

definition table_width :: "nat list \<Rightarrow> nat" where
  "table_width ws = 1 + (\<Sum>w\<leftarrow>ws. w + 3)"

lemma sum_upt_nth: "(\<Sum>i\<leftarrow>[0..<length ws]. f (ws ! i)) = (\<Sum>w\<leftarrow>ws. (f w :: nat))"
proof -
  have "map (\<lambda>i. f (ws ! i)) [0..<length ws] = map f ws" by (rule nth_equalityI) auto
  then show ?thesis by simp
qed

text \<open>A border: the bars of the columns with a joint between two.\<close>

lemma bars_wide:
  assumes "xs \<noteq> []" "wide m 1"
  shows "wide (concat (map (\<lambda>i. Repeat bx_h (w (xs ! i)) @ (if i + 1 < length xs then m else [])) [0..<length xs]))
     ((\<Sum>x\<leftarrow>xs. nat (w x) + 1) - 1)"
proof -
  obtain k where k: "length xs = Suc k" using assms(1) by (cases xs) auto
  let ?g = "\<lambda>i. nat (w (xs ! i)) + (if i + 1 < length xs then 1 else 0)"
  have "wide (Repeat bx_h (w (xs ! i)) @ (if i + 1 < length xs then m else [])) (?g i)" for i
    by (rule wide_append [OF wide_Repeat [OF wide_boxes(1)]]) (use assms(2) wide_Nil in auto)
  from wide_concat [of "[0..<length xs]", OF this] have "wide (concat (map (\<lambda>i. Repeat bx_h (w (xs ! i)) @
      (if i + 1 < length xs then m else [])) [0..<length xs])) (\<Sum>i\<leftarrow>[0..<length xs]. ?g i)" by simp
  moreover have "(\<Sum>i\<leftarrow>[0..<length xs]. ?g i) = (\<Sum>i\<leftarrow>[0..<length xs]. nat (w (xs ! i)) + 1) - 1"
    by (simp add: k interv_sum_list_conv_sum_set_nat)
  ultimately show ?thesis by (simp only: sum_upt_nth [of "\<lambda>x. nat (w x) + 1"])
qed

lemma sum_ge_1: "xs \<noteq> [] \<Longrightarrow> 1 \<le> (\<Sum>x\<leftarrow>xs. f x + (1::nat))"
  by (cases xs) auto

lemma table_border_page:
  assumes "ws \<noteq> []" "wide l 1" "wide m 1" "wide r 1"
  shows "page (table_border l m r ws) [table_width ws]"
proof -
  let ?n = "(\<Sum>x\<leftarrow>ws. nat (int x + 2) + 1)"
  have e: "nat (int x + 2) + 1 = x + 3" for x by simp
  have n: "0 + (1 + (?n - 1 + 1)) = table_width ws"
    using sum_ge_1 [OF assms(1), of "\<lambda>x. nat (int x + 2)"] unfolding table_width_def e by simp
  note b = wide_append [OF wide_codes(3) wide_append [OF assms(2) wide_append [OF
        bars_wide [OF assms(1,3), of "\<lambda>x. int x + 2"] assms(4)]]]
  from page_after [OF page_line [OF b] wide_codes(1)] show ?thesis
    unfolding n by (simp add: table_border_def)
qed

lemma cells_page:
  assumes "\<And>i. i < length ws \<Longrightarrow> wide (f i) (ws ! i + 3)"
  shows "page (FgCyan @ bx_v @ Reset @ concat (map f [0..<length ws]) @ nl) [table_width ws]"
proof -
  have "wide (concat (map f [0..<length ws])) (\<Sum>i\<leftarrow>[0..<length ws]. ws ! i + 3)"
    by (rule wide_concat) (use assms in auto)
  then have "wide (concat (map f [0..<length ws])) (\<Sum>w\<leftarrow>ws. w + 3)" by (simp only: sum_upt_nth [of "\<lambda>w. w + 3"])
  from page_line [OF wide_append [OF wide_codes(3) wide_append [OF wide_boxes(2) wide_append [OF wide_codes(1) this]]]]
  show ?thesis by (simp add: table_width_def)
qed

lemma header_row_page:
  assumes "length hs = length ws" "\<And>i. i < length ws \<Longrightarrow> plain_text (hs ! i) \<and> shown_len (hs ! i) \<le> ws ! i"
  shows "page (header_row hs ws) [table_width ws]"
  unfolding header_row_def assms(1)
proof (rule cells_page)
  fix i assume i: "i < length ws"
  with assms(2) have p: "wide (padString (hs ! i) (int (ws ! i)) ''center'') (ws ! i)"
    using padString_wide [of "hs ! i" "int (ws ! i)" "''center''"] by (simp add: max_def split: if_splits)
  note w = wide_append
  have "wide ('' '' @ Bold @ FgHiWhite @ padString (hs ! i) (int (ws ! i)) ''center'' @ Reset @ '' '' @ FgCyan @ bx_v @ Reset)
      (1 + (0 + (0 + (ws ! i + (0 + (1 + (0 + (1 + 0))))))))"
    by (intro w p wide_boxes wide_codes)
  then show "wide ('' '' @ Bold @ FgHiWhite @ padString (hs ! i) (int (ws ! i)) ''center'' @ Reset @ '' '' @ FgCyan @ bx_v @ Reset) (ws ! i + 3)"
    by (simp add: numeral_3_eq_3)
qed

lemma plain_Nil: "plain_text []"
  by (simp add: plain_text_def StripANSI_def)

lemma table_row_page:
  assumes "\<And>i. i < length ws \<Longrightarrow> i < length row \<Longrightarrow> plain_text (row ! i) \<and> shown_len (row ! i) \<le> ws ! i"
  shows "page (table_row aligns ws row) [table_width ws]"
  unfolding table_row_def Let_def
proof (rule cells_page)
  fix i assume i: "i < length ws"
  define v where "v = (if i < length row then row ! i else [])"
  define a where "a = (if i < length aligns \<and> aligns ! i \<noteq> [] then aligns ! i else ''left'')"
  have "plain_text v" "shown_len v \<le> ws ! i"
    using assms [OF i] plain_Nil by (auto simp: v_def StripANSI_def)
  then have p: "wide (padString v (int (ws ! i)) a) (ws ! i)"
    using padString_wide [of v "int (ws ! i)" a] by (simp add: max_def split: if_splits)
  have "wide ('' '' @ padString v (int (ws ! i)) a @ '' '' @ FgCyan @ bx_v @ Reset) (1 + (ws ! i + (1 + (0 + (1 + 0)))))"
    by (intro wide_append p wide_boxes wide_codes)
  then show "wide ('' '' @ padString (if i < length row then row ! i else []) (int (ws ! i))
      (if i < length aligns \<and> aligns ! i \<noteq> [] then aligns ! i else ''left'') @ '' '' @ FgCyan @ bx_v @ Reset) (ws ! i + 3)"
    by (simp add: v_def a_def numeral_3_eq_3)
qed

text \<open>C32: A table is drawn as a rectangle. When a table has a column and its headers and cells are single-line text of one-column
  characters, with or without colour codes, all its lines show the same number of columns: the top border, the header, the
  separator, one line per row and the bottom border. A row may have fewer or more cells than there are headers, and the alignments may be anything.\<close>

theorem Render_rectangular:
  assumes "tb_Headers t \<noteq> []" and "\<forall>h\<in>set (tb_Headers t). plain_text h" and "\<forall>row\<in>set (tb_Rows t). \<forall>c\<in>set row. plain_text c"
  shows "line_widths (Render t) = replicate (length (tb_Rows t) + 4) (table_width (colWidths t))"
proof -
  let ?ws = "colWidths t"
  have ne: "?ws \<noteq> []" using assms(1) colWidths_length [of t] by force
  note b = table_border_page [OF ne]
  have h: "page (header_row (tb_Headers t) ?ws) [table_width ?ws]"
    by (rule header_row_page) (use assms(2) colWidths_header in auto)
  have r: "page (table_row (tb_Align t) ?ws row) [table_width ?ws]" if row: "row \<in> set (tb_Rows t)" for row
    by (rule table_row_page) (use assms(3) row colWidths_cell [OF row] in auto)
  have "page (Render t) ([table_width ?ws] @ [table_width ?ws] @ [table_width ?ws] @
      replicate (length (tb_Rows t)) (table_width ?ws) @ [table_width ?ws])"
    unfolding Render_def Let_def by (intro page_append b h page_concat r wide_boxes)
  from page_widths [OF this] show ?thesis
    by (simp add: replicate_append_same eval_nat_numeral)
qed

section \<open>Gantt charts\<close>

text \<open>Segments that follow each other without a gap from time \<open>a\<close> to time \<open>b\<close>, and who runs at each tick of them.\<close>

fun chart :: "int \<Rightarrow> GanttSegment list \<Rightarrow> int \<Rightarrow> bool" where
  "chart a [] b \<longleftrightarrow> a = b"
| "chart a (s # ss) b \<longleftrightarrow> gs_StartTime s = a \<and> a < gs_EndTime s \<and> chart (gs_EndTime s) ss b"

definition timeline :: "GanttSegment list \<Rightarrow> string list" where
  "timeline segs = concat (map (\<lambda>s. replicate (nat (gs_EndTime s - gs_StartTime s)) (gs_EntityID s)) segs)"

abbreviation changes :: "GanttSegment list \<Rightarrow> bool" where
  "changes segs \<equiv> successively (\<lambda>x y. gs_EntityID x \<noteq> gs_EntityID y) segs"

lemma chart_append: "chart a (xs @ ys) b \<longleftrightarrow> (\<exists>m. chart a xs m \<and> chart m ys b)"
  by (induction xs arbitrary: a) auto

lemma timeline_simps [simp]:
  "timeline [] = []" "timeline (xs @ ys) = timeline xs @ timeline ys"
  "timeline (s # ss) = replicate (nat (gs_EndTime s - gs_StartTime s)) (gs_EntityID s) @ timeline ss"
  by (simp_all add: timeline_def)

lemma merge_loop_spec:
  assumes "chart a acc m" "chart m segs b" "changes acc"
  shows "chart a (merge_loop acc segs) b \<and> timeline (merge_loop acc segs) = timeline acc @ timeline segs \<and>
     changes (merge_loop acc segs)"
  using assms
proof (induction segs arbitrary: acc m)
  case (Cons s ss)
  note s = Cons.prems(2) [simplified]
  show ?case
  proof (cases acc rule: rev_cases)
    case Nil
    with Cons s show ?thesis using Cons.IH [of "[s]" "gs_EndTime s"] by simp
  next
    case (snoc xs l)
    then obtain k where k: "chart a xs k" "gs_StartTime l = k" "k < gs_EndTime l" "gs_EndTime l = m"
      using Cons.prems(1) by (auto simp: chart_append)
    show ?thesis
    proof (cases "gs_EntityID l = gs_EntityID s")
      case False
      have "chart a (acc @ [s]) (gs_EndTime s)" "changes (acc @ [s])"
        using Cons.prems s False by (auto simp: chart_append snoc successively_append_iff)
      from Cons.IH [OF this(1) _ this(2)] s False show ?thesis by (simp add: snoc)
    next
      case True
      let ?l = "l\<lparr>gs_EndTime := gs_EndTime s\<rparr>"
      have acc: "chart a (xs @ [?l]) (gs_EndTime s)" "changes (xs @ [?l])"
        using k s Cons.prems(3) by (auto simp: chart_append snoc successively_append_iff)
      have t: "timeline (xs @ [?l]) = timeline acc @ replicate (nat (gs_EndTime s - gs_StartTime s)) (gs_EntityID s)"
        using k s True by (simp add: snoc replicate_add [symmetric] nat_add_distrib [symmetric])
      have e: "merge_loop acc (s # ss) = merge_loop (xs @ [?l]) ss"
        using k s True by (simp add: snoc)
      from Cons.IH [OF acc(1) _ acc(2)] s t show ?thesis unfolding e by simp
    qed
  qed
qed simp

lemma merge_loop_Nil:
  assumes "chart a segs b"
  shows "chart a (merge_loop [] segs) b" "timeline (merge_loop [] segs) = timeline segs" "changes (merge_loop [] segs)"
  using merge_loop_spec [of a "[]" a segs b] assms by simp_all

lemma chart_ne: "chart a segs b \<Longrightarrow> a < b \<Longrightarrow> segs \<noteq> []"
  by auto

lemma chart_le: "chart a segs b \<Longrightarrow> a \<le> b"
  by (induction segs arbitrary: a) fastforce+

subsection \<open>Its lines\<close>

definition invisible :: "string \<Rightarrow> bool" where
  "invisible c \<longleftrightarrow> \<not> esc_end False c \<and> StripANSI c = []"

lemma invisible_codes:
  "invisible []" "invisible Reset" "invisible Bold" "invisible FgHiBlack" "\<forall>c\<in>set palette. invisible c"
  by (simp_all add: code_defs sgr_def invisible_def StripANSI_def palette_def)

lemma color_loop_ran:
  assumes "\<forall>c\<in>ran cm. invisible c"
  shows "\<forall>c\<in>ran (color_loop segs i cm). invisible c"
  using assms
proof (induction segs i cm rule: color_loop.induct)
  case (2 seg segs i cm)
  have p: "invisible (palette ! (i mod length palette))"
    by (rule bspec [OF invisible_codes(5)], rule nth_mem) (simp add: palette_def)
  have u: "\<forall>c\<in>ran (cm(k \<mapsto> x)). invisible c" if "invisible x" for k x
    using that 2(4) by (auto simp: ran_def)
  show ?case
  proof (cases "gs_EntityID seg = ''IDLE''")
    case True
    from 2(1) [OF True u [OF invisible_codes(4)]] True show ?thesis by (simp only: color_loop.simps simp_thms if_True)
  next
    case no: False
    show ?thesis
    proof (cases "cm (gs_EntityID seg) = None")
      case True
      from 2(2) [OF no True u [OF p]] no True show ?thesis by (simp only: color_loop.simps simp_thms if_True if_False)
    next
      case False
      from 2(3) [OF no False 2(4)] no False show ?thesis by (simp only: color_loop.simps simp_thms if_False)
    qed
  qed
qed simp

lemma seg_color_invisible:
  assumes "\<forall>c\<in>ran cm. invisible c" "invisible (gs_Color s)"
  shows "invisible (seg_color cm s)"
  using assms invisible_codes(1) by (auto simp: seg_color_def ran_def split: option.splits)

lemma label_text:
  assumes "plain_text i" "invisible c"
  shows "plain_text ((c @ Bold) @ i @ Reset)" "shown_len ((c @ Bold) @ i @ Reset) = shown_len i"
  using assms invisible_codes(2,3) by (auto simp: plain_text_def invisible_def StripANSI_append)

text \<open>What the chart asks of a segment to draw it straight: a label and an end time that fit the bar.\<close>

definition fits :: "GanttSegment \<Rightarrow> bool" where
  "fits s \<longleftrightarrow> plain_text (gs_EntityID s) \<and> invisible (gs_Color s) \<and> int (shown_len (gs_EntityID s)) \<le> seg_width s \<and>
     int (length (itoa (gs_EndTime s))) \<le> seg_width s"

definition chart_width :: "GanttSegment list \<Rightarrow> nat" where
  "chart_width segs = 1 + (\<Sum>s\<leftarrow>segs. nat (seg_width s) + 1)"

lemma seg_width_bounds: "5 \<le> seg_width s" "seg_width s \<le> 20"
  by (simp_all add: seg_width_def Let_def)

lemma dec_digits_range: "c \<in> set (dec_digits n) \<Longrightarrow> 48 \<le> (of_char c :: nat) \<and> (of_char c :: nat) \<le> 57"
proof (induction n rule: dec_digits.induct)
  case (1 n)
  have m: "n mod 10 < 10" by simp
  show ?case
    using 1 m by (subst (asm) (2) dec_digits.simps) (auto split: if_splits)
qed

lemma itoa_wide: "wide (itoa n) (length (itoa n))" 
proof -
  have c: "c \<noteq> CHR 0x1B \<and> c \<noteq> CHR 0x0A \<and> \<not> cont_byte c" if "c \<in> set (itoa n)" for c
  proof -
    have "(of_char c :: nat) = 45 \<or> 48 \<le> (of_char c :: nat) \<and> (of_char c :: nat) \<le> 57"
      using that dec_digits_range by (auto simp: itoa_def split: if_splits)
    then have "(of_char c :: nat) \<noteq> 27" "(of_char c :: nat) \<noteq> 10" "(of_char c :: nat) div 64 \<noteq> 2" by auto
    then show ?thesis by (auto simp: cont_byte_def)
  qed
  then have e: "StripANSI (itoa n) = itoa n" "\<not> esc_end False (itoa n)"
    using StripANSI_id esc_end_id by blast+
  have "plain_text (itoa n)" using c e by (simp add: plain_text_def)
  from wide_text [OF this] e show ?thesis by simp
qed

lemma time_loop_wide:
  assumes "\<forall>s\<in>set segs. fits s"
  shows "wide (time_loop p segs) (\<Sum>s\<leftarrow>segs. nat (seg_width s) + 1)"
  using assms
proof (induction segs arbitrary: p)
  case (Cons s segs)
  let ?e = "itoa (gs_EndTime s)"
  have f: "int (length ?e) \<le> seg_width s" using Cons.prems by (simp add: fits_def)
  let ?sp = "seg_width s + 1 - int (length ?e)"
  have "wide (Repeat '' '' ?sp @ ?e @ time_loop (p + seg_width s + 1) segs)
      (nat ?sp + (length ?e + (\<Sum>s\<leftarrow>segs. nat (seg_width s) + 1)))"
    using Cons by (intro wide_append wide_Repeat wide_boxes itoa_wide) auto
  moreover have "nat ?sp + length ?e = nat (seg_width s) + 1" using f by simp
  then have "nat ?sp + (length ?e + (\<Sum>s\<leftarrow>segs. nat (seg_width s) + 1)) = (\<Sum>s\<leftarrow>s # segs. nat (seg_width s) + 1)" by simp
  ultimately have "wide (Repeat '' '' ?sp @ ?e @ time_loop (p + seg_width s + 1) segs) (\<Sum>s\<leftarrow>s # segs. nat (seg_width s) + 1)"
    by (rule wide_eq)
  moreover have "(if p + seg_width s + 1 - p - int (length ?e) < 1 then 1 else p + seg_width s + 1 - p - int (length ?e)) = ?sp"
    using f by simp
  ultimately show ?case by (simp only: time_loop.simps Let_def)
qed (simp add: wide_Nil)

lemma gantt_border_wide:
  assumes "segs \<noteq> []" "wide l 1" "wide m 1" "wide r 1"
  shows "wide (gantt_border l m r segs) (chart_width segs)"
proof -
  let ?n = "(\<Sum>s\<leftarrow>segs. nat (seg_width s) + 1)"
  have "wide (gantt_border l m r segs) (0 + (1 + ((?n - 1) + (1 + 0))))"
    unfolding gantt_border_def using bars_wide [OF assms(1,3), of seg_width]
    by (intro wide_append wide_codes assms) simp
  with sum_ge_1 [OF assms(1), of "\<lambda>s. nat (seg_width s)"] show ?thesis by (simp add: chart_width_def)
qed

lemma gantt_labels_wide:
  assumes "\<forall>s\<in>set segs. fits s" "\<forall>c\<in>ran cm. invisible c"
  shows "wide (gantt_labels cm segs) (chart_width segs)"
proof -
  have l: "wide (padString ((seg_color cm s @ Bold) @ gs_EntityID s @ Reset) (seg_width s) ''center'' @ FgCyan @ bx_v @ Reset)
      (nat (seg_width s) + 1)" if "s \<in> set segs" for s
  proof -
    have f: "plain_text (gs_EntityID s)" "invisible (gs_Color s)" "int (shown_len (gs_EntityID s)) \<le> seg_width s"
      using assms(1) that by (auto simp: fits_def)
    note t = label_text [OF f(1) seg_color_invisible [OF assms(2) f(2)]]
    have "wide (padString ((seg_color cm s @ Bold) @ gs_EntityID s @ Reset) (seg_width s) ''center'') (nat (seg_width s))"
      using padString_wide [OF t(1), of "seg_width s" "''center''"] t(2) f(3) by (simp add: max_def split: if_splits)
    then have "wide (padString ((seg_color cm s @ Bold) @ gs_EntityID s @ Reset) (seg_width s) ''center'' @ FgCyan @ bx_v @ Reset)
      (nat (seg_width s) + (0 + (1 + 0)))" by (intro wide_append wide_codes wide_boxes)
    then show ?thesis by simp
  qed
  have "wide (gantt_labels cm segs) (0 + (1 + (0 + (\<Sum>s\<leftarrow>segs. nat (seg_width s) + 1))))"
    unfolding gantt_labels_def by (intro wide_append wide_codes wide_boxes wide_concat l)
  then show ?thesis by (simp add: chart_width_def)
qed

lemma left2_wide: "length (itoa n) \<le> 2 \<Longrightarrow> wide (left2 n) 2"
  unfolding left2_def
  by (rule wide_eq [OF wide_append [OF itoa_wide wide_Repeat [OF wide_boxes(14)]]]) simp

lemma gantt_page:
  assumes "segs \<noteq> []" "\<forall>s\<in>set segs. fits s" "length (itoa (gs_StartTime (segs ! 0))) \<le> 2" "\<forall>c\<in>ran cm. invisible c"
  shows "page (gantt_border bx_tl bx_tt bx_tr segs @ nl @ gantt_labels cm segs @ nl @ gantt_border bx_bl bx_bt bx_br segs @ nl @
      (FgHiWhite @ left2 (gs_StartTime (segs ! 0)) @ time_loop 2 segs @ Reset) @ nl)
    [chart_width segs, chart_width segs, chart_width segs, chart_width segs + 1]"
proof -
  let ?W = "chart_width segs"
  have "wide (FgHiWhite @ left2 (gs_StartTime (segs ! 0)) @ time_loop 2 segs @ Reset)
      (0 + (2 + ((\<Sum>s\<leftarrow>segs. nat (seg_width s) + 1) + 0)))"
    using assms by (intro wide_append wide_codes left2_wide time_loop_wide)
  then have t: "wide (FgHiWhite @ left2 (gs_StartTime (segs ! 0)) @ time_loop 2 segs @ Reset) (?W + 1)"
    by (simp add: chart_width_def)
  have b: "page (gantt_border l m r segs @ nl) [?W]" if "wide l 1" "wide m 1" "wide r 1" for l m r
    by (rule page_line [OF gantt_border_wide [OF assms(1) that]])
  have "page ((gantt_border bx_tl bx_tt bx_tr segs @ nl) @ (gantt_labels cm segs @ nl) @ (gantt_border bx_bl bx_bt bx_br segs @ nl) @
      ((FgHiWhite @ left2 (gs_StartTime (segs ! 0)) @ time_loop 2 segs @ Reset) @ nl)) ([?W] @ [?W] @ [?W] @ [?W + 1])"
    by (intro page_append b page_line gantt_labels_wide t assms wide_boxes)
  then show ?thesis by simp
qed


definition sample_segments :: "GanttSegment list" where
  "sample_segments = [\<lparr>gs_EntityID = ''P1'', gs_StartTime = 0, gs_EndTime = 1, gs_Color = []\<rparr>,
     \<lparr>gs_EntityID = ''P1'', gs_StartTime = 1, gs_EndTime = 2, gs_Color = []\<rparr>,
     \<lparr>gs_EntityID = ''IDLE'', gs_StartTime = 2, gs_EndTime = 3, gs_Color = []\<rparr>]"

lemma sample_fits:
  "chart 0 sample_segments 3 \<and> (\<forall>s\<in>set (merge_loop [] sample_segments). fits s) \<and> length (itoa 0) \<le> 2 \<and>
   chart_width (merge_loop [] sample_segments) = 14 \<and> length (merge_loop [] sample_segments) = 2"
  by code_simp


section \<open>Banners and boxes\<close>

text \<open>The bottom of a box is one column wider than its top and its lines.\<close>

theorem Box_bottom_wider:
  assumes "plain_text title" "StripANSI title = title" "\<forall>l\<in>set ls. plain_text l"
  shows "line_widths (Box title ls) =
    (let w = nat (box_width title ls) in replicate (length ls + 1) (w + 1) @ [w + 2])"
proof -
  define w where "w = box_width title ls"
  have mc: "max_clean m ls \<ge> m \<and> (\<forall>l\<in>set ls. shown_len l \<le> max_clean m ls)" for m ls
    by (induction ls arbitrary: m) (auto intro: order_trans, (meson le_trans nat_le_linear not_less)+)
  have ge: "int (length title) + 4 \<le> w" "l \<in> set ls \<Longrightarrow> int (shown_len l) + 4 \<le> w" for l
    using mc [of "length title" ls] unfolding w_def box_width_def Let_def by force+
  have "wide (FgCyan @ bx_tl @ bx_h @ '' '' @ (Bold @ FgHiWhite) @ title @ '' '' @
      (FgCyan @ Repeat bx_h (w - int (length title) - 4)) @ bx_tr @ Reset)
      (0 + (1 + (1 + (1 + ((0 + 0) + (shown_len title + (1 + ((0 + nat (w - int (length title) - 4)) + (1 + 0)))))))))"
    by (intro wide_append wide_codes wide_boxes wide_Repeat wide_text assms)
  then have top: "page (box_top w title) [nat w + 1]"
    by (rule page_line_eq) (use ge(1) assms(2) in \<open>simp_all add: box_top_def\<close>)
  have line: "page (box_line w l) [nat w + 1]" if l: "l \<in> set ls" for l
  proof -
    have "wide (FgCyan @ bx_v @ Reset @ '' '' @ l @ Repeat '' '' (w - int (shown_len l) - 2) @ FgCyan @ bx_v @ Reset)
      (0 + (1 + (0 + (1 + (shown_len l + (nat (w - int (shown_len l) - 2) + (0 + (1 + 0))))))))"
      using assms(3) l by (intro wide_append wide_codes wide_boxes wide_Repeat wide_text) auto
    then show ?thesis by (rule page_line_eq) (use ge(2) [OF l] in \<open>simp_all add: box_line_def Let_def\<close>)
  qed
  have "wide (FgCyan @ bx_bl @ Repeat bx_h w @ bx_br @ Reset) (0 + (1 + (nat w + (1 + 0))))"
    by (intro wide_append wide_codes wide_boxes wide_Repeat)
  then have bottom: "page (box_bottom w) [nat w + 2]" by (rule page_line_eq) (simp_all add: box_bottom_def)
  have "page (Box title ls) ([nat w + 1] @ replicate (length ls) (nat w + 1) @ [nat w + 2])"
    unfolding Box_def Let_def w_def [symmetric] by (intro page_append top bottom page_concat line)
  from page_widths [OF this] show ?thesis by (simp add: w_def Let_def)
qed

text \<open>A bullet is one column and three bytes, so the right border of a line with a bullet is two columns short.\<close>

lemma Box_bullet_short:
  "line_widths (Box ''T'' [''a'', [CHR 0xE2, CHR 0x80, CHR 0xA2] @ '' a'']) = [41, 41, 39, 42]"
  by code_simp

text \<open>A banner is a rectangle of 70 columns for every title of at most 64 characters.\<close>

lemma SectionHeader_rectangular:
  assumes "plain_text title" "StripANSI title = title" "length title \<le> 64"
  shows "line_widths (SectionHeader title) = [0, 70, 70, 70]"
proof -
  let ?p = "70 - int (length title) - 4"
  have p: "\<not> ?p < 2" "nat (?p div 2) + nat (?p - ?p div 2) = 66 - length title" using assms(3) by auto
  have b: "wide (FgCyan @ Repeat bx_dh 70 @ Reset) (0 + (nat 70 + 0))"
    by (intro wide_append wide_codes wide_boxes wide_Repeat)
  have c: "wide (bx_dv @ '' '' @ Repeat '' '' (?p div 2) @ (Bold @ FgHiCyan @ title @ Reset) @ Repeat '' '' (?p - ?p div 2) @ '' '' @ bx_dv)
     (1 + (1 + (nat (?p div 2) + ((0 + (0 + (shown_len title + 0))) + (nat (?p - ?p div 2) + (1 + 1))))))"
    by (intro wide_append wide_codes wide_boxes wide_Repeat wide_text assms)
  have n: "1 + (1 + (nat (?p div 2) + ((0 + (0 + (shown_len title + 0))) + (nat (?p - ?p div 2) + (1 + 1))))) = 70"
    using p(2) assms(2,3) by simp
  have "page (([] @ nl) @ ((FgCyan @ Repeat bx_dh 70 @ Reset) @ nl) @
      ((bx_dv @ '' '' @ Repeat '' '' (?p div 2) @ (Bold @ FgHiCyan @ title @ Reset) @ Repeat '' '' (?p - ?p div 2) @ '' '' @ bx_dv) @ nl) @
      ((FgCyan @ Repeat bx_dh 70 @ Reset) @ nl)) ([0] @ [0 + (nat 70 + 0)] @ [70] @ [0 + (nat 70 + 0)])"
    using c unfolding n by (intro page_append page_line wide_Nil b)
  from page_widths [OF this] p(1) show ?thesis by (simp add: SectionHeader_def Let_def)
qed

definition sample_table :: Table where
  "sample_table = AddRow [''10''] (AddRow [FgGreen @ ''READY'' @ Reset, ''7'', ''extra''] (NewTable [''State'', ''PID'']))"

lemma sample_table_facts:
  "tb_Headers sample_table \<noteq> [] \<and> (\<forall>h\<in>set (tb_Headers sample_table). plain_text h) \<and>
   (\<forall>row\<in>set (tb_Rows sample_table). \<forall>c\<in>set row. plain_text c) \<and> length (tb_Rows sample_table) = 2 \<and>
   table_width (colWidths sample_table) = 15"
  by code_simp

theorem Render_rectangular_witness:
  "tb_Headers sample_table \<noteq> [] \<and> line_widths (Render sample_table) = [15, 15, 15, 15, 15, 15]"
  using Render_rectangular [of sample_table] sample_table_facts by (simp add: eval_nat_numeral)


end
