(* ===== verification/Debugger.thy ===== *)
theory Debugger
  imports OS_Kernel
begin

text \<open>
  The interactive debugger of \<open>cmd/os-sim/main.go\<close>: it reads lines from the terminal and drives the kernel, its
  process table and its scheduler. A session is the list of lines typed, in ASCII; what is printed is a list of structured values.
\<close>

section \<open>Reading a line\<close>

definition is_space :: "char \<Rightarrow> bool" where
  "is_space c \<longleftrightarrow> (of_char c :: nat) \<in> {9, 10, 11, 12, 13, 32}"

text \<open>\<open>strings.TrimSpace\<close>, \<open>strings.Fields\<close> and \<open>strings.ToLower\<close> on ASCII.\<close>

definition TrimSpace :: "string \<Rightarrow> string" where
  "TrimSpace s = rev (dropWhile is_space (rev (dropWhile is_space s)))"

fun fields_loop :: "string \<Rightarrow> string \<Rightarrow> string list" where
  "fields_loop w [] = (if w = [] then [] else [w])"
| "fields_loop w (c # cs) =
     (if is_space c then (if w = [] then fields_loop [] cs else w # fields_loop [] cs)
      else fields_loop (w @ [c]) cs)"

definition Fields :: "string \<Rightarrow> string list" where
  "Fields s = fields_loop [] s"

definition ToLower :: "string \<Rightarrow> string" where
  "ToLower s = map (\<lambda>c. let n = (of_char c :: nat) in if 65 \<le> n \<and> n \<le> 90 then char_of (n + 32) else c) s"

text \<open>\<open>strconv.Atoi\<close>: the number and whether there was an error. A syntax error gives zero, a number out of range the nearest one.\<close>

fun parse_uint :: "int \<Rightarrow> string \<Rightarrow> int \<times> bool \<times> bool" where
  "parse_uint n [] = (n, False, False)"
| "parse_uint n (c # cs) =
     (let d = int (of_char c) - 48 in
      if d < 0 \<or> 9 < d then (0, True, False)
      else if 2 ^ 64 \<le> 10 * n + d then (2 ^ 64 - 1, True, True)
      else parse_uint (10 * n + d) cs)"

definition Atoi :: "string \<Rightarrow> int \<times> bool" where
  "Atoi s =
     (let neg = (s \<noteq> [] \<and> hd s = CHR ''-'');
          ds = (if s \<noteq> [] \<and> (hd s = CHR ''-'' \<or> hd s = CHR ''+'') then tl s else s)
      in if ds = [] then (0, True)
         else let (un, err, range) = parse_uint 0 ds
              in if err \<and> \<not> range then (0, True)
                 else if \<not> neg \<and> 2 ^ 63 \<le> un then (2 ^ 63 - 1, True)
                 else if neg \<and> 2 ^ 63 < un then (- (2 ^ 63), True)
                 else ((if neg then - un else un), False))"

section \<open>The commands\<close>

datatype dbg_out =
    OutStep kernel_line
  | OutDashboard
  | OutForkError lifecycle_error
  | OutForked int int
  | OutExecUsage
  | OutExecNoProcess
  | OutExeced int string
  | OutExitError lifecycle_error
  | OutExited int
  | OutWaitError lifecycle_error
  | OutReaped int int int
  | OutTree
  | OutHelp
  | OutUnknown

type_synonym dbg_kernel = "SliceSched OSKernel"

text \<open>A process of the first process that runs a program and is known to the scheduler.\<close>

definition dbg_spawn :: "string \<Rightarrow> int \<Rightarrow> dbg_kernel \<Rightarrow> dbg_kernel option" where
  "dbg_spawn name burst k =
     (case Fork (k_ProcManager k) 1 of
        Some (pm, Inr p) \<Rightarrow>
          (case Exec pm (up_PID p) name [] of
             None \<Rightarrow> None
           | Some (pm', _) \<Rightarrow>
               Some (k\<lparr>k_ProcManager := pm', k_Scheduler := RR_AddProcess (k_Scheduler k) (NewProcess (up_PID p) name 0 burst)\<rparr>))
      | _ \<Rightarrow> None)"

definition debugger_start :: "dbg_kernel option" where
  "debugger_start =
     Option.bind (NewOSKernel RR_AddProcess (NewRRScheduler 2)) (\<lambda>k.
     Option.bind (dbg_spawn ''http_server'' 15 k) (\<lambda>k.
     dbg_spawn ''db_worker'' 10 k))"

fun dbg_steps :: "nat \<Rightarrow> dbg_kernel \<Rightarrow> (dbg_kernel \<times> dbg_out list) option" where
  "dbg_steps 0 k = Some (k, [])"
| "dbg_steps (Suc n) k =
     (case Step rr_tick s_allProcesses k of
        None \<Rightarrow> None
      | Some (k', msg) \<Rightarrow> map_option (\<lambda>(k'', outs). (k'', OutStep msg # outs)) (dbg_steps n k'))"

definition step_count :: "string list \<Rightarrow> nat" where
  "step_count parts =
     (if length parts > 1 then let (n, err) = Atoi (parts ! 1) in if \<not> err \<and> n > 0 then nat n else 1 else 1)"

definition dbg_fork :: "dbg_kernel \<Rightarrow> (dbg_kernel \<times> dbg_out list) option" where
  "dbg_fork k =
     (let parentPID = (case k_RunningProcess k of None \<Rightarrow> 1 | Some pid \<Rightarrow> pid) in
      case Fork (k_ProcManager k) parentPID of
        None \<Rightarrow> None
      | Some (pm, Inl err) \<Rightarrow> Some (k\<lparr>k_ProcManager := pm\<rparr>, [OutForkError err])
      | Some (pm, Inr child) \<Rightarrow>
          Some (k\<lparr>k_ProcManager := pm,
                  k_Scheduler := RR_AddProcess (k_Scheduler k) (NewProcess (up_PID child) (up_Name child) (k_CurrentTick k) 8)\<rparr>,
                [OutForked (up_PID child) parentPID]))"

definition dbg_exec :: "string list \<Rightarrow> dbg_kernel \<Rightarrow> (dbg_kernel \<times> dbg_out list) option" where
  "dbg_exec parts k =
     (if length parts < 2 then Some (k, [OutExecUsage])
      else case k_RunningProcess k of
             None \<Rightarrow> Some (k, [OutExecNoProcess])
           | Some pid \<Rightarrow>
               map_option (\<lambda>(pm, _). (k\<lparr>k_ProcManager := pm\<rparr>, [OutExeced pid (parts ! 1)]))
                 (Exec (k_ProcManager k) pid (parts ! 1) []))"

definition dbg_kill :: "string list \<Rightarrow> dbg_kernel \<Rightarrow> (dbg_kernel \<times> dbg_out list) option" where
  "dbg_kill parts k =
     (let targetPID = (if length parts > 1 then fst (Atoi (parts ! 1))
                       else case k_RunningProcess k of None \<Rightarrow> 1 | Some pid \<Rightarrow> pid)
      in map_option (\<lambda>(pm, err). (k\<lparr>k_ProcManager := pm\<rparr>,
             [case err of Some e \<Rightarrow> OutExitError e | None \<Rightarrow> OutExited targetPID]))
           (Exit (k_ProcManager k) targetPID 0))"

definition dbg_wait :: "string list \<Rightarrow> dbg_kernel \<Rightarrow> dbg_kernel \<times> dbg_out list" where
  "dbg_wait parts k =
     (let parentPID = (if length parts > 1 then fst (Atoi (parts ! 1)) else 1);
          (pm, r) = Wait (k_ProcManager k) parentPID
      in (k\<lparr>k_ProcManager := pm\<rparr>,
          [case r of Inl err \<Rightarrow> OutWaitError err | Inr (reaped, exitCode) \<Rightarrow> OutReaped parentPID reaped exitCode]))"

text \<open>One command; the flag says that the session ends.\<close>

definition dbg_command :: "string list \<Rightarrow> dbg_kernel \<Rightarrow> ((dbg_kernel \<times> dbg_out list) \<times> bool) option" where
  "dbg_command parts k =
     (let c = ToLower (parts ! 0); go = map_option (\<lambda>r. (r, False)) in
      if c \<in> {''s'', ''step''} then go (dbg_steps (step_count parts) k)
      else if c \<in> {''dash'', ''d''} then go (Some (k, [OutDashboard]))
      else if c \<in> {''fork'', ''f''} then go (dbg_fork k)
      else if c \<in> {''exec'', ''e''} then go (dbg_exec parts k)
      else if c \<in> {''kill'', ''exit''} then go (dbg_kill parts k)
      else if c \<in> {''wait'', ''w''} then go (Some (dbg_wait parts k))
      else if c = ''ps'' then go (Some (k, [OutTree]))
      else if c \<in> {''q'', ''quit'', ''exit-dbg''} then Some ((k, []), True)
      else if c \<in> {''help'', ''h''} then go (Some (k, [OutHelp]))
      else go (Some (k, [OutUnknown])))"

fun dbg_loop :: "string list \<Rightarrow> dbg_kernel \<Rightarrow> (dbg_kernel \<times> dbg_out list) option" where
  "dbg_loop [] k = Some (k, [])"
| "dbg_loop (line # ls) k =
     (let parts = Fields (TrimSpace line) in
      if length parts = 0 then dbg_loop ls k
      else case dbg_command parts k of
             None \<Rightarrow> None
           | Some ((k', outs), quit) \<Rightarrow>
               if quit then Some (k', outs)
               else map_option (\<lambda>(k'', outs'). (k'', outs @ outs')) (dbg_loop ls k'))"

definition runInteractiveDebugger :: "string list \<Rightarrow> (dbg_kernel \<times> dbg_out list) option" where
  "runInteractiveDebugger ls = Option.bind debugger_start (dbg_loop ls)"

section \<open>Reading numbers\<close>

text \<open>The debugger reads back every process number that it prints.\<close>

lemma digit_char: "n < 10 \<Longrightarrow> int (of_char (char_of (48 + n :: nat) :: char)) - 48 = int n"
  by simp

lemma parse_uint_append:
  "parse_uint a xs = (v, False, r) \<Longrightarrow> parse_uint a (xs @ ys) = parse_uint v ys"
  by (induction a xs rule: parse_uint.induct) (auto simp: Let_def split: if_splits)

lemma parse_uint_digits: "n < 2 ^ 64 \<Longrightarrow> parse_uint 0 (dec_digits n) = (int n, False, False)"
proof (induction n rule: dec_digits.induct)
  case (1 n)
  show ?case
  proof (cases "n < 10")
    case True
    then show ?thesis by (simp add: dec_digits.simps [of n] Let_def)
  next
    case False
    have d: "10 * int (n div 10) + int (n mod 10) = int n" by presburger
    have "parse_uint 0 (dec_digits (n div 10)) = (int (n div 10), False, False)" using 1 False by simp
    from parse_uint_append [OF this, of "[char_of (48 + n mod 10)]"] False 1(2) d
    show ?thesis by (simp add: dec_digits.simps [of n] Let_def)
  qed
qed

lemma dec_digits_first: "dec_digits n \<noteq> [] \<and> hd (dec_digits n) \<noteq> CHR ''-'' \<and> hd (dec_digits n) \<noteq> CHR ''+''"
proof (induction n rule: dec_digits.induct)
  case (1 n)
  have c: "char_of (48 + k :: nat) \<noteq> CHR ''-'' \<and> char_of (48 + k :: nat) \<noteq> CHR ''+''" if "k < 10" for k
  proof -
    have v: "(of_char (char_of (48 + k :: nat) :: char) :: nat) = 48 + k" using that by simp
    have "char_of (48 + k :: nat) \<noteq> CHR ''-''"
    proof
      assume e: "char_of (48 + k :: nat) = CHR ''-''"
      from v show False unfolding e by simp
    qed
    moreover have "char_of (48 + k :: nat) \<noteq> CHR ''+''"
    proof
      assume e: "char_of (48 + k :: nat) = CHR ''+''"
      from v show False unfolding e by simp
    qed
    ultimately show ?thesis by blast
  qed
  show ?case
  proof (cases "n < 10")
    case True
    with c [of n] show ?thesis by (simp add: dec_digits.simps [of n])
  next
    case False
    with 1 show ?thesis by (simp add: dec_digits.simps [of n])
  qed
qed

lemma Atoi_itoa:
  assumes "- (2 ^ 63) \<le> n" "n < 2 ^ 63"
  shows "Atoi (itoa n) = (n, False)"
proof (cases "n < 0")
  case True
  then have "parse_uint 0 (dec_digits (nat (- n))) = (- n, False, False)"
    using parse_uint_digits [of "nat (- n)"] assms by simp
  with True assms show ?thesis using dec_digits_first [of "nat (- n)"] by (simp add: Atoi_def itoa_def)
next
  case False
  then have "parse_uint 0 (dec_digits (nat n)) = (n, False, False)"
    using parse_uint_digits [of "nat n"] assms by simp
  with False assms show ?thesis using dec_digits_first [of "nat n"] by (simp add: Atoi_def itoa_def)
qed

section \<open>A session\<close>

text \<open>The lines of the ticks, the children forked with their parents, and the errors that a fork or an exec may print.\<close>

definition stepped :: "dbg_out list \<Rightarrow> kernel_line list" where
  "stepped outs = concat (map (\<lambda>out. case out of OutStep l \<Rightarrow> [l] | _ \<Rightarrow> []) outs)"

definition forked :: "dbg_out list \<Rightarrow> (int \<times> int) list" where
  "forked outs = concat (map (\<lambda>out. case out of OutForked c p \<Rightarrow> [(c, p)] | _ \<Rightarrow> []) outs)"

definition refused :: "dbg_out list \<Rightarrow> dbg_out list" where
  "refused outs = filter (\<lambda>out. case out of OutForkError _ \<Rightarrow> True | OutExecNoProcess \<Rightarrow> True | _ \<Rightarrow> False) outs"

lemmas out_defs = stepped_def forked_def refused_def

lemma out_append:
  "stepped (xs @ ys) = stepped xs @ stepped ys" "forked (xs @ ys) = forked xs @ forked ys"
  "refused (xs @ ys) = refused xs @ refused ys"
  by (simp_all add: out_defs)

text \<open>No process of the scheduler has arrived, and the first process is the running one.\<close>

definition dbg_ok :: "dbg_kernel \<Rightarrow> bool" where
  "dbg_ok k \<longleftrightarrow> RR_inv (k_Scheduler k) \<and> 0 \<le> k_CurrentTick k \<and>
     (\<forall>a\<in>set (accounts (s_allProcesses (k_Scheduler k))). a_st a = StateNew \<and> a_arr a \<le> k_CurrentTick k) \<and>
     pm_ok (k_ProcManager k) \<and> k_RunningProcess k = Some 1 \<and> k_CPU k = NewHardwareCPU"

abbreviation next_pid :: "dbg_kernel \<Rightarrow> int" where
  "next_pid k \<equiv> pm_NextPID (k_ProcManager k)"

text \<open>What a piece of a session does: it ends in such a state, every tick is idle, every fork makes a child of the first process.\<close>

definition moved :: "dbg_kernel \<Rightarrow> dbg_kernel \<Rightarrow> dbg_out list \<Rightarrow> bool" where
  "moved k k' outs \<longleftrightarrow> dbg_ok k' \<and> k_CurrentTick k \<le> k_CurrentTick k' \<and> next_pid k \<le> next_pid k' \<and>
     stepped outs = map LineIdle [k_CurrentTick k + 1..k_CurrentTick k'] \<and>
     forked outs = map (\<lambda>p. (p, 1)) [next_pid k..next_pid k' - 1] \<and> refused outs = [] \<and>
     map p_BurstTime (s_allProcesses (k_Scheduler k')) =
       map p_BurstTime (s_allProcesses (k_Scheduler k)) @ replicate (length (forked outs)) 8"

lemma upto_join: "a \<le> b \<Longrightarrow> b \<le> c \<Longrightarrow> [a..b - 1] @ [b..c - 1] = [a..c - 1 :: int]"
  by (cases "a = b \<or> b = c") (use upto_split1 [of a "b" "c - 1"] in auto)

lemma moved_trans:
  assumes "moved k k1 outs1" "moved k1 k2 outs2"
  shows "moved k k2 (outs1 @ outs2)"
proof -
  note a = assms [unfolded moved_def]
  have "map LineIdle [k_CurrentTick k + 1..k_CurrentTick k1] @ map LineIdle [k_CurrentTick k1 + 1..k_CurrentTick k2] =
      map LineIdle [k_CurrentTick k + 1..k_CurrentTick k2]"
    using a upto_join [of "k_CurrentTick k + 1" "k_CurrentTick k1 + 1" "k_CurrentTick k2 + 1"]
    unfolding map_append [symmetric] by simp
  moreover have "map (\<lambda>p. (p, 1)) [next_pid k..next_pid k1 - 1] @ map (\<lambda>p. (p, 1)) [next_pid k1..next_pid k2 - 1] =
      map (\<lambda>p. (p, 1 :: int)) [next_pid k..next_pid k2 - 1]"
    using a upto_join [of "next_pid k" "next_pid k1" "next_pid k2"] unfolding map_append [symmetric] by simp
  moreover have "nat (next_pid k1 - next_pid k) + nat (next_pid k2 - next_pid k1) = nat (next_pid k2 - next_pid k)"
  proof -
    have "next_pid k \<le> next_pid k1" "next_pid k1 \<le> next_pid k2" using a by simp_all
    then show ?thesis by linarith
  qed
  ultimately show ?thesis using a by (simp add: moved_def out_append replicate_add [symmetric])
qed

lemma moved_refl: "dbg_ok k \<Longrightarrow> moved k k []"
  by (simp add: moved_def out_defs)

text \<open>A command that changes the process table only.\<close>

lemma moved_table:
  assumes "dbg_ok k" "pm_ok pm" "pm_NextPID pm = next_pid k" "stepped outs = []" "forked outs = []" "refused outs = []"
  shows "moved k (k\<lparr>k_ProcManager := pm\<rparr>) outs"
  using assms by (simp add: moved_def dbg_ok_def)

lemma astep_all_late:
  assumes "astep t as bs" "\<forall>a\<in>set as. a_st a = StateNew \<and> a_arr a < t"
  shows "bs = as"
proof -
  have "map (\<lambda>a. age1 (arrive1 t a)) as = as"
    by (rule map_idI) (use assms(2) in \<open>auto simp: age1_def arrive1_def\<close>)
  then obtain cs where cs: "dispatch t as cs" "bs = map (run1 t) cs" using assms(1) by (auto simp: astep_def)
  from cs(1) assms(2) have "cs = as"
    by (cases rule: dispatch.cases) (auto simp: preempt1_def dest: nth_mem)
  moreover have "map (run1 t) as = as" by (rule map_idI) (use assms(2) in \<open>auto simp: run1_def\<close>)
  ultimately show ?thesis using cs(2) by simp
qed

context cpu_scheduler
begin

lemma Step_all_late:
  assumes i: "inv (k_Scheduler k)"
    and late: "\<forall>a\<in>set (accounts (procs (k_Scheduler k))). a_st a = StateNew \<and> a_arr a \<le> k_CurrentTick k"
  shows "\<exists>s'. Step tick procs k = Some (k\<lparr>k_CurrentTick := k_CurrentTick k + 1, k_Scheduler := s',
       k_EventHistory := k_EventHistory k @ [LineIdle (k_CurrentTick k + 1)]\<rparr>, LineIdle (k_CurrentTick k + 1)) \<and>
     inv s' \<and> accounts (procs s') = accounts (procs (k_Scheduler k))"
proof -
  let ?s = "k_Scheduler k" and ?t = "k_CurrentTick k + 1"
  from tick_law [OF i, of ?t] obtain s' r d where T: "tick ?s ?t = Some (s', r, d)" "inv s'"
    "astep ?t (accounts (procs ?s)) (accounts (procs s'))"
    "\<forall>i. r = Some i \<longleftrightarrow> i < length (procs s') \<and> p_State (procs s' ! i) = StateRunning" by blast
  have s': "accounts (procs s') = accounts (procs ?s)" using astep_all_late [OF T(3)] late by fastforce
  have "r = None"
  proof (rule ccontr)
    assume "r \<noteq> None"
    then obtain j where j: "j < length (procs s')" "p_State (procs s' ! j) = StateRunning" using T(4) by blast
    then have "account_of (procs s' ! j) \<in> set (accounts (procs s'))" by (simp add: accounts_def)
    then have "account_of (procs s' ! j) \<in> set (accounts (procs ?s))" unfolding s' .
    with late j(2) show False by (auto simp: account_of_def)
  qed
  with T(1,2) s' show ?thesis by (intro exI [of _ s']) (simp add: Step_def Let_def)
qed

end

lemma dbg_steps_moved:
  assumes "dbg_ok k"
  shows "\<exists>k' outs. dbg_steps n k = Some (k', outs) \<and> moved k k' outs"
  using assms
proof (induction n arbitrary: k)
  case 0
  then show ?case by (simp add: moved_refl)
next
  case (Suc n)
  from rr.Step_all_late [of k] Suc.prems obtain s' where
    S: "Step rr_tick s_allProcesses k = Some (k\<lparr>k_CurrentTick := k_CurrentTick k + 1, k_Scheduler := s',
       k_EventHistory := k_EventHistory k @ [LineIdle (k_CurrentTick k + 1)]\<rparr>, LineIdle (k_CurrentTick k + 1))"
    and s': "RR_inv s'" "accounts (s_allProcesses s') = accounts (s_allProcesses (k_Scheduler k))"
    by (auto simp: dbg_ok_def)
  define k1 where "k1 = k\<lparr>k_CurrentTick := k_CurrentTick k + 1, k_Scheduler := s',
       k_EventHistory := k_EventHistory k @ [LineIdle (k_CurrentTick k + 1)]\<rparr>"
  have len: "map p_BurstTime (s_allProcesses s') = map p_BurstTime (s_allProcesses (k_Scheduler k))"
    using arg_cong [OF s'(2), of "map a_burst"] by (simp add: accounts_def account_of_def comp_def)
  have "dbg_ok k1" using Suc.prems s' by (fastforce simp: dbg_ok_def k1_def)
  then have m: "moved k k1 [OutStep (LineIdle (k_CurrentTick k + 1))]"
    using len by (simp add: moved_def out_defs) (simp add: k1_def)
  from Suc.IH [OF \<open>dbg_ok k1\<close>] obtain k' outs where "dbg_steps n k1 = Some (k', outs)" "moved k1 k' outs" by blast
  with moved_trans [OF m] S show ?case by (auto simp: k1_def)
qed

text \<open>The first process is alive, so it can always fork.\<close>

lemma init_alive:
  assumes "pm_ok pm"
  shows "\<not> is_zombie pm 1" "\<exists>i. pm_Processes pm 1 = Some i"
proof -
  obtain i where i: "pm_Processes pm 1 = Some i" using tree_okD(1) [OF pm_okD(3) [OF assms]] by blast
  with pm_okD(2) [OF assms i] show "\<not> is_zombie pm 1" "\<exists>i. pm_Processes pm 1 = Some i"
    by (auto simp: is_zombie_def pcb_ok_def)
qed

lemma Fork_init:
  assumes "pm_ok pm"
  shows "\<exists>pm' child. Fork pm 1 = Some (pm', Inr child) \<and> pm_ok pm' \<and> pm_NextPID pm' = pm_NextPID pm + 1 \<and>
    up_PID child = pm_NextPID pm \<and> pm_Processes pm' (pm_NextPID pm) = Some child \<and> up_State child = ProcStateReady"
proof -
  obtain i where i: "pm_Processes pm 1 = Some i" using init_alive(2) [OF assms] by blast
  from assms i show ?thesis
  proof (cases rule: Fork_cases)
    case zombie
    with init_alive(1) [OF assms] i show ?thesis by (simp add: is_zombie_def)
  next
    case (live child)
    with Fork_ok [OF assms live(10)] show ?thesis by simp
  qed
qed

lemma add_late:
  assumes "dbg_ok k" "0 \<le> a" "a \<le> k_CurrentTick k"
    and k': "k' = k\<lparr>k_ProcManager := pm, k_Scheduler := RR_AddProcess (k_Scheduler k) (NewProcess pid name a b)\<rparr>" and "pm_ok pm"
  shows "dbg_ok k' \<and>
    map p_BurstTime (s_allProcesses (k_Scheduler k')) = map p_BurstTime (s_allProcesses (k_Scheduler k)) @ [b]"
  using rr.add_law [of "k_Scheduler k" "NewProcess pid name a b"] assms
  by (auto simp: dbg_ok_def NewProcess_def accounts_def account_of_def)

lemma dbg_fork_moved:
  assumes "dbg_ok k"
  shows "\<exists>k' outs. dbg_fork k = Some (k', outs) \<and> moved k k' outs \<and> stepped outs = [] \<and> length (forked outs) = 1"
proof -
  have run: "k_RunningProcess k = Some 1" and ok: "pm_ok (k_ProcManager k)" using assms by (simp_all add: dbg_ok_def)
  from Fork_init [OF ok] obtain pm child where F: "Fork (k_ProcManager k) 1 = Some (pm, Inr child)" "pm_ok pm"
    "pm_NextPID pm = next_pid k + 1" "up_PID child = next_pid k" by blast
  define k' where "k' = k\<lparr>k_ProcManager := pm,
    k_Scheduler := RR_AddProcess (k_Scheduler k) (NewProcess (up_PID child) (up_Name child) (k_CurrentTick k) 8)\<rparr>"
  have "dbg_ok k'"
    "map p_BurstTime (s_allProcesses (k_Scheduler k')) = map p_BurstTime (s_allProcesses (k_Scheduler k)) @ [8]"
    using add_late [OF assms _ _ k'_def F(2)] assms by (simp_all add: dbg_ok_def)
  moreover have "k_CurrentTick k' = k_CurrentTick k" "next_pid k' = next_pid k + 1" using F(3) by (simp_all add: k'_def)
  ultimately have "moved k k' [OutForked (next_pid k) 1]" by (simp add: moved_def out_defs)
  moreover have "dbg_fork k = Some (k', [OutForked (next_pid k) 1])"
    using run F by (simp add: dbg_fork_def k'_def)
  ultimately show ?thesis by (simp add: out_defs)
qed

lemma Exec_keeps: "Exec pm p b as = Some (pm', r) \<Longrightarrow> pm_NextPID pm' = pm_NextPID pm"
  by (auto simp: Exec_def Let_def split: option.splits)

lemma Wait_keeps: "Wait pm p = (pm', r) \<Longrightarrow> pm_NextPID pm' = pm_NextPID pm"
  by (auto simp: Wait_def Let_def split: option.splits if_splits list.splits)

lemma reparent_keeps: "reparent pm p cs = Some pm' \<Longrightarrow> pm_NextPID pm' = pm_NextPID pm"
  by (induction pm p cs rule: reparent.induct) (auto simp: adopt_def Let_def split: option.splits)

lemma Exit_keeps: "Exit pm p code = Some (pm', r) \<Longrightarrow> pm_NextPID pm' = pm_NextPID pm"
  by (auto simp: Exit_def Let_def dest!: reparent_keeps split: option.splits if_splits)

lemma dbg_exec_moved:
  assumes "dbg_ok k"
  shows "\<exists>k' outs. dbg_exec parts k = Some (k', outs) \<and> moved k k' outs \<and> stepped outs = [] \<and> forked outs = []"
proof (cases "length parts < 2")
  case True
  then show ?thesis using assms by (simp add: dbg_exec_def moved_def out_defs)
next
  case False
  have run: "k_RunningProcess k = Some 1" and ok: "pm_ok (k_ProcManager k)" using assms by (simp_all add: dbg_ok_def)
  obtain pm r where E: "Exec (k_ProcManager k) 1 (parts ! 1) [] = Some (pm, r)"
    using Exec_None_iff [OF ok, of 1 "parts ! 1" "[]"] init_alive(1) [OF ok] by fastforce
  have "moved k (k\<lparr>k_ProcManager := pm\<rparr>) [OutExeced 1 (parts ! 1)]"
    by (rule moved_table [OF assms Exec_ok [OF ok E] Exec_keeps [OF E]]) (simp_all add: out_defs)
  with False run E show ?thesis by (simp add: dbg_exec_def out_defs)
qed

lemma dbg_kill_moved:
  assumes "dbg_ok k"
  shows "\<exists>k' outs. dbg_kill parts k = Some (k', outs) \<and> moved k k' outs \<and> stepped outs = [] \<and> forked outs = []"
proof -
  define p where "p = (if length parts > 1 then fst (Atoi (parts ! 1)) else case k_RunningProcess k of None \<Rightarrow> 1 | Some pid \<Rightarrow> pid)"
  have ok: "pm_ok (k_ProcManager k)" using assms by (simp add: dbg_ok_def)
  obtain pm err where E: "Exit (k_ProcManager k) p 0 = Some (pm, err)" using Exit_total [OF ok, of p 0] by fastforce
  have "moved k (k\<lparr>k_ProcManager := pm\<rparr>) [case err of Some e \<Rightarrow> OutExitError e | None \<Rightarrow> OutExited p]"
    by (rule moved_table [OF assms Exit_ok [OF ok E] Exit_keeps [OF E]]) (simp_all add: out_defs split: option.split)
  moreover have "dbg_kill parts k = Some (k\<lparr>k_ProcManager := pm\<rparr>, [case err of Some e \<Rightarrow> OutExitError e | None \<Rightarrow> OutExited p])"
    unfolding dbg_kill_def Let_def p_def [symmetric] E by simp
  ultimately show ?thesis by (cases err) (simp_all add: out_defs)
qed

lemma dbg_wait_moved:
  assumes "dbg_ok k"
  shows "\<exists>k' outs. dbg_wait parts k = (k', outs) \<and> moved k k' outs \<and> stepped outs = [] \<and> forked outs = []"
proof -
  define p where "p = (if length parts > 1 then fst (Atoi (parts ! 1)) else 1)"
  have ok: "pm_ok (k_ProcManager k)" using assms by (simp add: dbg_ok_def)
  obtain pm r where W: "Wait (k_ProcManager k) p = (pm, r)" by fastforce
  have "moved k (k\<lparr>k_ProcManager := pm\<rparr>)
      [case r of Inl err \<Rightarrow> OutWaitError err | Inr (reaped, exitCode) \<Rightarrow> OutReaped p reaped exitCode]"
    by (rule moved_table [OF assms Wait_ok [OF ok W] Wait_keeps [OF W]]) (simp_all add: out_defs split: sum.split prod.split)
  then show ?thesis unfolding dbg_wait_def Let_def p_def [symmetric] W prod.case
    by (auto simp: out_defs split: sum.split prod.split)
qed

text \<open>What a line asks for: ticks, forks and the end of the session.\<close>

definition steps_of :: "string list \<Rightarrow> nat" where
  "steps_of parts = (if ToLower (parts ! 0) \<in> {''s'', ''step''} then step_count parts else 0)"

definition forks_of :: "string list \<Rightarrow> nat" where
  "forks_of parts = (if ToLower (parts ! 0) \<in> {''fork'', ''f''} then 1 else 0)"

definition quits :: "string list \<Rightarrow> bool" where
  "quits parts \<longleftrightarrow> ToLower (parts ! 0) \<in> {''q'', ''quit'', ''exit-dbg''}"

text \<open>What a session asks for: the sum over its commands up to the one that ends it.\<close>

fun session_sum :: "(string list \<Rightarrow> nat) \<Rightarrow> string list \<Rightarrow> nat" where
  "session_sum f [] = 0"
| "session_sum f (line # ls) =
     (let parts = Fields (TrimSpace line) in
      if length parts = 0 then session_sum f ls
      else if quits parts then f parts else f parts + session_sum f ls)"

lemma dbg_steps_count: "dbg_steps n k = Some (k', outs) \<Longrightarrow> length (stepped outs) = n \<and> forked outs = []"
  by (induction n arbitrary: k k' outs) (auto simp: out_defs split: option.splits prod.splits)

lemma dbg_command_moved:
  assumes "dbg_ok k"
  shows "\<exists>k' outs. dbg_command parts k = Some ((k', outs), quits parts) \<and> moved k k' outs \<and>
    length (stepped outs) = steps_of parts \<and> length (forked outs) = forks_of parts"
proof -
  have t: "moved k k [out]" if "stepped [out] = []" "forked [out] = []" "refused [out] = []" for out
    using moved_table [OF assms, of "k_ProcManager k" "[out]"] assms that by (simp add: dbg_ok_def)
  obtain k1 o1 where 1: "dbg_steps (step_count parts) k = Some (k1, o1)" "moved k k1 o1" using dbg_steps_moved [OF assms] by blast
  obtain k2 o2 where 2: "dbg_fork k = Some (k2, o2)" "moved k k2 o2" "stepped o2 = []" "length (forked o2) = 1"
    using dbg_fork_moved [OF assms] by blast
  obtain k3 o3 where 3: "dbg_exec parts k = Some (k3, o3)" "moved k k3 o3" "stepped o3 = [] \<and> forked o3 = []"
    using dbg_exec_moved [OF assms] by blast
  obtain k4 o4 where 4: "dbg_kill parts k = Some (k4, o4)" "moved k k4 o4" "stepped o4 = [] \<and> forked o4 = []"
    using dbg_kill_moved [OF assms] by blast
  obtain k5 o5 where 5: "dbg_wait parts k = (k5, o5)" "moved k k5 o5" "stepped o5 = [] \<and> forked o5 = []"
    using dbg_wait_moved [OF assms] by blast
  define good where "good s f q r \<longleftrightarrow> (\<exists>k' outs. r = Some ((k', outs), q :: bool) \<and> moved k k' outs \<and>
    length (stepped outs) = s \<and> length (forked outs) = f)" for s f q r
  have g: "moved k k' outs \<Longrightarrow> length (stepped outs) = s \<Longrightarrow> length (forked outs) = f \<Longrightarrow>
      good s f False (map_option (\<lambda>r. (r, False)) (Some (k', outs)))" for k' outs s f
    unfolding good_def option.map by blast
  have q: "good 0 0 True (Some ((k, []), True))"
    using moved_refl [OF assms] unfolding good_def by (auto simp: out_defs)
  have plain: "good 0 0 False (map_option (\<lambda>r. (r, False)) (Some (k, [out])))"
    if "out \<in> {OutDashboard, OutTree, OutHelp, OutUnknown}" for out
    by (rule g [OF t]) (use that in \<open>auto simp: out_defs\<close>)
  have table: "moved k k' outs \<Longrightarrow> stepped outs = [] \<and> forked outs = [] \<Longrightarrow>
      good 0 0 False (map_option (\<lambda>r. (r, False)) (Some (k', outs)))" for k' outs
    by (rule g) simp_all
  note leaves = q plain [OF insertI1] plain table [OF 3(2,3)] table [OF 4(2,3)] table [OF 5(2,3)]
    g [OF 1(2)] g [OF 2(2)]
  have "good (steps_of parts) (forks_of parts) (quits parts) (dbg_command parts k)"
    unfolding dbg_command_def Let_def steps_of_def forks_of_def quits_def
      1(1) 2(1) 3(1) 4(1) 5(1)
    using leaves dbg_steps_count [OF 1(1)] 2(3,4) by (auto simp del: option.map)
  then show ?thesis by (simp add: good_def)
qed

lemma dbg_loop_moved:
  assumes "dbg_ok k"
  shows "\<exists>k' outs. dbg_loop ls k = Some (k', outs) \<and> moved k k' outs \<and>
    length (stepped outs) = session_sum steps_of ls \<and> length (forked outs) = session_sum forks_of ls"
  using assms
proof (induction ls arbitrary: k)
  case Nil
  then show ?case by (simp add: moved_refl out_defs)
next
  case (Cons line ls)
  define parts where "parts = Fields (TrimSpace line)"
  show ?case
  proof (cases "length parts = 0")
    case True
    with Cons show ?thesis by (simp add: parts_def)
  next
    case False
    obtain k1 outs1 where C: "dbg_command parts k = Some ((k1, outs1), quits parts)" "moved k k1 outs1"
      "length (stepped outs1) = steps_of parts" "length (forked outs1) = forks_of parts"
      using dbg_command_moved [OF Cons.prems] by blast
    then have "dbg_ok k1" by (simp add: moved_def)
    with Cons.IH obtain k2 outs2 where L: "dbg_loop ls k1 = Some (k2, outs2)" "moved k1 k2 outs2"
      "length (stepped outs2) = session_sum steps_of ls" "length (forked outs2) = session_sum forks_of ls" by blast
    show ?thesis
    proof (cases "quits parts")
      case True
      with C False show ?thesis by (simp add: parts_def)
    next
      case cont: False
      have "dbg_loop (line # ls) k = Some (k2, outs1 @ outs2)"
        using C(1) False cont L(1) by (simp add: parts_def)
      then show ?thesis using moved_trans [OF C(2) L(2)] C L False cont
        by (simp add: out_append parts_def)
    qed
  qed
qed

lemma dbg_spawn_ok:
  assumes "dbg_ok k"
  shows "\<exists>k'. dbg_spawn name burst k = Some k' \<and> dbg_ok k' \<and> next_pid k' = next_pid k + 1 \<and> k_CurrentTick k' = k_CurrentTick k \<and>
    map p_BurstTime (s_allProcesses (k_Scheduler k')) = map p_BurstTime (s_allProcesses (k_Scheduler k)) @ [burst]"
proof -
  have ok: "pm_ok (k_ProcManager k)" using assms by (simp add: dbg_ok_def)
  from Fork_init [OF ok] obtain pm child where F: "Fork (k_ProcManager k) 1 = Some (pm, Inr child)" "pm_ok pm"
    "pm_NextPID pm = next_pid k + 1" "up_PID child = next_pid k" "pm_Processes pm (next_pid k) = Some child"
    "up_State child = ProcStateReady" by blast
  obtain pm' r where E: "Exec pm (next_pid k) name [] = Some (pm', r)"
    using Exec_None_iff [OF F(2), of "next_pid k" name "[]"] F(5,6) by (fastforce simp: is_zombie_def)
  define k' where "k' = k\<lparr>k_ProcManager := pm', k_Scheduler := RR_AddProcess (k_Scheduler k) (NewProcess (up_PID child) name 0 burst)\<rparr>"
  have "dbg_ok k'"
    "map p_BurstTime (s_allProcesses (k_Scheduler k')) = map p_BurstTime (s_allProcesses (k_Scheduler k)) @ [burst]"
    using add_late [OF assms _ _ k'_def Exec_ok [OF F(2) E]] assms by (simp_all add: dbg_ok_def)
  moreover have "dbg_spawn name burst k = Some k'" using F E by (simp add: dbg_spawn_def k'_def)
  ultimately show ?thesis using Exec_keeps [OF E] F(3) by (intro exI [of _ k'] conjI) (simp_all add: k'_def)
qed

lemma debugger_start_ok:
  "\<exists>k. debugger_start = Some k \<and> dbg_ok k \<and> next_pid k = 4 \<and> k_CurrentTick k = 0 \<and>
    map p_BurstTime (s_allProcesses (k_Scheduler k)) = [100, 15, 10]"
proof -
  obtain k0 where k0: "NewOSKernel RR_AddProcess (NewRRScheduler 2) = Some k0"
    using DefaultOSKernel_Some by (auto simp: DefaultOSKernel_def)
  obtain pm where pm: "NewProcessManager = Some pm" "pm_ok pm" using NewProcessManager_ok by blast
  have "pm_NextPID pm = 2" "pm_Processes pm 1 \<noteq> None"
    using pm(1) by (auto simp: NewProcessManager_def split: option.splits)
  moreover have "up_PID i = 1" if "pm_Processes pm 1 = Some i" for i using pm_okD(2) [OF pm(2) that] by (simp add: pcb_ok_def)
  ultimately have "dbg_ok k0 \<and> next_pid k0 = 2 \<and> k_CurrentTick k0 = 0"
    using k0 pm(2) rr.NewOSKernel_late [OF _ k0] unfolding NewOSKernel_def pm(1)
    by (auto simp: dbg_ok_def late_def)
  moreover have "map p_BurstTime (s_allProcesses (k_Scheduler k0)) = [100]"
    using k0 unfolding NewOSKernel_def pm(1)
    by (auto simp: NewRRScheduler_def RR_AddProcess_def base_add_def NewProcess_def)
  ultimately obtain k1 where k1: "dbg_spawn ''http_server'' 15 k0 = Some k1" "dbg_ok k1" "next_pid k1 = 3" "k_CurrentTick k1 = 0"
    "map p_BurstTime (s_allProcesses (k_Scheduler k1)) = [100, 15]"
    using dbg_spawn_ok [of k0 "''http_server''" 15] by auto
  then obtain k2 where k2: "dbg_spawn ''db_worker'' 10 k1 = Some k2" "dbg_ok k2" "next_pid k2 = 4" "k_CurrentTick k2 = 0"
    "map p_BurstTime (s_allProcesses (k_Scheduler k2)) = [100, 15, 10]"
    using dbg_spawn_ok [of k1 "''db_worker''" 10] by auto
  from k2 show ?thesis unfolding debugger_start_def k0 by (simp add: k1(1))
qed

text \<open>The number of the tick that a line of the kernel reports.\<close>

fun line_tick :: "kernel_line \<Rightarrow> int" where
  "line_tick (LineSwitch t _ _ _) = t"
| "line_tick (LineExecuting t _ _) = t"
| "line_tick (LineIdle t) = t"
| "line_tick (LineSyscall t _ _ _) = t"

lemma debugger_run:
  "\<exists>k outs. runInteractiveDebugger ls = Some (k, outs) \<and> dbg_ok k \<and> 0 \<le> k_CurrentTick k \<and> 4 \<le> next_pid k \<and>
     stepped outs = map LineIdle [1..k_CurrentTick k] \<and> forked outs = map (\<lambda>p. (p, 1)) [4..next_pid k - 1] \<and>
     refused outs = [] \<and> length (stepped outs) = session_sum steps_of ls \<and>
     length (forked outs) = session_sum forks_of ls \<and>
     map p_BurstTime (s_allProcesses (k_Scheduler k)) = [100, 15, 10] @ replicate (length (forked outs)) 8"
proof -
  obtain k0 where k0: "debugger_start = Some k0" "dbg_ok k0" "next_pid k0 = 4" "k_CurrentTick k0 = 0"
    "map p_BurstTime (s_allProcesses (k_Scheduler k0)) = [100, 15, 10]"
    using debugger_start_ok by metis
  obtain k outs where k: "dbg_loop ls k0 = Some (k, outs)" "moved k0 k outs"
    "length (stepped outs) = session_sum steps_of ls" "length (forked outs) = session_sum forks_of ls"
    using dbg_loop_moved [OF k0(2)] by blast
  have "runInteractiveDebugger ls = Some (k, outs)" unfolding runInteractiveDebugger_def k0(1) by (simp add: k(1))
  then show ?thesis using k(2-4) k0(3-5) by (simp add: moved_def)
qed


text \<open>The processes never run: every tick of every session is idle, the first process stays the running one, and no process of the
  scheduler leaves the state in which it was added.\<close>

lemma debugger_always_idle:
  "\<exists>k outs. runInteractiveDebugger ls = Some (k, outs) \<and> stepped outs = map LineIdle [1..k_CurrentTick k] \<and>
     k_RunningProcess k = Some 1 \<and> k_CPU k = NewHardwareCPU \<and>
     p_State ` set (s_allProcesses (k_Scheduler k)) \<subseteq> {StateNew}"
proof -
  obtain k outs where k: "runInteractiveDebugger ls = Some (k, outs)" "dbg_ok k"
    "stepped outs = map LineIdle [1..k_CurrentTick k]" using debugger_run [of ls] by blast
  then show ?thesis by (auto simp: dbg_ok_def accounts_def account_of_def)
qed

text \<open>A process that the debugger has killed is still in the scheduler.\<close>

lemma killed_still_scheduled:
  "case runInteractiveDebugger [''kill 2'', ''wait''] of None \<Rightarrow> False
   | Some (k, outs) \<Rightarrow> outs = [OutExited 2, OutReaped 1 2 0] \<and> pm_Processes (k_ProcManager k) 2 = None \<and>
       map p_PID (s_allProcesses (k_Scheduler k)) = [1, 2, 3]"
  by code_simp

end
