(* ===== verification/Spec2Isabelle.thy ===== *)
theory Spec2Isabelle
  imports OS_Kernel Free_List Buddy Bankers Dining RW_Lock Sched_MLFQ GMP_Runtime Bounded_Buffer
    Race_Demo Io_Poll Rendering Debugger
begin

text \<open>
  A verification library for the operating system simulator.
\<close>

end
